(* ===== verification/Prelude.thy ===== *)
theory Prelude
  imports Main "HOL-Library.Word" "HOL-Library.Signed_Division"
begin

text \<open>
  Shared vocabulary of the development: the Go machine types, the wrap-around of Go's
  64-bit \<open>int\<close>, and the generic facts about lists, options and words that the component
  theories use.  Nothing in this theory is specific to one component.

  Go values are modelled as follows.  \<open>uint8\<close>, \<open>uint16\<close>, \<open>uint32\<close> and \<open>uint64\<close> are words of
  that width; a Go string or byte slice is a list of bytes; a rune is an integer (the
  sources only produce non-negative runes and the end-of-input marker -1); lengths and
  indices that cannot be negative are natural numbers, and an index that can be is an
  integer.  Where the wrap-around of \<open>int\<close> or \<open>int64\<close> can be observed it is written out
  with \<open>i64\<close>.
\<close>

unbundle bit_operations_syntax

section \<open>Machine types\<close>

type_synonym byte = "8 word"
type_synonym u16 = "16 word"
type_synonym u32 = "32 word"
type_synonym u64 = "64 word"
type_synonym rune = int
type_synonym gostring = "byte list"

text \<open>The signed 64-bit value a Go \<open>int\<close> or \<open>int64\<close> expression has after wrap-around.\<close>

definition i64 :: "int \<Rightarrow> int" where
  "i64 x = (x + 2 ^ 63) mod 2 ^ 64 - 2 ^ 63"

text \<open>A literal of ASCII text as the bytes of a Go string.\<close>

definition ascii :: "string \<Rightarrow> gostring" where
  "ascii s = map of_char s"

text \<open>The byte of an ASCII character literal.\<close>

definition bt :: "char \<Rightarrow> byte" where "bt c = of_char c"

text \<open>The bytes \<open>s[a:b]\<close> of a Go slice expression with \<open>a \<le> b \<le> len(s)\<close>.\<close>

definition gosub :: "'a list \<Rightarrow> nat \<Rightarrow> nat \<Rightarrow> 'a list" where
  "gosub s a b = take (b - a) (drop a s)"

section \<open>Hint collections\<close>

named_theorems mono_intros \<open>monotonicity facts of the state-passing operations\<close>
named_theorems frame_simps \<open>fields that an operation leaves unchanged\<close>

section \<open>Integers\<close>

lemma i64_range: "- (2 ^ 63) \<le> i64 x \<and> i64 x < 2 ^ 63"
proof -
  have "0 \<le> (x + 2 ^ 63) mod 2 ^ 64" and "(x + 2 ^ 63) mod 2 ^ 64 < (2::int) ^ 64"
    by simp_all
  then show ?thesis unfolding i64_def by simp
qed

lemma i64_id: "- (2 ^ 63) \<le> x \<Longrightarrow> x < 2 ^ 63 \<Longrightarrow> i64 x = x"
  unfolding i64_def by (subst mod_pos_pos_trivial) auto

section \<open>Lists\<close>

lemma gosub_full [simp]: "gosub s 0 (length s) = s"
  by (simp add: gosub_def)

lemma gosub_empty [simp]: "gosub s a a = []"
  by (simp add: gosub_def)

lemma length_gosub: "a \<le> b \<Longrightarrow> b \<le> length s \<Longrightarrow> length (gosub s a b) = b - a"
  by (simp add: gosub_def)

lemma gosub_append: "a \<le> b \<Longrightarrow> b \<le> c \<Longrightarrow> gosub s a b @ gosub s b c = gosub s a c"
proof -
  assume le: "a \<le> b" "b \<le> c"
  have "take (c - a) (drop a s) = take (b - a) (drop a s) @ take (c - b) (drop (b - a) (drop a s))"
    using take_add [of "b - a" "c - b" "drop a s"] le by simp
  with le show ?thesis by (simp add: gosub_def)
qed

lemma nth_gosub: "a + i < b \<Longrightarrow> b \<le> length s \<Longrightarrow> gosub s a b ! i = s ! (a + i)"
  by (simp add: gosub_def)

lemma set_gosub: "set (gosub s a b) \<subseteq> set s"
  unfolding gosub_def using set_take_subset set_drop_subset by fast

lemma length_ascii [simp]: "length (ascii s) = length s"
  by (simp add: ascii_def)

lemma list_all_nth_update:
  "list_all P xs \<Longrightarrow> P x \<Longrightarrow> list_all P (xs[i := x])"
  by (induction xs arbitrary: i) (auto split: nat.splits)

lemma filter_length_update_less:
  assumes "i < length xs" "P (xs ! i)" "\<not> P x"
  shows "length (filter P (xs[i := x])) < length (filter P xs)"
  using assms
proof (induction xs arbitrary: i)
  case Nil
  then show ?case by simp
next
  case (Cons y ys)
  then show ?case by (cases i) (force split: if_splits)+
qed

lemma find_map: "find P (map f xs) = map_option f (find (P \<circ> f) xs)"
  by (induction xs) simp_all

lemma find_shift: "find P [f ..< f + k] = map_option ((+) f) (find (\<lambda>j. P (f + j)) [0 ..< k])"
proof -
  have "[f ..< f + k] = map ((+) f) [0 ..< k]"
    using map_add_upt [of f k] by (simp only: add.commute [of k] add.commute [of _ f])
  then show ?thesis by (simp add: find_map comp_def)
qed

section \<open>Options\<close>

lemma option_eqI: "(\<And>a. x = Some a \<longleftrightarrow> y = Some a) \<Longrightarrow> x = y"
  by (cases x; cases y) auto

section \<open>Words\<close>

lemma word8_bound: "uint (b :: byte) < 256"
  using unsigned_less [of b] by simp

lemma word8_bound_nat: "unat (b :: byte) < 256"
  using unsigned_less [of b] by simp

lemma uint16_of_int: "0 \<le> x \<Longrightarrow> x < 65536 \<Longrightarrow> uint (word_of_int x :: u16) = x"
  by (simp add: unsigned_of_int take_bit_int_eq_self)

end
