(* ===== verification/GoText.thy ===== *)
theory GoText
  imports Prelude
begin

text \<open>
  The parts of Go's standard library that the text components call: \<open>unicode/utf8\<close>
  (\<open>DecodeRuneInString\<close>, \<open>DecodeLastRuneInString\<close>, \<open>EncodeRune\<close>), the conversions between
  strings and rune slices, and \<open>unicode/utf16\<close> (\<open>Encode\<close>, \<open>Decode\<close>, \<open>EncodeRune\<close>,
  \<open>DecodeRune\<close>).  They are definitions of the standard library's documented behaviour and
  model no line of the repository.

  The Unicode character tables (\<open>unicode.ToLower\<close>, \<open>unicode.IsLetter\<close>, the categories the
  lexer asks for) are too large to restate: they are the fields of a record that the
  definitions using them take as an argument.
\<close>

section \<open>UTF-8\<close>

definition runeError :: rune where "runeError = 0xFFFD"

definition isCont :: "byte \<Rightarrow> bool" where
  "isCont b \<longleftrightarrow> 0x80 \<le> uint b \<and> uint b \<le> 0xBF"

definition contBits :: "byte \<Rightarrow> int" where
  "contBits b = uint b - 0x80"

fun decodeRune :: "gostring \<Rightarrow> rune \<times> nat" where
  "decodeRune [] = (runeError, 0)"
| "decodeRune (b0 # bs) =
     (let c0 = uint b0 in
      if c0 < 0x80 then (c0, 1)
      else if c0 < 0xC2 then (runeError, 1)
      else if c0 < 0xE0 then
        (case bs of
           b1 # _ \<Rightarrow> if isCont b1 then ((c0 - 0xC0) * 64 + contBits b1, 2) else (runeError, 1)
         | _ \<Rightarrow> (runeError, 1))
      else if c0 < 0xF0 then
        (case bs of
           b1 # b2 # _ \<Rightarrow>
             if (if c0 = 0xE0 then 0xA0 else 0x80) \<le> uint b1
                \<and> uint b1 \<le> (if c0 = 0xED then 0x9F else 0xBF) \<and> isCont b2
             then ((c0 - 0xE0) * 4096 + contBits b1 * 64 + contBits b2, 3)
             else (runeError, 1)
         | _ \<Rightarrow> (runeError, 1))
      else if c0 < 0xF5 then
        (case bs of
           b1 # b2 # b3 # _ \<Rightarrow>
             if (if c0 = 0xF0 then 0x90 else 0x80) \<le> uint b1
                \<and> uint b1 \<le> (if c0 = 0xF4 then 0x8F else 0xBF) \<and> isCont b2 \<and> isCont b3
             then ((c0 - 0xF0) * 262144 + contBits b1 * 4096 + contBits b2 * 64 + contBits b3, 4)
             else (runeError, 1)
         | _ \<Rightarrow> (runeError, 1))
      else (runeError, 1))"

text \<open>\<open>DecodeLastRuneInString\<close>: step back over at most three continuation bytes, decode
  forward, and accept the rune only if it ends where the string does.  The counter of
  \<open>lastStart\<close> is the loop variable plus one, so that 0 stands for -1.\<close>

fun lastStart :: "gostring \<Rightarrow> nat \<Rightarrow> nat \<Rightarrow> nat" where
  "lastStart s lim 0 = 0"
| "lastStart s lim (Suc start) =
     (if start < lim then start
      else if \<not> isCont (s ! start) then start
      else lastStart s lim start)"

definition decodeLastRune :: "gostring \<Rightarrow> rune \<times> nat" where
  "decodeLastRune s =
     (if s = [] then (runeError, 0)
      else if uint (last s) < 0x80 then (uint (last s), 1)
      else
        let start = lastStart s (length s - 4) (length s - 1);
            (r, size) = decodeRune (drop start s)
        in if start + size \<noteq> length s then (runeError, 1) else (r, size))"

function runesOf :: "gostring \<Rightarrow> rune list" where
  "runesOf s = (if s = [] then []
     else case decodeRune s of (r, w) \<Rightarrow> r # runesOf (drop (max 1 w) s))"
  by pat_completeness auto
termination by (relation "measure length") auto

declare runesOf.simps [simp del]

definition validScalar :: "rune \<Rightarrow> bool" where
  "validScalar r \<longleftrightarrow> 0 \<le> r \<and> r \<le> 0x10FFFF \<and> \<not> (0xD800 \<le> r \<and> r \<le> 0xDFFF)"

definition encodeRune8 :: "rune \<Rightarrow> gostring" where
  "encodeRune8 r0 =
     (let r = (if validScalar r0 then r0 else runeError) in
      if r < 0x80 then [word_of_int r]
      else if r < 0x800 then
        [word_of_int (0xC0 + r div 64), word_of_int (0x80 + r mod 64)]
      else if r < 0x10000 then
        [word_of_int (0xE0 + r div 4096), word_of_int (0x80 + (r div 64) mod 64),
         word_of_int (0x80 + r mod 64)]
      else
        [word_of_int (0xF0 + r div 262144), word_of_int (0x80 + (r div 4096) mod 64),
         word_of_int (0x80 + (r div 64) mod 64), word_of_int (0x80 + r mod 64)])"

definition stringOfRunes :: "rune list \<Rightarrow> gostring" where
  "stringOfRunes rs = concat (map encodeRune8 rs)"

section \<open>UTF-16\<close>

definition encodeRune16 :: "rune \<Rightarrow> rune \<times> rune" where
  "encodeRune16 r =
     (if r < 0x10000 \<or> r > 0x10FFFF then (runeError, runeError)
      else (0xD800 + ((r - 0x10000) div 1024) mod 1024, 0xDC00 + (r - 0x10000) mod 1024))"

definition decodeRune16 :: "rune \<Rightarrow> rune \<Rightarrow> rune" where
  "decodeRune16 r1 r2 =
     (if 0xD800 \<le> r1 \<and> r1 < 0xDC00 \<and> 0xDC00 \<le> r2 \<and> r2 < 0xE000
      then (r1 - 0xD800) * 1024 + (r2 - 0xDC00) + 0x10000 else runeError)"

definition encode16one :: "rune \<Rightarrow> u16 list" where
  "encode16one r =
     (if (0 \<le> r \<and> r < 0xD800) \<or> (0xE000 \<le> r \<and> r < 0x10000) then [word_of_int r]
      else if 0x10000 \<le> r \<and> r \<le> 0x10FFFF
      then [word_of_int (fst (encodeRune16 r)), word_of_int (snd (encodeRune16 r))]
      else [word_of_int runeError])"

definition encode16 :: "rune list \<Rightarrow> u16 list" where
  "encode16 rs = concat (map encode16one rs)"

fun decode16 :: "u16 list \<Rightarrow> rune list" where
  "decode16 [] = []"
| "decode16 [u] =
     [if 0xD800 \<le> uint u \<and> uint u < 0xE000 then runeError else uint u]"
| "decode16 (u # v # us) =
     (if uint u < 0xD800 \<or> 0xE000 \<le> uint u then uint u # decode16 (v # us)
      else if uint u < 0xDC00 \<and> 0xDC00 \<le> uint v \<and> uint v < 0xE000
      then decodeRune16 (uint u) (uint v) # decode16 us
      else runeError # decode16 (v # us))"

section \<open>Character tables\<close>

record utab =
  toLower :: "rune \<Rightarrow> rune"
  toUpper :: "rune \<Rightarrow> rune"
  isLetter :: "rune \<Rightarrow> bool"
  isDigit :: "rune \<Rightarrow> bool"
  isZs :: "rune \<Rightarrow> bool"
  isIdStartTab :: "rune \<Rightarrow> bool"
  isIdContTab :: "rune \<Rightarrow> bool"

text \<open>A concrete instance, correct on ASCII, that the witnesses evaluate with.\<close>

definition asciiTab :: utab where
  "asciiTab = \<lparr>
     toLower = (\<lambda>r. if 65 \<le> r \<and> r \<le> 90 then r + 32 else r),
     toUpper = (\<lambda>r. if 97 \<le> r \<and> r \<le> 122 then r - 32 else r),
     isLetter = (\<lambda>r. (65 \<le> r \<and> r \<le> 90) \<or> (97 \<le> r \<and> r \<le> 122)),
     isDigit = (\<lambda>r. 48 \<le> r \<and> r \<le> 57),
     isZs = (\<lambda>r. r = 32 \<or> r = 0xA0),
     isIdStartTab = (\<lambda>r. 0xC0 \<le> r \<and> r \<le> 0x24F),
     isIdContTab = (\<lambda>r. 0xC0 \<le> r \<and> r \<le> 0x24F)\<rparr>"

section \<open>Facts\<close>

lemma decodeRune_width: "s \<noteq> [] \<Longrightarrow> 1 \<le> snd (decodeRune s) \<and> snd (decodeRune s) \<le> length s"
  by (cases s) (auto simp: Let_def split: list.splits)

lemma decodeRune_width_max: "snd (decodeRune s) \<le> 4"
  by (cases s) (auto simp: Let_def split: list.splits)

lemma decodeRune_ascii: "uint b < 0x80 \<Longrightarrow> decodeRune (b # bs) = (uint b, 1)"
  by (simp add: Let_def)

lemma decodeRune_scalar: "s \<noteq> [] \<Longrightarrow> validScalar (fst (decodeRune s))"
proof (cases s)
  case (Cons b0 bs)
  have b: "0 \<le> uint b" "uint b < 256" for b :: byte using word8_bound by auto
  show ?thesis unfolding Cons
    using b(1) [of b0]
    by (auto simp: Let_def validScalar_def runeError_def isCont_def contBits_def split: list.splits)
qed simp

lemma runesOf_Nil [simp]: "runesOf [] = []"
  by (simp add: runesOf.simps)

lemma runesOf_Cons:
  "s \<noteq> [] \<Longrightarrow> runesOf s = fst (decodeRune s) # runesOf (drop (snd (decodeRune s)) s)"
  using decodeRune_width [of s] by (subst runesOf.simps) (auto simp: max_def split: prod.splits)

lemma runesOf_induct [case_names Nil Step]:
  assumes "P []" and "\<And>s. s \<noteq> [] \<Longrightarrow> P (drop (snd (decodeRune s)) s) \<Longrightarrow> P s"
  shows "P s"
proof (induction s rule: length_induct)
  case (1 s)
  show ?case
  proof (cases "s = []")
    case False
    then have "length (drop (snd (decodeRune s)) s) < length s"
      using decodeRune_width [OF False] by simp
    with 1 False assms(2) show ?thesis by blast
  qed (simp add: assms(1))
qed

lemma runesOf_scalar: "r \<in> set (runesOf s) \<Longrightarrow> validScalar r"
  by (induction s rule: runesOf_induct) (auto simp: runesOf_Cons decodeRune_scalar)

lemma runesOf_ascii:
  "list_all (\<lambda>b. uint b < 0x80) s \<Longrightarrow> runesOf s = map uint s"
proof (induction s)
  case (Cons b bs)
  then show ?case by (simp add: runesOf_Cons decodeRune_ascii)
qed simp

end
