(* ===== verification/StrClass.thy ===== *)
theory StrClass
  imports Prelude
begin

text \<open>
  The branch-free character classification kernels of
  \<open>pkg/c2strclass/c2strclass_gen.go\<close>, on bytes and 16-bit units with their wrap-around
  arithmetic, and the readable predicates they are equivalent to.  \<open>n\<close> is the length
  argument of the kernels; the kernels that clamp it to the slice length are modelled with
  the clamp, and the two that do not (\<open>utf8_classify\<close>, \<open>lex_class\<close>) return no result when
  \<open>n\<close> runs past a slice, where the code panics.
\<close>

definition bit8 :: "bool \<Rightarrow> byte" where
  "bit8 b = (if b then 1 else 0)"

fun is_latin1_loop :: "u16 list \<Rightarrow> byte \<Rightarrow> byte" where
  "is_latin1_loop [] v2 = v2"
| "is_latin1_loop (u # us) v2 =
     is_latin1_loop us (v2 AND ucast ((1 :: u32) - ucast (bit8 ((ucast (drop_bit 8 u) :: byte) \<noteq> 0))))"

definition c2_is_latin1_u16 :: "u16 list \<Rightarrow> nat \<Rightarrow> byte" where
  "c2_is_latin1_u16 xs n = is_latin1_loop (take n xs) 1"

definition kUtf8Hi :: "byte list" where
  "kUtf8Hi = [0, 0, 0, 0, 0, 0, 0, 0, 1, 1, 1, 1, 2, 2, 3, 4]"

definition utf8_class_byte :: "byte \<Rightarrow> byte" where
  "utf8_class_byte v9 = kUtf8Hi ! unat (drop_bit 4 v9) + bit8 (0xf5 \<le> v9)"

definition c2_utf8_classify :: "byte list \<Rightarrow> nat \<Rightarrow> byte list \<Rightarrow> byte list option" where
  "c2_utf8_classify xs n out =
     (if n \<le> length xs \<and> n \<le> length out
      then Some (map utf8_class_byte (take n xs) @ drop n out) else None)"

definition ascii_upper_byte :: "byte \<Rightarrow> byte" where
  "ascii_upper_byte v7 = v7 - bit8 (v7 - 97 \<le> 25) * 32"

definition c2_ascii_upper :: "byte list \<Rightarrow> nat \<Rightarrow> byte list" where
  "c2_ascii_upper buf n = map ascii_upper_byte (take n buf) @ drop n buf"

definition lex_class_byte :: "byte \<Rightarrow> byte" where
  "lex_class_byte v8 =
     (let v46 = ((bit8 (v8 - 65 \<le> 25) OR bit8 (v8 - 97 \<le> 25)) OR bit8 (v8 = 95)) OR bit8 (v8 = 36);
          v42 = bit8 (v8 - 48 \<le> 9)
      in ((((v46 OR ((v46 OR v42) * 2)) OR (v42 * 4))
           OR ((((bit8 (v8 = 32) OR bit8 (v8 = 9)) OR bit8 (v8 = 11)) OR bit8 (v8 = 12)) * 8))
          OR ((bit8 (v8 = 10) OR bit8 (v8 = 13)) * 16))
         OR (bit8 (0x80 \<le> v8) * 32))"

definition c2_lex_class :: "byte list \<Rightarrow> nat \<Rightarrow> byte list \<Rightarrow> byte list option" where
  "c2_lex_class xs n out =
     (if n \<le> length xs \<and> n \<le> length out
      then Some (map lex_class_byte (take n xs) @ drop n out) else None)"

section \<open>Facts\<close>

lemma bit8_simps [simp]: "bit8 True = 1" "bit8 False = 0"
  by (simp_all add: bit8_def)

lemma hi_byte_zero: "(ucast (drop_bit 8 (u :: u16)) :: byte) = 0 \<longleftrightarrow> unat u < 256"
proof -
  have "unat u < 2 ^ LENGTH(16)" by (rule unsigned_less)
  then have "unat u < 65536" by simp
  then have "unat (ucast (drop_bit 8 u) :: byte) = unat u div 256"
    by (simp add: unsigned_ucast_eq unsigned_drop_bit_eq drop_bit_eq_div take_bit_eq_mod
        unat_div_distrib)
  then have "unat (ucast (drop_bit 8 u) :: byte) = 0 \<longleftrightarrow> unat u < 256" by auto
  then show ?thesis by (simp add: unsigned_eq_0_iff)
qed

lemma is_latin1_loop_eq:
  "v2 = 0 \<or> v2 = 1 \<Longrightarrow>
   is_latin1_loop us v2 = (if v2 = 1 \<and> list_all (\<lambda>u. unat u < 256) us then 1 else 0)"
proof (induction us arbitrary: v2)
  case (Cons u us)
  have "v2 AND ucast ((1 :: u32) - ucast (bit8 ((ucast (drop_bit 8 u) :: byte) \<noteq> 0)))
      = (if v2 = 1 \<and> unat u < 256 then 1 else 0)"
    using Cons.prems by (auto simp: hi_byte_zero)
  then show ?case using Cons.IH by simp
qed auto

lemma c2_is_latin1_u16_full:
  "c2_is_latin1_u16 us (length us) = 1 \<longleftrightarrow> list_all (\<lambda>u. unat u < 256) us"
  by (simp add: c2_is_latin1_u16_def is_latin1_loop_eq)

lemma upper_range: "(b :: byte) - 97 \<le> 25 \<longleftrightarrow> 97 \<le> b \<and> b \<le> 122"
  by unat_arith (auto simp: word8_bound_nat)


lemma lower_digit_range:
  "(b :: byte) - 65 \<le> 25 \<longleftrightarrow> 65 \<le> b \<and> b \<le> 90"
  "(b :: byte) - 48 \<le> 9 \<longleftrightarrow> 48 \<le> b \<and> b \<le> 57"
  by (unat_arith; auto simp: word8_bound_nat)+

lemma length_c2_ascii_upper [simp]: "length (c2_ascii_upper buf n) = length buf"
  by (simp add: c2_ascii_upper_def)

text \<open>
  The classification bits of the lexer kernel: bit 0 says identifier start, bit 1
  identifier part, bit 2 decimal digit, bit 3 horizontal white space, bit 4 line
  terminator and bit 5 non-ASCII.
\<close>

definition lex_bits :: "bool \<Rightarrow> bool \<Rightarrow> bool \<Rightarrow> bool \<Rightarrow> bool \<Rightarrow> byte" where
  "lex_bits start digit space nl hi =
     (if start then 1 else 0) + (if start \<or> digit then 2 else 0) + (if digit then 4 else 0)
     + (if space then 8 else 0) + (if nl then 16 else 0) + (if hi then 32 else 0)"

lemma lex_class_or:
  "((((bit8 s OR (bit8 (s \<or> d) * 2)) OR (bit8 d * 4)) OR (bit8 w * 8))
     OR (bit8 n * 16)) OR (bit8 h * 32) = lex_bits s d w n h"
  by (cases s; cases d; cases w; cases n; cases h; simp add: lex_bits_def)

lemma bit8_or: "bit8 a OR bit8 b = bit8 (a \<or> b)"
  by (cases a; cases b; simp)

section \<open>Properties\<close>

text \<open>
  The branch-free lexer kernel classifies every byte as the readable tests of the
  grammar do: letters, \<open>_\<close> and \<open>$\<close> start identifiers, digits continue them, and so on.
\<close>

theorem lex_class_byte_correct:
  "lex_class_byte b =
     lex_bits ((65 \<le> b \<and> b \<le> 90) \<or> (97 \<le> b \<and> b \<le> 122) \<or> b = 95 \<or> b = 36)
       (48 \<le> b \<and> b \<le> 57) (b = 32 \<or> b = 9 \<or> b = 11 \<or> b = 12) (b = 10 \<or> b = 13) (0x80 \<le> b)"
  unfolding lex_class_byte_def Let_def upper_range lower_digit_range bit8_or lex_class_or
  by (simp only: disj_assoc)

text \<open>
  The upper-casing kernel maps exactly the ASCII lower-case letters to their upper-case
  form and leaves every other byte of the buffer alone, whatever length argument it gets.
\<close>

theorem ascii_upper_correct:
  "c2_ascii_upper buf n =
     map (\<lambda>(i, b). if i < n \<and> 97 \<le> b \<and> b \<le> 122 then b - 32 else b) (enumerate 0 buf)"
proof -
  have byte: "ascii_upper_byte b = (if 97 \<le> b \<and> b \<le> 122 then b - 32 else b)" for b
    by (auto simp: ascii_upper_byte_def upper_range bit8_def)
  show ?thesis
    by (rule nth_equalityI)
      (auto simp: c2_ascii_upper_def nth_append nth_enumerate_eq byte min_def not_less)
qed

end
