(* ===== verification/StrRope.thy ===== *)
theory StrRope
  imports GoText StrClass "HOL-Library.Monad_Syntax"
begin

text \<open>
  Engine strings, \<open>pkg/js55/str/str.go\<close>.  A string is a heap cell that stores its UTF-16
  code units as bytes (\<open>Latin1\<close>), as 16-bit units (\<open>UTF16\<close>) or as a deferred concatenation
  of two other strings (\<open>Rope\<close>).  Flattening a rope overwrites the cell in place, so
  sharing is observable: the model keeps all strings in a store (a list of cells; a
  pointer is a position in it, position 0 is the shared \<open>Empty\<close>), and every operation takes
  the store and returns the new one.

  An operation returns \<open>None\<close> where the Go code panics (a nil dereference, an index past a
  slice, the reserved form \<open>Sliced\<close>); \<open>flatten\<close>'s work-list loop is also \<open>None\<close> if it never
  ends.  \<open>store_ok\<close> is the well-formedness of stores; under it no operation is \<open>None\<close>, and
  what each returns depends on the \<open>units\<close> of its arguments only.  The argument \<open>force\<close> is
  the package's metamorphic switch \<open>forceUTF16\<close>.
\<close>

section \<open>Cells and the store\<close>

datatype kind = Latin1 | UTF16 | Rope | Sliced

type_synonym saddr = nat

record strcell =
  hashState :: u64
  kindOf :: kind
  narrow :: bool
  slen :: nat
  latin1 :: "byte list"
  utf16 :: "u16 list"
  left :: "saddr option"
  right :: "saddr option"

type_synonym store = "strcell list"

definition hashComputedBit :: u64 where
  "hashComputedBit = push_bit 32 1"

definition ropeThreshold :: nat where
  "ropeThreshold = 32"

definition emptyAddr :: saddr where
  "emptyAddr = 0"

definition deref :: "'a list \<Rightarrow> nat \<Rightarrow> 'a option" where
  "deref xs i = (if i < length xs then Some (xs ! i) else None)"

definition newStr :: "store \<Rightarrow> strcell \<Rightarrow> saddr \<times> store" where
  "newStr h n = (length h, h @ [n])"

definition mkLatin1 :: "byte list \<Rightarrow> strcell" where
  "mkLatin1 b = \<lparr>hashState = 0, kindOf = Latin1, narrow = False, slen = length b,
     latin1 = b, utf16 = [], left = None, right = None\<rparr>"

definition mkUTF16 :: "u16 list \<Rightarrow> strcell" where
  "mkUTF16 u = \<lparr>hashState = 0, kindOf = UTF16, narrow = False, slen = length u,
     latin1 = [], utf16 = u, left = None, right = None\<rparr>"

section \<open>Construction\<close>

definition FromUTF16 :: "bool \<Rightarrow> store \<Rightarrow> u16 list \<Rightarrow> saddr \<times> store" where
  "FromUTF16 force h u =
     (if u = [] then (emptyAddr, h)
      else if \<not> force \<and> c2_is_latin1_u16 u (length u) = 1
      then newStr h (mkLatin1 (map ucast u))
      else newStr h (mkUTF16 u))"

definition FromLatin1 :: "bool \<Rightarrow> store \<Rightarrow> byte list \<Rightarrow> saddr \<times> store" where
  "FromLatin1 force h b =
     (if b = [] then (emptyAddr, h)
      else if force then newStr h (mkUTF16 (map ucast b))
      else newStr h (mkLatin1 b))"

definition FromGo :: "bool \<Rightarrow> store \<Rightarrow> gostring \<Rightarrow> saddr \<times> store" where
  "FromGo force h s =
     (if s = [] then (emptyAddr, h)
      else if list_all (\<lambda>b. uint b < 0x80) s then FromLatin1 force h s
      else FromUTF16 force h (encode16 (runesOf s)))"

fun codePointUnits :: "int list \<Rightarrow> u16 list option" where
  "codePointUnits [] = Some []"
| "codePointUnits (cp # cps) =
     (if cp < 0 \<or> cp > 0x10FFFF then None
      else map_option ((@) (if cp \<le> 0xFFFF then [word_of_int cp]
             else [word_of_int (fst (encodeRune16 cp)), word_of_int (snd (encodeRune16 cp))]))
           (codePointUnits cps))"

text \<open>\<open>FromCodePoints\<close> and \<open>FromCodePoint\<close> return \<open>(nil, false)\<close> for an illegal code point:
  \<open>None\<close> here.\<close>

definition FromCodePoints :: "bool \<Rightarrow> store \<Rightarrow> int list \<Rightarrow> (saddr \<times> store) option" where
  "FromCodePoints force h cps =
     (if cps = [] then Some (emptyAddr, h)
      else map_option (FromUTF16 force h) (codePointUnits cps))"

definition FromCodePoint :: "bool \<Rightarrow> store \<Rightarrow> int \<Rightarrow> (saddr \<times> store) option" where
  "FromCodePoint force h cp =
     (if cp < 0 \<or> cp > 0x10FFFF then None
      else if cp \<le> 0xFF \<and> \<not> force then Some (FromLatin1 force h [word_of_int cp])
      else if cp \<le> 0xFFFF then Some (FromUTF16 force h [word_of_int cp])
      else Some (FromUTF16 force h
        [word_of_int (fst (encodeRune16 cp)), word_of_int (snd (encodeRune16 cp))]))"

section \<open>Flattening\<close>

text \<open>The work list is the code's stack with its top first.\<close>

partial_function (option) flat8_loop :: "store \<Rightarrow> saddr list \<Rightarrow> byte list \<Rightarrow> byte list option" where
  "flat8_loop h stack out =
     (case stack of
        [] \<Rightarrow> Some out
      | a # rest \<Rightarrow>
          (case deref h a of
             None \<Rightarrow> None
           | Some n \<Rightarrow>
               if kindOf n = Rope then
                 (case left n of
                    None \<Rightarrow> None
                  | Some l \<Rightarrow>
                      (case right n of None \<Rightarrow> None | Some r \<Rightarrow> flat8_loop h (l # r # rest) out))
               else flat8_loop h rest (out @ latin1 n)))"

definition flatUnits :: "strcell \<Rightarrow> u16 list option" where
  "flatUnits n = (case kindOf n of
       Latin1 \<Rightarrow> Some (map ucast (latin1 n))
     | UTF16 \<Rightarrow> Some (utf16 n)
     | _ \<Rightarrow> None)"

partial_function (option) flat16_loop :: "store \<Rightarrow> saddr list \<Rightarrow> u16 list \<Rightarrow> u16 list option" where
  "flat16_loop h stack out =
     (case stack of
        [] \<Rightarrow> Some out
      | a # rest \<Rightarrow>
          (case deref h a of
             None \<Rightarrow> None
           | Some n \<Rightarrow>
               if kindOf n = Rope then
                 (case left n of
                    None \<Rightarrow> None
                  | Some l \<Rightarrow>
                      (case right n of None \<Rightarrow> None | Some r \<Rightarrow> flat16_loop h (l # r # rest) out))
               else
                 (case flatUnits n of None \<Rightarrow> None | Some u \<Rightarrow> flat16_loop h rest (out @ u))))"

definition flatten :: "store \<Rightarrow> saddr \<Rightarrow> store option" where
  "flatten h a =
     do { n \<leftarrow> deref h a;
          if kindOf n \<noteq> Rope then Some h
          else if narrow n then
            do { out \<leftarrow> flat8_loop h [a] [];
                 Some (h[a := n\<lparr>kindOf := Latin1, latin1 := out, utf16 := [],
                                left := None, right := None\<rparr>]) }
          else
            do { out \<leftarrow> flat16_loop h [a] [];
                 Some (h[a := n\<lparr>kindOf := UTF16, utf16 := out, latin1 := [],
                                left := None, right := None\<rparr>]) } }"

definition isNarrow :: "strcell \<Rightarrow> bool option" where
  "isNarrow n = (case kindOf n of
       Latin1 \<Rightarrow> Some True
     | UTF16 \<Rightarrow> Some False
     | Rope \<Rightarrow> Some (narrow n)
     | Sliced \<Rightarrow> None)"

text \<open>The cell of a string after \<open>flatten\<close>; every reading operation starts with it.\<close>

definition flatCell :: "store \<Rightarrow> saddr \<Rightarrow> (strcell \<times> store) option" where
  "flatCell h a = do { h' \<leftarrow> flatten h a; n \<leftarrow> deref h' a; Some (n, h') }"

section \<open>Access\<close>

definition Len :: "store \<Rightarrow> saddr \<Rightarrow> nat option" where
  "Len h a = map_option slen (deref h a)"

text \<open>\<open>At\<close> on a cell that is already flat, where its \<open>flatten\<close> does nothing.\<close>

definition unitAt :: "strcell \<Rightarrow> int \<Rightarrow> u16 option" where
  "unitAt n i =
     (if i < 0 \<or> i \<ge> int (slen n) then Some 0
      else case kindOf n of
          Latin1 \<Rightarrow> map_option ucast (deref (latin1 n) (nat i))
        | UTF16 \<Rightarrow> deref (utf16 n) (nat i)
        | _ \<Rightarrow> None)"

definition At :: "store \<Rightarrow> saddr \<Rightarrow> int \<Rightarrow> (u16 \<times> store) option" where
  "At h a i = do { (n, h') \<leftarrow> flatCell h a; u \<leftarrow> unitAt n i; Some (u, h') }"

definition CodePointAt :: "store \<Rightarrow> saddr \<Rightarrow> int \<Rightarrow> ((rune \<times> nat) \<times> store) option" where
  "CodePointAt h a i =
     do { n \<leftarrow> Len h a;
          if i < 0 \<or> i \<ge> int n then Some ((-1, 0), h)
          else do { (c, h1) \<leftarrow> At h a i;
            if uint c < 0xD800 \<or> uint c > 0xDBFF \<or> i + 1 \<ge> int n then Some ((uint c, 1), h1)
            else do { (d, h2) \<leftarrow> At h1 a (i + 1);
              if uint d < 0xDC00 \<or> uint d > 0xDFFF then Some ((uint c, 1), h2)
              else Some ((decodeRune16 (uint c) (uint d), 2), h2) } } }"

definition UTF16copy :: "store \<Rightarrow> saddr \<Rightarrow> (u16 list \<times> store) option" where
  "UTF16copy h a = do { (n, h') \<leftarrow> flatCell h a; u \<leftarrow> flatUnits n; Some (u, h') }"

definition UTF16LenOfUTF8Prefix :: "gostring \<Rightarrow> int \<Rightarrow> nat" where
  "UTF16LenOfUTF8Prefix s byteIdx =
     (if byteIdx \<le> 0 then 0
      else let i = (if byteIdx > int (length s) then length s else nat byteIdx)
           in length (encode16 (runesOf (take i s))))"

definition GoString :: "store \<Rightarrow> saddr \<Rightarrow> (gostring \<times> store) option" where
  "GoString h a =
     do { (n, h') \<leftarrow> flatCell h a;
          (case kindOf n of
             Latin1 \<Rightarrow> Some (stringOfRunes (map uint (latin1 n)), h')
           | UTF16 \<Rightarrow> Some (stringOfRunes (decode16 (utf16 n)), h')
           | _ \<Rightarrow> None) }"

section \<open>Content and well-formedness\<close>

text \<open>
  The content of a string: the code units it stands for.  Children of a rope have smaller
  addresses than the rope, which bounds the recursion.
\<close>

function units :: "store \<Rightarrow> saddr \<Rightarrow> u16 list" where
  "units h a =
     (if a < length h then
        (case kindOf (h ! a) of
           Latin1 \<Rightarrow> map ucast (latin1 (h ! a))
         | UTF16 \<Rightarrow> utf16 (h ! a)
         | Rope \<Rightarrow>
             (case (left (h ! a), right (h ! a)) of
                (Some l, Some r) \<Rightarrow> if l < a \<and> r < a then units h l @ units h r else []
              | _ \<Rightarrow> [])
         | Sliced \<Rightarrow> [])
      else [])"
  by pat_completeness auto
termination by (relation "measure snd") auto

declare units.simps [simp del]

definition fnv_step :: "u32 \<Rightarrow> u16 \<Rightarrow> u32" where
  "fnv_step acc c = ((acc XOR ucast (c AND 0xFF)) * 16777619 XOR ucast (drop_bit 8 c)) * 16777619"

definition fnv :: "u16 list \<Rightarrow> u32" where
  "fnv us = foldl fnv_step 2166136261 us"

definition narrowCell :: "strcell \<Rightarrow> bool" where
  "narrowCell n \<longleftrightarrow> kindOf n = Latin1 \<or> (kindOf n = Rope \<and> narrow n)"

definition cell_ok :: "store \<Rightarrow> nat \<Rightarrow> bool" where
  "cell_ok h a \<longleftrightarrow>
     (case kindOf (h ! a) of
        Latin1 \<Rightarrow> slen (h ! a) = length (latin1 (h ! a))
      | UTF16 \<Rightarrow> slen (h ! a) = length (utf16 (h ! a))
      | Rope \<Rightarrow>
          (\<exists>l r. left (h ! a) = Some l \<and> right (h ! a) = Some r \<and> l < a \<and> r < a
             \<and> slen (h ! a) = slen (h ! l) + slen (h ! r)
             \<and> (narrow (h ! a) \<longrightarrow> narrowCell (h ! l) \<and> narrowCell (h ! r)))
      | Sliced \<Rightarrow> False)"

definition hash_ok :: "store \<Rightarrow> nat \<Rightarrow> bool" where
  "hash_ok h a \<longleftrightarrow>
     (hashState (h ! a) AND hashComputedBit \<noteq> 0 \<longrightarrow> ucast (hashState (h ! a)) = fnv (units h a))"

definition store_ok :: "store \<Rightarrow> bool" where
  "store_ok h \<longleftrightarrow> h \<noteq> [] \<and> units h emptyAddr = [] \<and> kindOf (h ! emptyAddr) = Latin1
     \<and> (\<forall>a < length h. cell_ok h a \<and> hash_ok h a)"

text \<open>\<open>h'\<close> extends \<open>h\<close>: no address is lost and no content changes.\<close>

definition extends :: "store \<Rightarrow> store \<Rightarrow> bool" where
  "extends h h' \<longleftrightarrow> length h \<le> length h' \<and> (\<forall>a < length h. units h' a = units h a)"

definition flat :: "strcell \<Rightarrow> u16 list \<Rightarrow> bool" where
  "flat n u \<longleftrightarrow> flatUnits n = Some u \<and> slen n = length u"

lemma extends_refl [simp]: "extends h h"
  by (simp add: extends_def)

lemma extends_trans [trans]: "extends h h' \<Longrightarrow> extends h' h'' \<Longrightarrow> extends h h''"
  by (auto simp: extends_def)

lemma deref_Some [simp]: "i < length xs \<Longrightarrow> deref xs i = Some (xs ! i)"
  by (simp add: deref_def)

lemma kind_flat: "flat n u \<Longrightarrow> kindOf n = Latin1 \<or> kindOf n = UTF16"
  by (cases "kindOf n") (auto simp: flat_def flatUnits_def)

lemma units_flat: "a < length h \<Longrightarrow> flatUnits (h ! a) = Some u \<Longrightarrow> units h a = u"
  by (subst units.simps) (auto simp: flatUnits_def split: kind.splits)

lemma units_rope:
  assumes "a < length h" "kindOf (h ! a) = Rope" "left (h ! a) = Some l" "right (h ! a) = Some r"
    "l < a" "r < a"
  shows "units h a = units h l @ units h r"
  using assms by (subst units.simps) simp

lemma cell_ok_rope:
  assumes "cell_ok h a" "kindOf (h ! a) = Rope"
  obtains l r where "left (h ! a) = Some l" "right (h ! a) = Some r" "l < a" "r < a"
    "slen (h ! a) = slen (h ! l) + slen (h ! r)"
    "narrow (h ! a) \<Longrightarrow> narrowCell (h ! l) \<and> narrowCell (h ! r)"
  using assms by (auto simp: cell_ok_def)

lemma cell_ok_flat:
  "cell_ok h a \<Longrightarrow> kindOf (h ! a) \<noteq> Rope \<Longrightarrow> a < length h \<Longrightarrow> flat (h ! a) (units h a)"
  by (subst units.simps) (auto simp: cell_ok_def flat_def flatUnits_def split: kind.splits)

text \<open>The length field is right for every form, ropes included.\<close>

lemma slen_units: "store_ok h \<Longrightarrow> a < length h \<Longrightarrow> slen (h ! a) = length (units h a)"
proof (induction a rule: less_induct)
  case (less a)
  then have ok: "cell_ok h a" by (simp add: store_ok_def)
  show ?case
  proof (cases "kindOf (h ! a) = Rope")
    case True
    from ok True obtain l r where "left (h ! a) = Some l" "right (h ! a) = Some r" "l < a" "r < a"
      "slen (h ! a) = slen (h ! l) + slen (h ! r)" by (rule cell_ok_rope)
    with less True show ?thesis by (simp add: units_rope)
  next
    case False
    with ok less.prems cell_ok_flat show ?thesis by (simp add: flat_def)
  qed
qed

section \<open>Flattening is total and keeps every content\<close>

function weight :: "store \<Rightarrow> saddr \<Rightarrow> nat" where
  "weight h a = Suc (case (left (h ! a), right (h ! a)) of
       (Some l, Some r) \<Rightarrow> if l < a \<and> r < a then weight h l + weight h r else 0
     | _ \<Rightarrow> 0)"
  by pat_completeness auto
termination by (relation "measure snd") auto

declare weight.simps [simp del]

lemma weight_rope:
  "left (h ! a) = Some l \<Longrightarrow> right (h ! a) = Some r \<Longrightarrow> l < a \<Longrightarrow> r < a \<Longrightarrow>
   weight h a = Suc (weight h l + weight h r)"
  by (subst weight.simps) simp

lemma weight_pos: "0 < weight h a"
  by (subst weight.simps) simp

lemma flat16_loop_ok:
  "store_ok h \<Longrightarrow> set stack \<subseteq> {..<length h} \<Longrightarrow>
   flat16_loop h stack out = Some (out @ concat (map (units h) stack))"
proof (induction "sum_list (map (weight h) stack)" arbitrary: stack out rule: less_induct)
  case less
  show ?case
  proof (cases stack)
    case Nil
    then show ?thesis by (simp add: flat16_loop.simps)
  next
    case (Cons a rest)
    then have a: "a < length h" and ok: "cell_ok h a" using less.prems by (auto simp: store_ok_def)
    show ?thesis
    proof (cases "kindOf (h ! a) = Rope")
      case True
      from ok True obtain l r where lr: "left (h ! a) = Some l" "right (h ! a) = Some r" "l < a" "r < a"
        by (rule cell_ok_rope)
      then have "flat16_loop h (l # r # rest) out = Some (out @ concat (map (units h) (l # r # rest)))"
        using less a Cons by (intro less(1)) (auto simp: weight_rope)
      with True lr a Cons show ?thesis
        by (subst flat16_loop.simps) (simp add: units_rope)
    next
      case False
      then have "flat (h ! a) (units h a)" using cell_ok_flat ok a by blast
      moreover have "flat16_loop h rest (out @ units h a)
          = Some ((out @ units h a) @ concat (map (units h) rest))"
        using less Cons weight_pos [of h a] by (intro less(1)) auto
      ultimately show ?thesis using False Cons a
        by (subst flat16_loop.simps) (simp add: flat_def)
    qed
  qed
qed

lemma flat8_loop_ok:
  "store_ok h \<Longrightarrow> set stack \<subseteq> {..<length h} \<Longrightarrow> \<forall>a \<in> set stack. narrowCell (h ! a) \<Longrightarrow>
   \<exists>b. flat8_loop h stack out = Some (out @ b) \<and> map ucast b = concat (map (units h) stack)"
proof (induction "sum_list (map (weight h) stack)" arbitrary: stack out rule: less_induct)
  case less
  show ?case
  proof (cases stack)
    case Nil
    then show ?thesis by (simp add: flat8_loop.simps)
  next
    case (Cons a rest)
    then have a: "a < length h" and ok: "cell_ok h a" and nar: "narrowCell (h ! a)"
      using less.prems by (auto simp: store_ok_def)
    show ?thesis
    proof (cases "kindOf (h ! a) = Rope")
      case True
      from ok True obtain l r where lr: "left (h ! a) = Some l" "right (h ! a) = Some r" "l < a" "r < a"
        "narrow (h ! a) \<Longrightarrow> narrowCell (h ! l) \<and> narrowCell (h ! r)"
        by (rule cell_ok_rope) blast
      then have "\<exists>b. flat8_loop h (l # r # rest) out = Some (out @ b)
          \<and> map ucast b = concat (map (units h) (l # r # rest))"
        using less a Cons nar True by (intro less(1)) (auto simp: weight_rope narrowCell_def)
      with True lr a Cons show ?thesis
        by (subst flat8_loop.simps) (simp add: units_rope)
    next
      case False
      with nar have lat: "kindOf (h ! a) = Latin1" by (simp add: narrowCell_def)
      then have "units h a = map ucast (latin1 (h ! a))"
        using a by (intro units_flat) (simp_all add: flatUnits_def)
      moreover have "\<exists>b. flat8_loop h rest (out @ latin1 (h ! a)) = Some ((out @ latin1 (h ! a)) @ b)
          \<and> map ucast b = concat (map (units h) rest)"
        using less Cons weight_pos [of h a] by (intro less(1)) auto
      then obtain b where "flat8_loop h rest (out @ latin1 (h ! a)) = Some (out @ latin1 (h ! a) @ b)"
          "map ucast b = concat (map (units h) rest)" by auto
      ultimately show ?thesis using lat Cons a
        by (subst flat8_loop.simps) (auto intro!: exI [of _ "latin1 (h ! a) @ b"])
    qed
  qed
qed

lemma cell_ok_if_flat:
  assumes "a < length h" "flat (h ! a) u"
  shows "cell_ok h a"
  using assms by (auto simp: cell_ok_def flat_def flatUnits_def split: kind.splits)

text \<open>Replacing a cell by a flat cell of the same content changes no content of the store.\<close>

lemma units_replace:
  assumes "store_ok h" "a < length h" "flat n' (units h a)"
  shows "units (h[a := n']) b = units h b"
proof (induction b rule: less_induct)
  case (less b)
  show ?case
  proof (cases "b = a")
    case True
    have "units (h[a := n']) a = units h a"
      using assms by (intro units_flat) (simp_all add: flat_def)
    with True show ?thesis by simp
  next
    case False
    have "(case (left (h ! b), right (h ! b)) of
        (Some l, Some r) \<Rightarrow> if l < b \<and> r < b then units (h[a := n']) l @ units (h[a := n']) r else []
      | _ \<Rightarrow> []) = (case (left (h ! b), right (h ! b)) of
        (Some l, Some r) \<Rightarrow> if l < b \<and> r < b then units h l @ units h r else [] | _ \<Rightarrow> [])"
      using less by (auto split: option.splits)
    with False show ?thesis
      by (subst (1 2) units.simps) (simp split: kind.splits)
  qed
qed

lemma store_ok_replace:
  assumes ok: "store_ok h" and a: "a < length h" and fl: "flat n' (units h a)"
    and hash: "hashState n' AND hashComputedBit \<noteq> 0 \<Longrightarrow> ucast (hashState n') = fnv (units h a)"
    and nar: "narrowCell n' = narrowCell (h ! a)" and empty: "a = emptyAddr \<Longrightarrow> kindOf n' = Latin1"
  shows "store_ok (h[a := n'])"
proof -
  have "slen n' = slen (h ! a)" using ok a fl slen_units by (simp add: flat_def)
  then have same: "slen (h[a := n'] ! l) = slen (h ! l)"
      "narrowCell (h[a := n'] ! l) = narrowCell (h ! l)" for l
    using a nar by (cases "l = a"; simp)+
  have "cell_ok (h[a := n']) b" if b: "b < length h" for b
  proof (cases "b = a")
    case True
    with fl a show ?thesis by (intro cell_ok_if_flat) auto
  next
    case False
    have "cell_ok h b" using ok b by (simp add: store_ok_def)
    with False show ?thesis by (simp add: cell_ok_def same cong: kind.case_cong)
  qed
  moreover have "hash_ok (h[a := n']) b" if b: "b < length h" for b
  proof -
    have "hash_ok h b" using ok b by (simp add: store_ok_def)
    with b hash show ?thesis
      unfolding hash_ok_def units_replace [OF ok a fl] by (cases "b = a") auto
  qed
  moreover have "kindOf (h[a := n'] ! emptyAddr) = Latin1"
    using ok a empty by (cases "a = emptyAddr") (auto simp: store_ok_def)
  ultimately show ?thesis
    using ok by (simp add: store_ok_def units_replace [OF ok a fl])
qed

lemma flatten_total:
  assumes ok: "store_ok h" and a: "a < length h"
  obtains h' where "flatten h a = Some h'" "store_ok h'" "extends h h'" "length h' = length h"
    "flat (h' ! a) (units h a)"
proof (cases "kindOf (h ! a) = Rope")
  case False
  have "flat (h ! a) (units h a)"
    using ok a False by (intro cell_ok_flat) (auto simp: store_ok_def)
  with False ok a show ?thesis by (intro that [of h]) (simp_all add: flatten_def)
next
  case rope: True
  have h0: "a \<noteq> emptyAddr" using rope ok by (auto simp: store_ok_def)
  have hs: "hash_ok h a" using ok a by (simp add: store_ok_def)
  define n where "n = h ! a"
  obtain n' where n': "flatten h a = Some (h[a := n'])" "flat n' (units h a)"
      "hashState n' = hashState n" "narrowCell n' = narrowCell n"
  proof (cases "narrow n")
    case True
    have "\<exists>b. flat8_loop h [a] [] = Some ([] @ b) \<and> map ucast b = concat (map (units h) [a])"
      using ok a rope True by (intro flat8_loop_ok) (auto simp: narrowCell_def n_def)
    then obtain b where b: "flat8_loop h [a] [] = Some b" "map ucast b = units h a" by auto
    have "slen n = length (units h a)" using slen_units [OF ok a] by (simp add: n_def)
    with b rope True a show ?thesis
      by (intro that [of "(h ! a)\<lparr>kindOf := Latin1, latin1 := b, utf16 := [],
             left := None, right := None\<rparr>"])
        (auto simp: flatten_def flat_def flatUnits_def narrowCell_def n_def)
  next
    case False
    have "flat16_loop h [a] [] = Some (units h a)"
      using flat16_loop_ok [OF ok, of "[a]" "[]"] a by simp
    with False rope a slen_units [OF ok a] show ?thesis
      by (intro that [of "(h ! a)\<lparr>kindOf := UTF16, utf16 := units h a, latin1 := [],
             left := None, right := None\<rparr>"])
        (auto simp: flatten_def flat_def flatUnits_def narrowCell_def n_def)
  qed
  have "store_ok (h[a := n'])"
    using n' hs h0 by (intro store_ok_replace [OF ok a]) (auto simp: hash_ok_def n_def)
  moreover have "extends h (h[a := n'])"
    using units_replace [OF ok a n'(2)] by (simp add: extends_def)
  ultimately show ?thesis using n' a by (intro that [of "h[a := n']"]) simp_all
qed

lemma flatCell_total:
  assumes "store_ok h" "a < length h"
  obtains n h' where "flatCell h a = Some (n, h')" "store_ok h'" "extends h h'"
    "length h' = length h" "flat n (units h a)" "h' ! a = n"
proof -
  obtain h' where "flatten h a = Some h'" "store_ok h'" "extends h h'" "length h' = length h"
      "flat (h' ! a) (units h a)"
    using assms by (rule flatten_total)
  with assms show ?thesis by (intro that [of "h' ! a" h']) (simp_all add: flatCell_def)
qed

lemma unitAt_flat:
  "flat n u \<Longrightarrow> unitAt n i = Some (if i < 0 \<or> i \<ge> int (length u) then 0 else u ! nat i)"
  using kind_flat [of n u] by (auto simp: unitAt_def flat_def flatUnits_def deref_def)

lemma unitAt_nth: "flat n u \<Longrightarrow> j < length u \<Longrightarrow> unitAt n (int j) = Some (u ! j)"
  by (simp add: unitAt_flat)

lemma At_total:
  assumes "store_ok h" "a < length h"
  obtains h' where "At h a i = Some (if i < 0 \<or> i \<ge> int (length (units h a)) then 0
      else units h a ! nat i, h')" "store_ok h'" "extends h h'" "length h' = length h"
proof -
  obtain n h' where "flatCell h a = Some (n, h')" "store_ok h'" "extends h h'"
      "length h' = length h" "flat n (units h a)" "h' ! a = n"
    using assms by (rule flatCell_total)
  then show ?thesis by (intro that [of h']) (simp_all add: At_def unitAt_flat)
qed

section \<open>New cells\<close>

lemma units_append:
  "a < length h \<Longrightarrow> units (h @ [n]) a = units h a"
proof (induction a rule: less_induct)
  case (less a)
  have "(case (left (h ! a), right (h ! a)) of
      (Some l, Some r) \<Rightarrow> if l < a \<and> r < a then units (h @ [n]) l @ units (h @ [n]) r else []
    | _ \<Rightarrow> []) = (case (left (h ! a), right (h ! a)) of
      (Some l, Some r) \<Rightarrow> if l < a \<and> r < a then units h l @ units h r else [] | _ \<Rightarrow> [])"
    using less by (auto split: option.splits)
  with less.prems show ?case
    by (subst (1 2) units.simps) (simp add: nth_append split: kind.splits)
qed

lemma extends_append: "extends h (h @ [n])"
  by (simp add: extends_def units_append)

lemma store_ok_append:
  assumes ok: "store_ok h" and cell: "cell_ok (h @ [n]) (length h)"
    and hash: "hashState n AND hashComputedBit \<noteq> 0 \<Longrightarrow>
      ucast (hashState n) = fnv (units (h @ [n]) (length h))"
  shows "store_ok (h @ [n])"
proof -
  have "cell_ok (h @ [n]) a" if "a < length h" for a
  proof -
    have a: "cell_ok h a" using ok that by (simp add: store_ok_def)
    show ?thesis
    proof (cases "kindOf (h ! a) = Rope")
      case True
      from a True obtain l r where "left (h ! a) = Some l" "right (h ! a) = Some r" "l < a" "r < a"
        "slen (h ! a) = slen (h ! l) + slen (h ! r)"
        "narrow (h ! a) \<Longrightarrow> narrowCell (h ! l) \<and> narrowCell (h ! r)"
        by (rule cell_ok_rope) blast
      with True that show ?thesis by (simp add: cell_ok_def nth_append)
    next
      case False
      with a that show ?thesis by (auto simp: cell_ok_def nth_append split: kind.splits)
    qed
  qed
  moreover have "hash_ok (h @ [n]) a" if "a < length h" for a
    using ok that by (auto simp: store_ok_def hash_ok_def nth_append units_append)
  ultimately have "cell_ok (h @ [n]) a \<and> hash_ok (h @ [n]) a" if "a < Suc (length h)" for a
    using that cell hash by (cases "a = length h") (auto simp: hash_ok_def)
  moreover have "h \<noteq> []" using ok by (simp add: store_ok_def)
  ultimately show ?thesis
    using ok by (simp add: store_ok_def units_append nth_append emptyAddr_def)
qed

lemma newStr_flat:
  assumes ok: "store_ok h" and n: "flat n u" and hash: "hashState n = 0"
    and new: "newStr h n = (a, h')"
  shows "store_ok h' \<and> extends h h' \<and> a < length h' \<and> units h' a = u"
proof -
  have h': "h' = h @ [n]" "a = length h" using new by (auto simp: newStr_def)
  have "units (h @ [n]) (length h) = u"
    using n by (intro units_flat) (auto simp: flat_def)
  moreover have "cell_ok (h @ [n]) (length h)"
    using n by (intro cell_ok_if_flat) auto
  ultimately show ?thesis
    using h' store_ok_append [OF ok, of n] hash extends_append by simp
qed

lemma flat_mk [simp]: "flat (mkLatin1 b) (map ucast b)" "flat (mkUTF16 u) u"
  "hashState (mkLatin1 b) = 0" "hashState (mkUTF16 u) = 0"
  by (simp_all add: flat_def flatUnits_def mkLatin1_def mkUTF16_def)

end
