(* ===== verification/StrOps.thy ===== *)
theory StrOps
  imports StrRope
begin

text \<open>
  The operations of \<open>pkg/js55/str/str.go\<close> on two or more strings: equality, ordering,
  concatenation, slicing, searching, case conversion, trimming and hashing, each proved to
  compute the expected function of the code units of its arguments, for every storage form
  and for both values of the metamorphic switch \<open>force\<close>.

  Where the code calls \<open>At\<close> in a loop on strings it has just flattened, the loop here reads
  the flat cells with \<open>unitAt\<close>.  The length of a result and the end of a search window are sums and
  products of \<open>int\<close>s that may wrap: \<open>Concat\<close>, \<open>Repeat\<close>, \<open>IndexOf\<close> and \<open>StartsWith\<close> compute them with
  \<open>i64\<close>.  The other sums stay below the length of a flat string, which is in memory.
\<close>

section \<open>Comparison\<close>

definition flat2 :: "store \<Rightarrow> saddr \<Rightarrow> saddr \<Rightarrow> (strcell \<times> strcell \<times> store) option" where
  "flat2 h a b =
     do { h1 \<leftarrow> flatten h a; h2 \<leftarrow> flatten h1 b; s \<leftarrow> deref h2 a; t \<leftarrow> deref h2 b; Some (s, t, h2) }"

text \<open>The loop \<open>for ; k > 0; j++ { if s.At(off+j) != t.At(j) { return false } }\<close>.\<close>

fun matchFrom :: "strcell \<Rightarrow> strcell \<Rightarrow> nat \<Rightarrow> nat \<Rightarrow> nat \<Rightarrow> bool option" where
  "matchFrom s t off j 0 = Some True"
| "matchFrom s t off j (Suc k) =
     do { x \<leftarrow> unitAt s (int (off + j)); y \<leftarrow> unitAt t (int j);
          if x \<noteq> y then Some False else matchFrom s t off (Suc j) k }"

definition bothLatin1 :: "strcell \<Rightarrow> strcell \<Rightarrow> bool" where
  "bothLatin1 s t \<longleftrightarrow> kindOf s = Latin1 \<and> kindOf t = Latin1"

definition Equal :: "store \<Rightarrow> saddr \<Rightarrow> saddr \<Rightarrow> (bool \<times> store) option" where
  "Equal h a b =
     (if a = b then Some (True, h)
      else do { (s, t, h') \<leftarrow> flat2 h a b;
        if slen s \<noteq> slen t then Some (False, h')
        else if bothLatin1 s t then Some (latin1 s = latin1 t, h')
        else do { r \<leftarrow> matchFrom s t 0 0 (slen s); Some (r, h') } })"

definition EqualASCII :: "store \<Rightarrow> saddr \<Rightarrow> gostring \<Rightarrow> (bool \<times> store) option" where
  "EqualASCII h a lit =
     do { n0 \<leftarrow> deref h a;
          if slen n0 \<noteq> length lit then Some (False, h)
          else if \<not> list_all (\<lambda>b. uint b < 0x80) lit then Some (False, h)
          else do { (n, h') \<leftarrow> flatCell h a;
            (case kindOf n of
               Latin1 \<Rightarrow> Some (latin1 n = lit, h')
             | UTF16 \<Rightarrow> Some (utf16 n = map ucast lit, h')
             | _ \<Rightarrow> None) } }"

fun cmp_loop :: "strcell \<Rightarrow> strcell \<Rightarrow> nat \<Rightarrow> nat \<Rightarrow> int option" where
  "cmp_loop s t i 0 = Some 0"
| "cmp_loop s t i (Suc k) =
     do { x \<leftarrow> unitAt s (int i); y \<leftarrow> unitAt t (int i);
          if x \<noteq> y then Some (if x < y then -1 else 1) else cmp_loop s t (Suc i) k }"

definition Compare :: "store \<Rightarrow> saddr \<Rightarrow> saddr \<Rightarrow> (int \<times> store) option" where
  "Compare h a b =
     do { (s, t, h') \<leftarrow> flat2 h a b;
          c \<leftarrow> cmp_loop s t 0 (if slen t < slen s then slen t else slen s);
          Some (if c \<noteq> 0 then c
                else if slen s < slen t then -1 else if slen s > slen t then 1 else 0, h') }"

section \<open>Concatenation and slicing\<close>

text \<open>\<open>make\<close> panics on a negative capacity, which is what a sum of lengths that wraps is.\<close>

definition Concat :: "bool \<Rightarrow> store \<Rightarrow> saddr \<Rightarrow> saddr \<Rightarrow> (saddr \<times> store) option" where
  "Concat force h a b =
     do { s \<leftarrow> deref h a; t \<leftarrow> deref h b;
          if slen s = 0 then Some (b, h)
          else if slen t = 0 then Some (a, h)
          else let n = i64 (int (slen s) + int (slen t)) in
          if n \<ge> int ropeThreshold then
            do { ns \<leftarrow> isNarrow s; nt \<leftarrow> isNarrow t;
                 Some (newStr h \<lparr>hashState = 0, kindOf = Rope, narrow = \<not> force \<and> ns \<and> nt,
                   slen = nat n, latin1 = [], utf16 = [],
                   left = Some a, right = Some b\<rparr>) }
          else if n < 0 then None
          else if \<not> force \<and> bothLatin1 s t then Some (newStr h (mkLatin1 (latin1 s @ latin1 t)))
          else do { (us, h1) \<leftarrow> UTF16copy h a; (ut, h2) \<leftarrow> UTF16copy h1 b;
                    Some (newStr h2 (mkUTF16 (us @ ut))) } }"

definition Slice :: "bool \<Rightarrow> store \<Rightarrow> saddr \<Rightarrow> int \<Rightarrow> int \<Rightarrow> (saddr \<times> store) option" where
  "Slice force h p a0 b0 =
     do { (s, h') \<leftarrow> flatCell h p;
          let a = (if a0 < 0 then 0 else a0);
              b = (if b0 > int (slen s) then int (slen s) else b0)
          in if a \<ge> b then Some (emptyAddr, h')
             else (case kindOf s of
                 Latin1 \<Rightarrow>
                   Some (if force then FromLatin1 force h' (gosub (latin1 s) (nat a) (nat b))
                         else newStr h' (mkLatin1 (gosub (latin1 s) (nat a) (nat b))))
               | UTF16 \<Rightarrow> Some (FromUTF16 force h' (gosub (utf16 s) (nat a) (nat b)))
               | _ \<Rightarrow> None) }"

definition CharAt :: "bool \<Rightarrow> store \<Rightarrow> saddr \<Rightarrow> int \<Rightarrow> (saddr \<times> store) option" where
  "CharAt force h p i =
     do { n \<leftarrow> Len h p;
          if i < 0 \<or> i \<ge> int n then Some (emptyAddr, h) else Slice force h p i (i + 1) }"

section \<open>Searching\<close>

text \<open>The loops over candidate positions count down the \<open>k\<close> positions left to try.\<close>

fun indexBytes_loop :: "byte list \<Rightarrow> byte list \<Rightarrow> nat \<Rightarrow> nat \<Rightarrow> int" where
  "indexBytes_loop hs n i 0 = -1"
| "indexBytes_loop hs n i (Suc k) =
     (if gosub hs i (i + length n) = n then int i else indexBytes_loop hs n (Suc i) k)"

definition indexBytes :: "byte list \<Rightarrow> byte list \<Rightarrow> int" where
  "indexBytes hs n =
     (if length n > length hs then -1 else indexBytes_loop hs n 0 (Suc (length hs) - length n))"

text \<open>Loops whose index is a sum that may wrap: the index is the \<open>int\<close> of the code.\<close>

fun matchAt :: "strcell \<Rightarrow> strcell \<Rightarrow> int \<Rightarrow> nat \<Rightarrow> nat \<Rightarrow> bool option" where
  "matchAt s t i j 0 = Some True"
| "matchAt s t i j (Suc k) =
     do { x \<leftarrow> unitAt s (i64 (i + int j)); y \<leftarrow> unitAt t (int j);
          if x \<noteq> y then Some False else matchAt s t i (Suc j) k }"

fun indexUnits_loop :: "strcell \<Rightarrow> strcell \<Rightarrow> u16 \<Rightarrow> nat \<Rightarrow> int \<Rightarrow> nat \<Rightarrow> int option" where
  "indexUnits_loop s t first m i 0 = Some (-1)"
| "indexUnits_loop s t first m i (Suc k) =
     do { x \<leftarrow> unitAt s i;
          if x \<noteq> first then indexUnits_loop s t first m (i64 (i + 1)) k
          else do { r \<leftarrow> matchAt s t i 1 (m - 1);
                    if r then Some i else indexUnits_loop s t first m (i64 (i + 1)) k } }"

text \<open>
  Slicing from beyond the end panics.  The loop over units counts the rounds until \<open>i + m > n\<close>,
  which is about \<open>2 ^ 64\<close> of them when \<open>from + m\<close> wraps.
\<close>

definition IndexOf :: "store \<Rightarrow> saddr \<Rightarrow> saddr \<Rightarrow> int \<Rightarrow> (int \<times> store) option" where
  "IndexOf h a b from0 =
     do { (s, t, h') \<leftarrow> flat2 h a b;
          let n = slen s; m = slen t; frm = max 0 from0
          in if m = 0 then Some (if frm > int n then int n else frm, h')
             else if i64 (frm + int m) > int n then Some (-1, h')
             else if bothLatin1 s t then
               if frm > int n then None
               else let i = indexBytes (drop (nat frm) (latin1 s)) (latin1 t)
                    in Some (if i < 0 then -1 else frm + i, h')
             else do { first \<leftarrow> unitAt t 0;
                       r \<leftarrow> indexUnits_loop s t first m frm (Suc (nat ((int n - int m - frm) mod 2 ^ 64)));
                       Some (r, h') } }"

fun lastBytes_loop :: "byte list \<Rightarrow> byte list \<Rightarrow> nat \<Rightarrow> int" where
  "lastBytes_loop hs n 0 = -1"
| "lastBytes_loop hs n (Suc i) =
     (if gosub hs i (i + length n) = n then int i else lastBytes_loop hs n i)"

fun lastUnits_loop :: "strcell \<Rightarrow> strcell \<Rightarrow> u16 \<Rightarrow> nat \<Rightarrow> nat \<Rightarrow> int option" where
  "lastUnits_loop s t first m 0 = Some (-1)"
| "lastUnits_loop s t first m (Suc i) =
     do { x \<leftarrow> unitAt s (int i);
          if x \<noteq> first then lastUnits_loop s t first m i
          else do { r \<leftarrow> matchFrom s t i 1 (m - 1);
                    if r then Some (int i) else lastUnits_loop s t first m i } }"

definition LastIndexOf :: "store \<Rightarrow> saddr \<Rightarrow> saddr \<Rightarrow> int \<Rightarrow> (int \<times> store) option" where
  "LastIndexOf h a b from0 =
     do { (s, t, h') \<leftarrow> flat2 h a b;
          let n = slen s; m = slen t; frm = min (nat from0) n
          in if m = 0 then Some (int frm, h')
             else if n < m then Some (-1, h')
             else
               let maxStart = (if frm + m > n then n - m else frm)
               in if bothLatin1 s t then Some (lastBytes_loop (latin1 s) (latin1 t) (Suc maxStart), h')
                  else do { first \<leftarrow> unitAt t 0;
                            r \<leftarrow> lastUnits_loop s t first m (Suc maxStart);
                            Some (r, h') } }"

definition StartsWith :: "store \<Rightarrow> saddr \<Rightarrow> saddr \<Rightarrow> int \<Rightarrow> (bool \<times> store) option" where
  "StartsWith h a b pos0 =
     do { (s, t, h') \<leftarrow> flat2 h a b;
          let n = slen s; m = slen t; pos = max 0 pos0
          in if i64 (pos + int m) > int n then Some (False, h')
             else if bothLatin1 s t then
               if pos > i64 (pos + int m) then None
               else Some (gosub (latin1 s) (nat pos) (nat (pos + int m)) = latin1 t, h')
             else do { r \<leftarrow> matchAt s t pos 0 m; Some (r, h') } }"

definition EndsWith :: "store \<Rightarrow> saddr \<Rightarrow> saddr \<Rightarrow> int \<Rightarrow> (bool \<times> store) option" where
  "EndsWith h a b endPos0 =
     do { (s, t, h') \<leftarrow> flat2 h a b;
          let n = slen s; m = slen t
          in if endPos0 < 0 then Some (False, h')
             else
               let endPos = min (nat endPos0) n
               in if endPos < m then Some (False, h')
                  else if bothLatin1 s t
                  then Some (gosub (latin1 s) (endPos - m) (endPos - m + m) = latin1 t, h')
                  else do { r \<leftarrow> matchFrom s t (endPos - m) 0 m; Some (r, h') } }"

definition Includes :: "store \<Rightarrow> saddr \<Rightarrow> saddr \<Rightarrow> int \<Rightarrow> (bool \<times> store) option" where
  "Includes h a b frm = do { (r, h') \<leftarrow> IndexOf h a b frm; Some (r \<noteq> -1, h') }"

section \<open>Repetition, case, white space, hash\<close>

definition Repeat :: "bool \<Rightarrow> store \<Rightarrow> saddr \<Rightarrow> int \<Rightarrow> (saddr \<times> store) option" where
  "Repeat force h p count =
     do { n0 \<leftarrow> deref h p;
          if count \<le> 0 \<or> slen n0 = 0 then Some (emptyAddr, h)
          else if count = 1 then Some (p, h)
          else do { (s, h') \<leftarrow> flatCell h p;
            let n = i64 (int (slen s) * count) in
            if n < 0 then None
            else (case kindOf s of
               Latin1 \<Rightarrow>
                 Some (newStr h' ((if force
                   then mkUTF16 (concat (replicate (nat count) (map ucast (latin1 s))))
                   else mkLatin1 (concat (replicate (nat count) (latin1 s))))\<lparr>slen := nat n\<rparr>))
             | UTF16 \<Rightarrow> Some (newStr h' ((mkUTF16 (concat (replicate (nat count) (utf16 s))))\<lparr>slen := nat n\<rparr>))
             | _ \<Rightarrow> None) } }"

definition IsASCII :: "store \<Rightarrow> saddr \<Rightarrow> (bool \<times> store) option" where
  "IsASCII h p =
     do { (s, h') \<leftarrow> flatCell h p;
          (case kindOf s of
             Latin1 \<Rightarrow> Some (list_all (\<lambda>c. \<not> c \<ge> 0x80) (latin1 s), h')
           | UTF16 \<Rightarrow> Some (list_all (\<lambda>c. \<not> c \<ge> 0x80) (utf16 s), h')
           | _ \<Rightarrow> None) }"

definition lowerUnit :: "'a::len word \<Rightarrow> 'a word" where
  "lowerUnit c = (if c \<ge> 65 \<and> c \<le> 90 then c + 32 else c)"

definition ToLowerASCII :: "store \<Rightarrow> saddr \<Rightarrow> (saddr \<times> store) option" where
  "ToLowerASCII h p =
     do { (ascii, h1) \<leftarrow> IsASCII h p;
          if \<not> ascii then Some (p, h1)
          else do { s \<leftarrow> deref h1 p;
            (case kindOf s of
               Latin1 \<Rightarrow> Some (newStr h1 (mkLatin1 (map lowerUnit (latin1 s))))
             | UTF16 \<Rightarrow> Some (newStr h1 (mkUTF16 (map lowerUnit (utf16 s))))
             | _ \<Rightarrow> None) } }"

definition ToUpperASCII :: "store \<Rightarrow> saddr \<Rightarrow> (saddr \<times> store) option" where
  "ToUpperASCII h p =
     do { (ascii, h1) \<leftarrow> IsASCII h p;
          if \<not> ascii then Some (p, h1)
          else do { s \<leftarrow> deref h1 p;
            (case kindOf s of
               Latin1 \<Rightarrow> Some (newStr h1 (mkLatin1 (c2_ascii_upper (latin1 s) (length (latin1 s)))))
             | UTF16 \<Rightarrow>
                 let b = map ucast (utf16 s)
                 in Some (newStr h1 (mkUTF16 (map ucast (c2_ascii_upper b (length b)))))
             | _ \<Rightarrow> None) } }"

definition isECMAWhitespace :: "u16 \<Rightarrow> bool" where
  "isECMAWhitespace u \<longleftrightarrow>
     u \<in> {0x0009, 0x000A, 0x000B, 0x000C, 0x000D, 0x0020, 0x00A0, 0x1680, 0x2028, 0x2029,
          0x202F, 0x205F, 0x3000, 0xFEFF}
     \<or> (0x2000 \<le> u \<and> u \<le> 0x200A)"

fun trimStart_loop :: "strcell \<Rightarrow> nat \<Rightarrow> nat \<Rightarrow> nat option" where
  "trimStart_loop s start 0 = Some start"
| "trimStart_loop s start (Suc k) =
     do { u \<leftarrow> unitAt s (int start);
          if isECMAWhitespace u then trimStart_loop s (Suc start) k else Some start }"

fun trimEnd_loop :: "strcell \<Rightarrow> nat \<Rightarrow> nat \<Rightarrow> nat option" where
  "trimEnd_loop s fin 0 = Some fin"
| "trimEnd_loop s fin (Suc k) =
     do { u \<leftarrow> unitAt s (int fin - 1);
          if isECMAWhitespace u then trimEnd_loop s (fin - 1) k else Some fin }"

definition Trim :: "bool \<Rightarrow> store \<Rightarrow> saddr \<Rightarrow> (saddr \<times> store) option" where
  "Trim force h p =
     do { (s, h') \<leftarrow> flatCell h p;
          start \<leftarrow> trimStart_loop s 0 (slen s);
          fin \<leftarrow> trimEnd_loop s (slen s) (slen s - start);
          Slice force h' p (int start) (int fin) }"

definition TrimStart :: "bool \<Rightarrow> store \<Rightarrow> saddr \<Rightarrow> (saddr \<times> store) option" where
  "TrimStart force h p =
     do { (s, h') \<leftarrow> flatCell h p;
          start \<leftarrow> trimStart_loop s 0 (slen s);
          Slice force h' p (int start) (int (slen s)) }"

definition TrimEnd :: "bool \<Rightarrow> store \<Rightarrow> saddr \<Rightarrow> (saddr \<times> store) option" where
  "TrimEnd force h p =
     do { (s, h') \<leftarrow> flatCell h p;
          fin \<leftarrow> trimEnd_loop s (slen s) (slen s);
          Slice force h' p 0 (int fin) }"

definition hashBytes :: "byte list \<Rightarrow> u32" where
  "hashBytes bs =
     foldl (\<lambda>acc c. ((acc XOR ucast c) * 16777619 XOR 0) * 16777619) 2166136261 bs"

definition hashUnits :: "u16 list \<Rightarrow> u32" where
  "hashUnits us =
     foldl (\<lambda>acc c. ((acc XOR ucast (c AND 0xFF)) * 16777619 XOR ucast (drop_bit 8 c)) * 16777619)
       2166136261 us"

definition Hash :: "store \<Rightarrow> saddr \<Rightarrow> (u32 \<times> store) option" where
  "Hash h p =
     do { n0 \<leftarrow> deref h p;
          if hashState n0 AND hashComputedBit \<noteq> 0 then Some (ucast (hashState n0), h)
          else do { (n, h') \<leftarrow> flatCell h p;
            if hashState n AND hashComputedBit \<noteq> 0 then Some (ucast (hashState n), h')
            else do {
              v \<leftarrow> (case kindOf n of
                     Latin1 \<Rightarrow> Some (hashBytes (latin1 n))
                   | UTF16 \<Rightarrow> Some (hashUnits (utf16 n))
                   | _ \<Rightarrow> None);
              Some (v, h'[p := n\<lparr>hashState := hashComputedBit OR ucast v\<rparr>]) } } }"

section \<open>The loops on flat cells\<close>

lemma ucast_8_16_inj [simp]: "(ucast (a :: byte) :: u16) = ucast b \<longleftrightarrow> a = b"
proof
  assume eq: "(ucast a :: u16) = ucast b"
  have "unat (ucast x :: u16) = unat x" for x :: byte
    using word8_bound_nat [of x] by (simp add: unsigned_ucast_eq take_bit_nat_eq_self)
  with eq have "unat a = unat b" by metis
  then show "a = b" by (simp only: unsigned_word_eqI)
qed simp

lemma map_ucast_inj [simp]: "map ucast (a :: byte list) = (map ucast b :: u16 list) \<longleftrightarrow> a = b"
  by (rule inj_map_eq_map) (simp add: inj_def)

lemma gosub_map: "gosub (map f xs) a b = map f (gosub xs a b)"
  by (simp add: gosub_def take_map drop_map)

lemma bothLatin1_units:
  assumes "bothLatin1 s t" "flat s u" "flat t v"
  shows "u = map ucast (latin1 s)" "v = map ucast (latin1 t)"
  using assms by (auto simp: bothLatin1_def flat_def flatUnits_def)

lemma matchFrom_flat:
  assumes "flat s u" "flat t v" "off + j + k \<le> length u" "j + k \<le> length v"
  shows "matchFrom s t off j k = Some (gosub u (off + j) (off + j + k) = gosub v j (j + k))"
  using assms(3,4)
proof (induction k arbitrary: j)
  case (Suc k)
  have "gosub u (off + j) (off + j + Suc k) = u ! (off + j) # gosub u (off + Suc j) (off + Suc j + k)"
    using Suc.prems by (simp add: gosub_def Cons_nth_drop_Suc [symmetric])
  moreover have "gosub v j (j + Suc k) = v ! j # gosub v (Suc j) (Suc j + k)"
    using Suc.prems by (simp add: gosub_def Cons_nth_drop_Suc [symmetric])
  moreover have "unitAt s (int (off + j)) = Some (u ! (off + j))" "unitAt t (int j) = Some (v ! j)"
    using Suc.prems unitAt_nth [OF assms(1), of "off + j"] unitAt_nth [OF assms(2), of j] by simp_all
  moreover have "matchFrom s t off (Suc j) k
      = Some (gosub u (off + Suc j) (off + Suc j + k) = gosub v (Suc j) (Suc j + k))"
    using Suc.prems by (intro Suc.IH) simp_all
  ultimately show ?case by simp
qed simp

lemma flat2_total:
  assumes ok: "store_ok h" and a: "a < length h" and b: "b < length h"
  obtains s t h' where "flat2 h a b = Some (s, t, h')" "store_ok h'" "extends h h'"
    "length h' = length h" "flat s (units h a)" "flat t (units h b)"
proof -
  obtain h1 where h1: "flatten h a = Some h1" "store_ok h1" "extends h h1" "length h1 = length h"
      "flat (h1 ! a) (units h a)"
    using ok a by (rule flatten_total)
  obtain h2 where h2: "flatten h1 b = Some h2" "store_ok h2" "extends h1 h2" "length h2 = length h1"
      "flat (h2 ! b) (units h1 b)"
    using h1 b by (metis flatten_total)
  have ub: "units h1 b = units h b" using h1 b by (simp add: extends_def)
  have "flat (h2 ! a) (units h a)"
  proof (cases "a = b")
    case True
    with h2 ub show ?thesis by simp
  next
    case False
    then have "h2 ! a = h1 ! a"
      using h2(1) by (auto simp: flatten_def split: if_splits bind_splits)
    with h1 show ?thesis by simp
  qed
  with h1 h2 a b ub show ?thesis
    by (intro that [of "h2 ! a" "h2 ! b" h2]) (auto simp: flat2_def intro: extends_trans)
qed

lemma cmp_loop_flat:
  assumes "flat s u" "flat t v" "i + k \<le> length u" "i + k \<le> length v" "take i u = take i v"
  shows "cmp_loop s t i k = Some
    (if take (i + k) u = take (i + k) v then 0
     else if (take (i + k) u, take (i + k) v) \<in> lexord {(x, y). x < y} then -1 else 1)"
  using assms(3-5)
proof (induction k arbitrary: i)
  case (Suc k)
  have at: "unitAt s (int i) = Some (u ! i)" "unitAt t (int i) = Some (v ! i)"
    using Suc.prems unitAt_nth [OF assms(1), of i] unitAt_nth [OF assms(2), of i] by simp_all
  have split: "take (i + Suc k) w = take i w @ w ! i # take k (drop (Suc i) w)"
    if "i + Suc k \<le> length w" for w :: "u16 list"
  proof -
    have "drop i w = w ! i # drop (Suc i) w" using that by (simp add: Cons_nth_drop_Suc)
    then show ?thesis using take_add [of i "Suc k" w] by simp
  qed
  show ?case
  proof (cases "u ! i = v ! i")
    case True
    then have "take (Suc i) u = take (Suc i) v"
      using Suc.prems by (simp add: take_Suc_conv_app_nth)
    with Suc at True show ?thesis by simp
  next
    case False
    have "(take (i + Suc k) u, take (i + Suc k) v) \<in> lexord {(x, y). x < y} \<longleftrightarrow> u ! i < v ! i"
      using False Suc.prems by (simp only: split lexord_same_pref_iff) auto
    moreover have "take (i + Suc k) u \<noteq> take (i + Suc k) v"
      using False Suc.prems by (simp only: split) auto
    ultimately show ?thesis using at False by simp
  qed
qed simp

section \<open>What the operations compute\<close>

text \<open>
  An operation \<open>yields\<close> a value, or \<open>builds\<close> a string with given units, if it does not panic
  and leaves a well-formed store in which no content has changed.
\<close>

definition yields :: "('r \<times> store) option \<Rightarrow> store \<Rightarrow> 'r \<Rightarrow> bool" where
  "yields m h r \<longleftrightarrow> (\<exists>h'. m = Some (r, h') \<and> store_ok h' \<and> extends h h')"

definition builds :: "(saddr \<times> store) option \<Rightarrow> store \<Rightarrow> u16 list \<Rightarrow> bool" where
  "builds m h u \<longleftrightarrow>
     (\<exists>a h'. m = Some (a, h') \<and> store_ok h' \<and> extends h h' \<and> a < length h' \<and> units h' a = u)"

lemma yieldsI: "m = Some (r, h') \<Longrightarrow> store_ok h' \<Longrightarrow> extends h h' \<Longrightarrow> yields m h r"
  by (auto simp: yields_def)

lemma builds_old:
  "store_ok h' \<Longrightarrow> extends h h' \<Longrightarrow> a < length h' \<Longrightarrow> units h' a = u \<Longrightarrow> builds (Some (a, h')) h u"
  by (auto simp: builds_def)

lemma builds_empty: "store_ok h' \<Longrightarrow> extends h h' \<Longrightarrow> builds (Some (emptyAddr, h')) h []"
  by (rule builds_old) (auto simp: store_ok_def emptyAddr_def)

lemma builds_new:
  "store_ok h' \<Longrightarrow> extends h h' \<Longrightarrow> flat n u \<Longrightarrow> hashState n = 0 \<Longrightarrow> builds (Some (newStr h' n)) h u"
  using newStr_flat [of h' n u] extends_trans [of h h']
  unfolding builds_def by (metis surj_pair)

lemma builds_FromUTF16:
  assumes "store_ok h'" "extends h h'"
  shows "builds (Some (FromUTF16 force h' u)) h u"
proof -
  have "map ucast (map ucast u :: byte list) = u" if "c2_is_latin1_u16 u (length u) = 1"
  proof -
    have "(ucast (ucast c :: byte) :: u16) = c" if "unat c < 256" for c :: u16
    proof -
      have "unat (ucast (ucast c :: byte) :: u16) = unat c"
        using that by (simp add: unsigned_ucast_eq unsigned_take_bit_eq take_bit_nat_eq_self)
      then show ?thesis by (simp only: unsigned_word_eqI)
    qed
    then show ?thesis using that c2_is_latin1_u16_full by (auto simp: list_all_iff intro!: map_idI)
  qed
  then have "builds (Some (newStr h' (mkLatin1 (map ucast u)))) h u"
    if "c2_is_latin1_u16 u (length u) = 1"
    using that builds_new [OF assms flat_mk(1) flat_mk(3), of "map ucast u"] by simp
  then show ?thesis
    using assms builds_empty builds_new [OF assms flat_mk(2) flat_mk(4)]
    by (simp add: FromUTF16_def)
qed

lemma builds_FromLatin1:
  assumes "store_ok h'" "extends h h'"
  shows "builds (Some (FromLatin1 force h' b)) h (map ucast b)"
  using assms builds_empty builds_new [OF assms flat_mk(2) flat_mk(4)]
    builds_new [OF assms flat_mk(1) flat_mk(3)] by (simp add: FromLatin1_def)

text \<open>The order of the language's \<open><\<close> on strings: lexicographic on code units.\<close>

definition unit_order :: "u16 list \<Rightarrow> u16 list \<Rightarrow> int" where
  "unit_order u v = (if u = v then 0 else if (u, v) \<in> lexord {(x, y). x < y} then -1 else 1)"


lemma Equal_yields:
  assumes ok: "store_ok h" and ab: "a < length h" "b < length h"
  shows "yields (Equal h a b) h (units h a = units h b)"
proof (cases "a = b")
  case True
  then show ?thesis using ok by (auto simp: Equal_def intro: yieldsI)
next
  case False
  obtain s t h' where st: "flat2 h a b = Some (s, t, h')" "store_ok h'" "extends h h'"
    "length h' = length h" "flat s (units h a)" "flat t (units h b)"
    using assms by (rule flat2_total)
  have len: "slen s = length (units h a)" "slen t = length (units h b)"
    using st by (auto simp: flat_def)
  show ?thesis
  proof (cases "slen s = slen t \<and> \<not> bothLatin1 s t")
    case True
    then have "matchFrom s t 0 0 (slen s) = Some (units h a = units h b)"
      using matchFrom_flat [OF st(5,6), of 0 0 "slen s"] len gosub_full [of "units h a"]
        gosub_full [of "units h b"] by auto
    with True False st show ?thesis by (intro yieldsI [of _ _ h']) (auto simp: Equal_def)
  next
    case other: False
    show ?thesis
    proof (cases "slen s = slen t")
      case True
      with other have bl: "bothLatin1 s t" by simp
      with False True st bothLatin1_units [OF bl st(5,6)] show ?thesis
        by (intro yieldsI [of _ _ h']) (auto simp: Equal_def)
    next
      case ne: False
      with len have "units h a \<noteq> units h b" by auto
      with False ne st show ?thesis by (intro yieldsI [of _ _ h']) (auto simp: Equal_def)
    qed
  qed
qed

lemma lexord_min:
  assumes "m = min (length u) (length v)"
  shows "(u, v) \<in> lexord r \<longleftrightarrow>
    (length u < length v \<and> take (length u) v = u) \<or> (take m u, take m v) \<in> lexord r"
  unfolding lexord_take_index_conv [of u v] lexord_take_index_conv [of "take m u"]
  using assms by (auto simp: min_def take_all split: if_splits)

lemma Compare_yields:
  assumes ok: "store_ok h" and ab: "a < length h" "b < length h"
  shows "yields (Compare h a b) h (unit_order (units h a) (units h b))"
proof -
  obtain s t h' where st: "flat2 h a b = Some (s, t, h')" "store_ok h'" "extends h h'"
    "length h' = length h" "flat s (units h a)" "flat t (units h b)"
    using assms by (rule flat2_total)
  define u v where "u = units h a" and "v = units h b"
  have len: "slen s = length u" "slen t = length v" using st by (auto simp: flat_def u_def v_def)
  define m where "m = (if length v < length u then length v else length u)"
  have m: "m = min (length u) (length v)" by (simp add: m_def min_def)
  define c where "c = (if take m u = take m v then 0
      else if (take m u, take m v) \<in> lexord {(x, y). x < y} then -1 else (1 :: int))"
  have loop: "cmp_loop s t 0 m = Some c"
    using cmp_loop_flat [OF st(5,6), of 0 m] m by (simp add: c_def u_def v_def)
  have "(if c \<noteq> 0 then c else if length u < length v then -1 else if length u > length v then 1 else 0)
      = unit_order u v"
  proof (cases "take m u = take m v")
    case True
    then show ?thesis using lexord_min [OF m] m
        lexord_irreflexive [of "{(x, y). x < (y :: u16)}"]
      by (auto simp: c_def unit_order_def min_def split: if_splits)
  next
    case False
    then have "u \<noteq> v" "\<not> (length u < length v \<and> take (length u) v = u)"
      using m by (auto simp: min_def split: if_splits)
    with False show ?thesis using lexord_min [OF m, of "{(x, y). x < y}"]
      by (simp add: c_def unit_order_def)
  qed
  moreover have "Compare h a b = Some (if c \<noteq> 0 then c
      else if length u < length v then -1 else if length u > length v then 1 else 0, h')"
    by (simp only: Compare_def st(1) len m_def [symmetric] loop Option.bind.bind_lunit prod.case)
  ultimately show ?thesis
    using st by (intro yieldsI [of _ _ h']) (simp_all only: u_def v_def)
qed

lemma isNarrow_ok: "cell_ok h a \<Longrightarrow> isNarrow (h ! a) = Some (narrowCell (h ! a))"
  by (auto simp: isNarrow_def narrowCell_def cell_ok_def split: kind.splits)

lemma UTF16copy_total:
  assumes "store_ok h" "a < length h"
  obtains h' where "UTF16copy h a = Some (units h a, h')" "store_ok h'" "extends h h'"
    "length h' = length h"
proof -
  obtain n h' where "flatCell h a = Some (n, h')" "store_ok h'" "extends h h'"
      "length h' = length h" "flat n (units h a)" "h' ! a = n"
    using assms by (rule flatCell_total)
  then show ?thesis by (intro that [of h']) (auto simp: UTF16copy_def flat_def)
qed

lemma i64_sum_wraps:
  assumes "x < 2 ^ 63" "y < 2 ^ 63" "2 ^ 63 \<le> x + y"
  shows "i64 (x + y) = x + y - 2 ^ 64"
proof -
  have "x + y + 2 ^ 63 = (x + y - 2 ^ 63) + 2 ^ 64" by simp
  then have "(x + y + 2 ^ 63) mod 2 ^ 64 = (x + y - 2 ^ 63) mod 2 ^ 64" by (simp only: mod_add_self2)
  then show ?thesis using assms by (simp add: i64_def mod_pos_pos_trivial)
qed

lemma Concat_wraps:
  assumes ok: "store_ok h" and ab: "a < length h" "b < length h"
    and lens: "length (units h a) < 2 ^ 63" "length (units h b) < 2 ^ 63"
    and wraps: "\<not> length (units h a) + length (units h b) < 2 ^ 63"
  shows "Concat force h a b = None"
proof -
  have len: "slen (h ! a) = length (units h a)" "slen (h ! b) = length (units h b)"
    using slen_units ok ab by auto
  have "i64 (int (slen (h ! a)) + int (slen (h ! b))) < 0"
    using i64_sum_wraps [of "int (slen (h ! a))" "int (slen (h ! b))"] lens wraps len by simp
  moreover have "slen (h ! a) \<noteq> 0" "slen (h ! b) \<noteq> 0" using len lens wraps by auto
  ultimately show ?thesis using ab by (simp add: Concat_def Let_def deref_def)
qed

lemma Concat_builds:
  assumes ok: "store_ok h" and ab: "a < length h" "b < length h"
    and fits: "length (units h a) + length (units h b) < 2 ^ 63"
  shows "builds (Concat force h a b) h (units h a @ units h b)"
proof -
  have len: "slen (h ! a) = length (units h a)" "slen (h ! b) = length (units h b)"
    using slen_units ok ab by auto
  let ?n = "i64 (int (length (units h a)) + int (length (units h b)))"
  have "?n = int (length (units h a) + length (units h b))"
    using fits by (subst i64_id) simp_all
  then have n: "int ropeThreshold \<le> ?n \<longleftrightarrow> ropeThreshold \<le> length (units h a) + length (units h b)"
      "nat ?n = length (units h a) + length (units h b)" "\<not> ?n < 0"
    by (simp_all only: nat_int of_nat_le_iff)
  have cell: "cell_ok h a" "cell_ok h b" using ok ab by (auto simp: store_ok_def)
  consider "units h a = []" | "units h a \<noteq> []" "units h b = []"
    | (rope) "units h a \<noteq> []" "units h b \<noteq> []" "slen (h ! a) + slen (h ! b) \<ge> ropeThreshold"
    | (flat8) "units h a \<noteq> []" "units h b \<noteq> []" "slen (h ! a) + slen (h ! b) < ropeThreshold"
        "\<not> force" "bothLatin1 (h ! a) (h ! b)"
    | (flat16) "units h a \<noteq> []" "units h b \<noteq> []" "slen (h ! a) + slen (h ! b) < ropeThreshold"
        "\<not> (\<not> force \<and> bothLatin1 (h ! a) (h ! b))"
    by linarith
  then show ?thesis
  proof cases
    case rope
    define c where "c = \<lparr>hashState = 0, kindOf = Rope,
      narrow = \<not> force \<and> narrowCell (h ! a) \<and> narrowCell (h ! b),
      slen = slen (h ! a) + slen (h ! b), latin1 = [], utf16 = [], left = Some a, right = Some b\<rparr>"
    have C: "Concat force h a b = Some (length h, h @ [c])"
      using rope ab cell len by (simp add: Concat_def Let_def n isNarrow_ok c_def newStr_def)
    have nth: "(h @ [c]) ! length h = c" "(h @ [c]) ! a = h ! a" "(h @ [c]) ! b = h ! b"
      using ab by (auto simp: nth_append)
    have "units (h @ [c]) (length h) = units (h @ [c]) a @ units (h @ [c]) b"
      by (rule units_rope) (use ab in \<open>simp_all add: c_def\<close>)
    then have u: "units (h @ [c]) (length h) = units h a @ units h b"
      using ab by (simp add: units_append)
    have "cell_ok (h @ [c]) (length h)"
      unfolding cell_ok_def nth using ab nth(2,3) by (auto simp: c_def)
    then have "store_ok (h @ [c])"
      by (rule store_ok_append [OF ok]) (simp add: c_def)
    with C u show ?thesis by (simp add: builds_def extends_append)
  next
    case flat8
    have fl: "flat (h ! a) (units h a)" "flat (h ! b) (units h b)"
      using flat8 cell ab by (auto intro!: cell_ok_flat simp: bothLatin1_def)
    have "builds (Some (newStr h (mkLatin1 (latin1 (h ! a) @ latin1 (h ! b))))) h
        (map ucast (latin1 (h ! a) @ latin1 (h ! b)))"
      by (rule builds_new [OF ok extends_refl flat_mk(1) flat_mk(3)])
    moreover have "map ucast (latin1 (h ! a) @ latin1 (h ! b)) = units h a @ units h b"
      using bothLatin1_units [OF flat8(5) fl] by simp
    ultimately show ?thesis
      using flat8 ab len by (simp add: Concat_def Let_def n)
  next
    case flat16
    obtain h1 where h1: "UTF16copy h a = Some (units h a, h1)" "store_ok h1" "extends h h1"
        "length h1 = length h" using ok ab(1) by (rule UTF16copy_total)
    obtain h2 where h2: "UTF16copy h1 b = Some (units h1 b, h2)" "store_ok h2" "extends h1 h2"
        "length h2 = length h1" using h1 ab by (metis UTF16copy_total)
    have ub: "units h1 b = units h b" using h1 ab by (simp add: extends_def)
    have "builds (Some (newStr h2 (mkUTF16 (units h a @ units h b)))) h (units h a @ units h b)"
      by (rule builds_new) (use h1 h2 extends_trans in \<open>auto\<close>)
    then show ?thesis
      using flat16 h1 h2 ub ab len by (auto simp: Concat_def Let_def n)
  qed (use ok ab len in \<open>simp_all add: Concat_def builds_def\<close>)
qed


lemma Slice_builds:
  assumes ok: "store_ok h" and p: "p < length h"
  shows "builds (Slice force h p i j) h
    (gosub (units h p) (nat (max 0 i)) (nat (min j (int (length (units h p))))))"
proof -
  obtain s h' where s: "flatCell h p = Some (s, h')" "store_ok h'" "extends h h'"
      "length h' = length h" "flat s (units h p)" "h' ! p = s"
    using assms by (rule flatCell_total)
  define u where "u = units h p"
  have len: "slen s = length u" using s by (auto simp: flat_def u_def)
  define a b where "a = (if i < 0 then 0 else i)" and "b = (if j > int (slen s) then int (slen s) else j)"
  have ab: "max 0 i = a" "min j (int (length u)) = b" by (auto simp: a_def b_def len)
  have L: "builds (Some (if force then FromLatin1 force h' x else newStr h' (mkLatin1 x))) h (map ucast x)"
    for x
    using builds_FromLatin1 [OF s(2,3)] builds_new [OF s(2,3) flat_mk(1) flat_mk(3)] by simp
  have S: "Slice force h p i j =
      (if a \<ge> b then Some (emptyAddr, h')
       else (case kindOf s of
           Latin1 \<Rightarrow>
             Some (if force then FromLatin1 force h' (gosub (latin1 s) (nat a) (nat b))
                   else newStr h' (mkLatin1 (gosub (latin1 s) (nat a) (nat b))))
         | UTF16 \<Rightarrow> Some (FromUTF16 force h' (gosub (utf16 s) (nat a) (nat b)))
         | _ \<Rightarrow> None))"
    by (simp only: Slice_def s(1) Let_def a_def b_def Option.bind.bind_lunit prod.case)
  show ?thesis
  proof (cases "a \<ge> b")
    case True
    then show ?thesis using S ab s builds_empty [OF s(2,3)]
      by (simp add: gosub_def u_def [symmetric] nat_mono)
  next
    case False
    show ?thesis
    proof (cases "kindOf s")
      case Latin1
      then have u: "u = map ucast (latin1 s)" using s(5) by (simp add: flat_def flatUnits_def u_def)
      show ?thesis using S L False Latin1 ab u by (simp add: u_def [symmetric] gosub_map)
    next
      case UTF16
      then have u: "u = utf16 s" using s(5) by (simp add: flat_def flatUnits_def u_def)
      show ?thesis using S builds_FromUTF16 [OF s(2,3)] False UTF16 ab u
        by (simp add: u_def [symmetric])
    qed (use kind_flat [OF s(5)] in auto)
  qed
qed

text \<open>The first and the last position at which \<open>v\<close> occurs in \<open>u\<close>, among some positions.\<close>

definition occurs :: "u16 list \<Rightarrow> u16 list \<Rightarrow> nat \<Rightarrow> bool" where
  "occurs v u i \<longleftrightarrow> gosub u i (i + length v) = v"

definition posOf :: "nat option \<Rightarrow> int" where
  "posOf r = (case r of None \<Rightarrow> -1 | Some i \<Rightarrow> int i)"

definition first_index :: "u16 list \<Rightarrow> u16 list \<Rightarrow> nat \<Rightarrow> int" where
  "first_index u v frm =
     posOf (find (occurs v u) [min frm (length u) ..< Suc (length u) - length v])"

definition last_index :: "u16 list \<Rightarrow> u16 list \<Rightarrow> nat \<Rightarrow> int" where
  "last_index u v frm =
     posOf (find (occurs v u) (rev [0 ..< min (Suc frm) (Suc (length u) - length v)]))"

lemma occurs_head:
  assumes "flat s u" "flat t v" "v \<noteq> []" "i + length v \<le> length u"
  shows "occurs v u i \<longleftrightarrow> u ! i = v ! 0 \<and> matchFrom s t i 1 (length v - 1) = Some True"
proof -
  have A: "matchFrom s t i 1 (length v - 1)
      = Some (gosub u (i + 1) (i + length v) = gosub v 1 (length v))"
    using matchFrom_flat [OF assms(1,2), of i 1 "length v - 1"] assms(3,4)
    by (cases v) (simp_all add: add.commute)
  have B: "gosub u i (i + length v) = u ! i # gosub u (i + 1) (i + length v)"
    using assms(3,4) by (cases v) (simp_all add: gosub_def Cons_nth_drop_Suc [symmetric])
  have C: "v = v ! 0 # gosub v 1 (length v)"
    using assms(3) by (cases v) (simp_all add: gosub_def)
  have "occurs v u i \<longleftrightarrow>
      u ! i = v ! 0 \<and> gosub u (i + 1) (i + length v) = gosub v 1 (length v)"
    unfolding occurs_def list.inject [symmetric] by (rule arg_cong2 [OF B C])
  then show ?thesis by (simp only: A option.inject eq_True)
qed

lemma matchFrom_bool:
  assumes "flat s u" "flat t v" "v \<noteq> []" "i + length v \<le> length u"
  obtains r where "matchFrom s t i 1 (length v - 1) = Some r"
  using matchFrom_flat [OF assms(1,2), of i 1 "length v - 1"] assms(3,4) by (cases v) auto

lemma i64_index: "j < 2 ^ 63 \<Longrightarrow> i64 (int j) = int j"
  by (rule i64_id) simp_all

lemma matchAt_eq:
  "off + j + k \<le> 2 ^ 63 \<Longrightarrow> matchAt s t (int off) j k = matchFrom s t off j k"
proof (induction k arbitrary: j)
  case (Suc k)
  have "i64 (int off + int j) = int off + int j" using Suc.prems i64_index [of "off + j"] by simp
  moreover have "matchAt s t (int off) (Suc j) k = matchFrom s t off (Suc j) k" using Suc by simp
  ultimately show ?case by (simp cong: if_cong)
qed simp

lemma indexUnits_loop_eq:
  assumes "flat s u" "flat t v" "v \<noteq> []" "i + k + length v \<le> Suc (length u)" "length u < 2 ^ 63"
  shows "indexUnits_loop s t (v ! 0) (length v) (int i) k = Some (posOf (find (occurs v u) [i ..< i + k]))"
  using assms(4)
proof (induction k arbitrary: i)
  case (Suc k)
  have i: "i + length v \<le> length u" "i < length u" using Suc.prems assms(3) by (cases v; simp)+
  obtain r where "matchFrom s t i 1 (length v - 1) = Some r"
    using matchFrom_bool [OF assms(1-3) i(1)] by blast
  moreover have "matchAt s t (int i) 1 (length v - 1) = matchFrom s t i 1 (length v - 1)"
    by (rule matchAt_eq) (use i assms(3,5) in \<open>cases v; simp\<close>)
  moreover have "i64 (int i + 1) = int (Suc i)" using i64_index [of "Suc i"] i(2) assms(5) by (simp add: add.commute)
  moreover have "[i ..< i + Suc k] = i # [Suc i ..< Suc i + k]" by (simp add: upt_rec)
  ultimately show ?case
    using occurs_head [OF assms(1-3) i(1)] unitAt_nth [OF assms(1) i(2)] Suc.IH [of "Suc i"] Suc.prems
    by (auto simp: posOf_def)
qed (simp add: posOf_def)

lemma lastUnits_loop_eq:
  assumes "flat s u" "flat t v" "v \<noteq> []" "k + length v \<le> Suc (length u)"
  shows "lastUnits_loop s t (v ! 0) (length v) k = Some (posOf (find (occurs v u) (rev [0 ..< k])))"
  using assms(4)
proof (induction k)
  case (Suc i)
  have i: "i + length v \<le> length u" "i < length u" using Suc.prems assms(3) by (cases v; simp)+
  obtain r where "matchFrom s t i 1 (length v - 1) = Some r"
    using matchFrom_bool [OF assms(1-3) i(1)] by blast
  then show ?case
    using occurs_head [OF assms(1-3) i(1)] unitAt_nth [OF assms(1) i(2)] Suc
    by (auto simp: posOf_def)
qed (simp add: posOf_def)

lemma occurs_bytes:
  "occurs (map ucast n) (map ucast hs) i \<longleftrightarrow> gosub hs i (i + length n) = (n :: byte list)"
  by (simp add: occurs_def gosub_map)

lemma occurs_bytes_fun:
  "occurs (map ucast n) (map ucast hs) = (\<lambda>i. gosub hs i (i + length n) = (n :: byte list))"
  by (simp add: fun_eq_iff occurs_bytes)

lemma indexBytes_loop_eq:
  "indexBytes_loop hs n i k = posOf (find (\<lambda>j. gosub hs j (j + length n) = n) [i ..< i + k])"
proof (induction k arbitrary: i)
  case (Suc k)
  have "[i ..< i + Suc k] = i # [Suc i ..< Suc i + k]" by (simp add: upt_rec)
  then show ?case using Suc by (simp add: posOf_def)
qed (simp add: posOf_def)

lemma lastBytes_loop_eq:
  "lastBytes_loop hs n k = posOf (find (\<lambda>j. gosub hs j (j + length n) = n) (rev [0 ..< k]))"
  by (induction k) (simp_all add: posOf_def)


lemma IndexOf_yields:
  assumes ok: "store_ok h" and ab: "a < length h" "b < length h"
    and fits: "length (units h a) < 2 ^ 63" "length (units h b) < 2 ^ 63" "frm + int (length (units h b)) < 2 ^ 63"
  shows "yields (IndexOf h a b frm) h (first_index (units h a) (units h b) (nat frm))"
proof -
  obtain s t h' where st: "flat2 h a b = Some (s, t, h')" "store_ok h'" "extends h h'"
    "length h' = length h" "flat s (units h a)" "flat t (units h b)"
    using ok ab by (rule flat2_total)
  define u v f where "u = units h a" and "v = units h b" and "f = nat frm"
  have fl: "flat s u" "flat t v" and len: "slen s = length u" "slen t = length v"
    using st by (auto simp: flat_def u_def v_def)
  have f: "max 0 frm = int f" by (simp add: f_def)
  have I: "IndexOf h a b frm =
      (if length v = 0 then Some (if f > length u then int (length u) else int f, h')
       else if f + length v > length u then Some (-1, h')
       else if bothLatin1 s t then
         Some (if indexBytes (drop f (latin1 s)) (latin1 t) < 0 then -1
               else int f + indexBytes (drop f (latin1 s)) (latin1 t), h')
       else do { first \<leftarrow> unitAt t 0;
                 r \<leftarrow> indexUnits_loop s t first (length v) (int f) (Suc (length u) - length v - f);
                 Some (r, h') })"
  proof (cases "length v = 0 \<or> f + length v > length u")
    case True
    have "f + length v < 2 ^ 63" using fits(2,3) by (auto simp: f_def v_def)
    then have "i64 (int f + int (length v)) = int (f + length v)" using i64_index by fastforce
    then show ?thesis
      using True by (auto simp: IndexOf_def st(1) len Let_def f)
  next
    case False
    then have "f + length v < 2 ^ 63" using fits(1) by (simp add: u_def)
    then have g: "i64 (int f + int (length v)) = int (f + length v)" using i64_index [of "f + length v"] by simp
    have "(int (length u) - int (length v) - int f) mod 2 ^ 64 = int (length u - length v - f)"
      using False fits(1) by (subst mod_pos_pos_trivial) (simp_all add: u_def)
    then have k: "Suc (nat ((int (length u) - int (length v) - int f) mod 2 ^ 64)) = Suc (length u) - length v - f"
      using False by simp
    show ?thesis using False unfolding IndexOf_def st(1) len Let_def f g k Option.bind.bind_lunit prod.case by simp
  qed
  have "IndexOf h a b frm = Some (first_index u v f, h')"
  proof -
    consider (empty) "v = []" | (far) "v \<noteq> []" "f + length v > length u"
      | (bytes) "v \<noteq> []" "f + length v \<le> length u" "bothLatin1 s t"
      | (wide) "v \<noteq> []" "f + length v \<le> length u" "\<not> bothLatin1 s t" by fastforce
    then show ?thesis
    proof cases
      case empty
      have "[min f (length u) ..< Suc (length u)] = min f (length u) # [Suc (min f (length u)) ..< Suc (length u)]"
        by (simp add: upt_rec)
      with empty I show ?thesis by (simp add: first_index_def posOf_def occurs_def min_def)
    next
      case far
      then have "Suc (length u) - length v \<le> min f (length u)" by (cases v) auto
      with far I show ?thesis by (simp add: first_index_def posOf_def)
    next
      case bytes
      define hs n where "hs = latin1 s" and "n = latin1 t"
      have uv: "u = map ucast hs" "v = map ucast n"
        using bothLatin1_units [OF bytes(3) fl] by (simp_all add: hs_def n_def)
      have g: "gosub (drop f hs) j (j + length n) = gosub hs (f + j) (f + j + length n)" for j
        by (simp add: gosub_def add.commute)
      define r where "r = find (\<lambda>j. gosub hs (f + j) (f + j + length n) = n) [0 ..< Suc (length hs) - length n - f]"
      have k: "Suc (length (drop f hs)) - length n = Suc (length hs) - length n - f"
          "\<not> length n > length (drop f hs)"
        using bytes(2) uv by auto
      have "indexBytes (drop f hs) n = posOf r"
        unfolding indexBytes_def indexBytes_loop_eq k(1) g r_def using k(2) by (simp only: if_False add_0)
      moreover have "first_index u v f = posOf (map_option ((+) f) r)"
        unfolding first_index_def r_def uv
        using bytes uv find_shift [of _ f "Suc (length hs) - length n - f"]
        by (simp add: occurs_bytes)
      ultimately show ?thesis using bytes I by (cases r) (simp_all add: posOf_def hs_def n_def)
    next
      case wide
      have "min f (length u) = f" "f + (Suc (length u) - length v - f) = Suc (length u) - length v"
        using wide(2) by simp_all
      moreover have "unitAt t 0 = Some (v ! 0)"
        using unitAt_nth [OF fl(2), of 0] wide by simp
      ultimately show ?thesis using wide I indexUnits_loop_eq [OF fl wide(1), of f "Suc (length u) - length v - f"] fits(1) u_def
        by (simp add: first_index_def)
    qed
  qed
  with st show ?thesis by (intro yieldsI [of _ _ h']) (simp_all add: u_def v_def f_def)
qed


text \<open>Beyond that the guard compares a negative sum, and a byte search slices from beyond the end.\<close>

lemma IndexOf_wraps:
  assumes ok: "store_ok h" and ab: "a < length h" "b < length h"
    and kinds: "kindOf (h ! a) = Latin1" "kindOf (h ! b) = Latin1"
    and lens: "int (length (units h a)) < frm" "length (units h b) < 2 ^ 63" "units h b \<noteq> []"
    and wraps: "frm < 2 ^ 63" "2 ^ 63 \<le> frm + int (length (units h b))"
  shows "IndexOf h a b frm = None"
proof -
  have cell: "flat (h ! a) (units h a)" "flat (h ! b) (units h b)"
    using ok ab kinds by (auto intro!: cell_ok_flat simp: store_ok_def)
  have fl: "flat2 h a b = Some (h ! a, h ! b, h)"
    using ab kinds by (simp add: flat2_def flatten_def deref_def)
  have "i64 (frm + int (length (units h b))) = frm + int (length (units h b)) - 2 ^ 64"
    using wraps lens by (intro i64_sum_wraps) simp_all
  then show ?thesis
    using cell lens wraps kinds by (simp add: IndexOf_def fl flat_def bothLatin1_def Let_def)
qed

lemma LastIndexOf_yields:
  assumes ok: "store_ok h" and ab: "a < length h" "b < length h"
  shows "yields (LastIndexOf h a b frm) h (last_index (units h a) (units h b) (nat frm))"
proof -
  obtain s t h' where st: "flat2 h a b = Some (s, t, h')" "store_ok h'" "extends h h'"
    "length h' = length h" "flat s (units h a)" "flat t (units h b)"
    using assms by (rule flat2_total)
  define u v f where "u = units h a" and "v = units h b" and "f = min (nat frm) (length u)"
  have fl: "flat s u" "flat t v" and len: "slen s = length u" "slen t = length v"
    using st by (auto simp: flat_def u_def v_def)
  define top where "top = (if f + length v > length u then length u - length v else f)"
  have I: "LastIndexOf h a b frm =
      (if length v = 0 then Some (int f, h')
       else if length u < length v then Some (-1, h')
       else if bothLatin1 s t then Some (lastBytes_loop (latin1 s) (latin1 t) (Suc top), h')
       else do { first \<leftarrow> unitAt t 0; r \<leftarrow> lastUnits_loop s t first (length v) (Suc top);
                 Some (r, h') })"
    by (simp only: LastIndexOf_def st(1) len Let_def f_def top_def Option.bind.bind_lunit prod.case)
  have top: "Suc top = min (Suc (nat frm)) (Suc (length u) - length v)" if "length v \<le> length u"
    using that by (auto simp: top_def f_def min_def)
  have "LastIndexOf h a b frm = Some (last_index u v (nat frm), h')"
  proof (cases "v = []")
    case True
    have "min (Suc (nat frm)) (Suc (length u)) = Suc f" by (simp add: f_def)
    with True I show ?thesis by (simp add: last_index_def posOf_def occurs_def)
  next
    case False
    show ?thesis
    proof (cases "length u < length v")
      case True
      then have "Suc (length u) - length v = 0" by simp
      with True False I show ?thesis by (simp only: last_index_def posOf_def) simp
    next
      case le: False
      show ?thesis
      proof (cases "bothLatin1 s t")
        case True
        then show ?thesis using False le I top bothLatin1_units [OF True fl]
          by (simp add: last_index_def lastBytes_loop_eq occurs_bytes_fun)
      next
        case wide: False
        have "unitAt t 0 = Some (v ! 0)" using unitAt_nth [OF fl(2), of 0] False by simp
        moreover have "Suc top + length v \<le> Suc (length u)" using top le by simp
        ultimately show ?thesis
          using wide False le I top lastUnits_loop_eq [OF fl False, of "Suc top"]
          by (simp only: last_index_def) simp
      qed
    qed
  qed
  with st show ?thesis by (intro yieldsI [of _ _ h']) (simp_all add: u_def v_def)
qed

lemma StartsWith_yields:
  assumes ok: "store_ok h" and ab: "a < length h" "b < length h"
    and fits: "pos + int (length (units h b)) < 2 ^ 63" "length (units h b) < 2 ^ 63"
  shows "yields (StartsWith h a b pos) h
    (nat pos + length (units h b) \<le> length (units h a) \<and> occurs (units h b) (units h a) (nat pos))"
proof -
  obtain s t h' where st: "flat2 h a b = Some (s, t, h')" "store_ok h'" "extends h h'"
    "length h' = length h" "flat s (units h a)" "flat t (units h b)"
    using ok ab by (rule flat2_total)
  have len: "slen s = length (units h a)" "slen t = length (units h b)"
    using st by (auto simp: flat_def)
  have g: "i64 (max 0 pos + int (length (units h b))) = int (nat pos + length (units h b))"
    using fits by (subst i64_id) auto
  have m: "matchAt s t (max 0 pos) 0 (length (units h b)) = matchFrom s t (nat pos) 0 (length (units h b))"
    using matchAt_eq [of "nat pos" 0 "length (units h b)" s t] fits by (simp add: max_def split: if_splits)
  show ?thesis
    using st len g m matchFrom_flat [OF st(5,6), of "nat pos" 0 "length (units h b)"]
      bothLatin1_units [OF _ st(5,6)]
    by (intro yieldsI [of _ _ h'])
      (auto simp: StartsWith_def Let_def occurs_def gosub_map nat_add_distrib)
qed

lemma EndsWith_yields:
  assumes ok: "store_ok h" and ab: "a < length h" "b < length h"
  shows "yields (EndsWith h a b fin) h
    (fin \<ge> 0 \<and> length (units h b) \<le> min (nat fin) (length (units h a))
     \<and> occurs (units h b) (units h a) (min (nat fin) (length (units h a)) - length (units h b)))"
proof -
  obtain s t h' where st: "flat2 h a b = Some (s, t, h')" "store_ok h'" "extends h h'"
    "length h' = length h" "flat s (units h a)" "flat t (units h b)"
    using assms by (rule flat2_total)
  define e where "e = min (nat fin) (length (units h a))"
  have len: "slen s = length (units h a)" "slen t = length (units h b)"
    using st by (auto simp: flat_def)
  show ?thesis
    using st len matchFrom_flat [OF st(5,6), of "e - length (units h b)" 0 "length (units h b)"]
      bothLatin1_units [OF _ st(5,6)]
    unfolding e_def [symmetric]
    by (intro yieldsI [of _ _ h'])
      (auto simp: EndsWith_def Let_def occurs_def gosub_map e_def)
qed

lemma Includes_yields:
  assumes "store_ok h" "a < length h" "b < length h"
    "length (units h a) < 2 ^ 63" "length (units h b) < 2 ^ 63" "frm + int (length (units h b)) < 2 ^ 63"
  shows "yields (Includes h a b frm) h
    (\<exists>i. min (nat frm) (length (units h a)) \<le> i \<and> i + length (units h b) \<le> length (units h a)
       \<and> occurs (units h b) (units h a) i)"
proof -
  obtain h' where h': "IndexOf h a b frm = Some (first_index (units h a) (units h b) (nat frm), h')"
      "store_ok h'" "extends h h'"
    using IndexOf_yields [OF assms] by (auto simp: yields_def)
  have "first_index u v f \<noteq> -1 \<longleftrightarrow> (\<exists>i. min f (length u) \<le> i \<and> i + length v \<le> length u \<and> occurs v u i)"
    for u v f
  proof -
    have "first_index u v f \<noteq> -1 \<longleftrightarrow> find (occurs v u) [min f (length u) ..< Suc (length u) - length v] \<noteq> None"
      by (auto simp: first_index_def posOf_def split: option.splits)
    moreover have "i < Suc (length u) - length v \<longleftrightarrow> i + length v \<le> length u" for i by auto
    ultimately show ?thesis unfolding find_None_iff by auto
  qed
  with h' show ?thesis by (intro yieldsI [of _ _ h']) (simp_all add: Includes_def)
qed


lemma map_ucast_cat: "map ucast (concat (replicate n xs)) = concat (replicate n (map ucast xs))"
  by (simp add: map_concat)

lemma Repeat_builds:
  assumes ok: "store_ok h" and p: "p < length h" and fits: "int (length (units h p)) * n < 2 ^ 63"
  shows "builds (Repeat force h p n) h (concat (replicate (nat n) (units h p)))"
proof -
  obtain s h' where s: "flatCell h p = Some (s, h')" "store_ok h'" "extends h h'"
      "length h' = length h" "flat s (units h p)" "h' ! p = s"
    using ok p by (rule flatCell_total)
  have len: "slen (h ! p) = length (units h p)" using slen_units [OF ok p] .
  have cat: "concat (replicate k []) = []" for k by simp
  consider "n \<le> 0 \<or> units h p = []" | "n = 1" "units h p \<noteq> []"
    | (many) "n > 1" "units h p \<noteq> []" by linarith
  then show ?thesis
  proof cases
    case many
    have sl: "slen s = length (units h p)" using s(5) by (simp add: flat_def)
    have "0 \<le> int (slen s) * n" using many by simp
    then have pos: "(int (slen s) * n < 0) = False" by simp
    have g: "i64 (int (slen s) * n) = int (slen s) * n"
      using sl fits pos by (intro i64_id) simp_all
    have r: "nat (int (slen s) * n) = length (concat (replicate (nat n) (units h p)))"
      using many by (simp add: sl length_concat sum_list_replicate nat_mult_distrib)
    note new8 = builds_new [OF s(2,3) flat_mk(1) flat_mk(3)]
      and new16 = builds_new [OF s(2,3) flat_mk(2) flat_mk(4)]
    show ?thesis
    proof (cases "kindOf s")
      case Latin1
      then have u: "units h p = map ucast (latin1 s)" using s(5) by (simp add: flat_def flatUnits_def)
      show ?thesis
        using many s p len Latin1 new16 new8 [of "concat (replicate (nat n) (latin1 s))"] r
          r [unfolded u map_ucast_cat [symmetric] length_map]
        by (simp add: Repeat_def Let_def g pos u map_ucast_cat mkLatin1_def mkUTF16_def)
    next
      case UTF16
      then have u: "units h p = utf16 s" using s(5) by (simp add: flat_def flatUnits_def)
      show ?thesis using many s p len UTF16 new16 r by (simp add: Repeat_def Let_def g pos u mkUTF16_def)
    qed (use kind_flat [OF s(5)] in auto)
  next
    case 1
    then have "Repeat force h p n = Some (emptyAddr, h)" "concat (replicate (nat n) (units h p)) = []"
      using p len by (auto simp: Repeat_def)
    then show ?thesis using builds_empty [OF ok extends_refl] by (simp only:)
  next
    case 2
    then show ?thesis using ok p len by (simp add: Repeat_def builds_def)
  qed
qed

text \<open>\<open>asciiUnits u\<close>: every code unit is below 0x80.\<close>

definition asciiUnits :: "u16 list \<Rightarrow> bool" where
  "asciiUnits u \<longleftrightarrow> list_all (\<lambda>c. c < 0x80) u"

lemma unat_ucast_8_16 [simp]: "unat (ucast (c :: byte) :: u16) = unat c"
  using word8_bound_nat [of c] by (simp add: unsigned_ucast_eq take_bit_nat_eq_self)

lemma ucast_less_80: "(ucast (c :: byte) :: u16) < 0x80 \<longleftrightarrow> c < 0x80"
  by (simp add: word_less_nat_alt)

lemma IsASCII_total:
  assumes "store_ok h" "p < length h"
  obtains h' where "IsASCII h p = Some (asciiUnits (units h p), h')" "store_ok h'" "extends h h'"
    "length h' = length h" "flat (h' ! p) (units h p)"
proof -
  obtain s h' where s: "flatCell h p = Some (s, h')" "store_ok h'" "extends h h'"
      "length h' = length h" "flat s (units h p)" "h' ! p = s"
    using assms by (rule flatCell_total)
  have "IsASCII h p = Some (asciiUnits (units h p), h')"
  proof (cases "kindOf s")
    case Latin1
    then have "units h p = map ucast (latin1 s)" using s by (simp add: flat_def flatUnits_def)
    with Latin1 s show ?thesis
      by (simp add: IsASCII_def asciiUnits_def list.pred_map comp_def ucast_less_80 not_le)
  next
    case UTF16
    with s show ?thesis by (simp add: IsASCII_def asciiUnits_def flat_def flatUnits_def not_le)
  qed (use kind_flat [OF s(5)] in auto)
  with s show ?thesis by (intro that [of h']) auto
qed

definition upperUnit :: "'a::len word \<Rightarrow> 'a word" where
  "upperUnit c = (if c \<ge> 97 \<and> c \<le> 122 then c - 32 else c)"

lemma ucast_lowerUnit: "ucast (lowerUnit (c :: byte)) = lowerUnit (ucast c :: u16)"
  using word8_bound_nat [of c]
  by (intro word_unat_eq_iff [THEN iffD2])
    (auto simp: lowerUnit_def word_le_nat_alt unat_word_ariths)

lemma ucast_upperUnit: "ucast (upperUnit (c :: byte)) = upperUnit (ucast c :: u16)"
  using word8_bound_nat [of c]
  by (intro word_unat_eq_iff [THEN iffD2])
    (auto simp: upperUnit_def word_le_nat_alt unat_sub)

lemma ToLowerASCII_builds:
  assumes ok: "store_ok h" and p: "p < length h"
  shows "builds (ToLowerASCII h p) h
    (if asciiUnits (units h p) then map lowerUnit (units h p) else units h p)"
proof -
  obtain h' where h': "IsASCII h p = Some (asciiUnits (units h p), h')" "store_ok h'" "extends h h'"
    "length h' = length h" "flat (h' ! p) (units h p)"
    using assms by (rule IsASCII_total)
  show ?thesis
  proof (cases "asciiUnits (units h p)")
    case False
    then show ?thesis using h' p
      by (auto simp: ToLowerASCII_def extends_def builds_def)
  next
    case True
    note new8 = builds_new [OF h'(2,3) flat_mk(1) flat_mk(3)]
      and new16 = builds_new [OF h'(2,3) flat_mk(2) flat_mk(4)]
    show ?thesis
    proof (cases "kindOf (h' ! p)")
      case Latin1
      then have u: "units h p = map ucast (latin1 (h' ! p))"
        using h' by (simp add: flat_def flatUnits_def)
      then have "map lowerUnit (units h p) = map ucast (map lowerUnit (latin1 (h' ! p)))"
        by (simp add: ucast_lowerUnit)
      with True Latin1 h' p new8 [of "map lowerUnit (latin1 (h' ! p))"] show ?thesis
        by (simp add: ToLowerASCII_def)
    next
      case UTF16
      then have "units h p = utf16 (h' ! p)" using h' by (simp add: flat_def flatUnits_def)
      with True UTF16 h' p new16 show ?thesis by (simp add: ToLowerASCII_def)
    qed (use kind_flat [OF h'(5)] in auto)
  qed
qed


lemma ascii_upper_units:
  "c2_ascii_upper b (length b) = map upperUnit b"
proof -
  have "ascii_upper_byte c = upperUnit c" for c
    by (auto simp: ascii_upper_byte_def upper_range upperUnit_def bit8_def)
  then show ?thesis by (simp add: c2_ascii_upper_def)
qed

lemma ToUpperASCII_builds:
  assumes ok: "store_ok h" and p: "p < length h"
  shows "builds (ToUpperASCII h p) h
    (if asciiUnits (units h p) then map upperUnit (units h p) else units h p)"
proof -
  obtain h' where h': "IsASCII h p = Some (asciiUnits (units h p), h')" "store_ok h'" "extends h h'"
    "length h' = length h" "flat (h' ! p) (units h p)"
    using assms by (rule IsASCII_total)
  show ?thesis
  proof (cases "asciiUnits (units h p)")
    case False
    then show ?thesis using h' p
      by (auto simp: ToUpperASCII_def extends_def builds_def)
  next
    case True
    note new8 = builds_new [OF h'(2,3) flat_mk(1) flat_mk(3)]
      and new16 = builds_new [OF h'(2,3) flat_mk(2) flat_mk(4)]
    show ?thesis
    proof (cases "kindOf (h' ! p)")
      case Latin1
      then have u: "units h p = map ucast (latin1 (h' ! p))"
        using h' by (simp add: flat_def flatUnits_def)
      then have "map upperUnit (units h p) = map ucast (map upperUnit (latin1 (h' ! p)))"
        by (simp add: ucast_upperUnit)
      with True Latin1 h' p new8 [of "map upperUnit (latin1 (h' ! p))"] show ?thesis
        by (simp add: ToUpperASCII_def ascii_upper_units)
    next
      case UTF16
      then have u: "units h p = utf16 (h' ! p)" using h' by (simp add: flat_def flatUnits_def)
      have "ucast (upperUnit (ucast c :: byte)) = upperUnit c" if "c \<in> set (units h p)" for c
      proof -
        have "unat c < 128"
          using that True by (auto simp: asciiUnits_def list_all_iff word_less_nat_alt)
        then have "unat (ucast (ucast c :: byte) :: u16) = unat c"
          by (simp add: unsigned_ucast_eq unsigned_take_bit_eq take_bit_nat_eq_self)
        then have "ucast (ucast c :: byte) = c" by (simp only: word_unat_eq_iff)
        then show ?thesis by (simp only: ucast_upperUnit)
      qed
      then have "map ucast (map upperUnit (map ucast (utf16 (h' ! p)) :: byte list)) = map upperUnit (units h p)"
        by (simp add: u)
      moreover have "ToUpperASCII h p = Some (newStr h'
          (mkUTF16 (map ucast (map upperUnit (map ucast (utf16 (h' ! p)) :: byte list)))))"
        using True UTF16 h' p by (simp add: ToUpperASCII_def ascii_upper_units Let_def comp_assoc)
      ultimately show ?thesis
        using True new16 [of "map upperUnit (units h p)"] by (simp only: if_True)
    qed (use kind_flat [OF h'(5)] in auto)
  qed
qed

lemma trimStart_loop_eq:
  assumes "flat s u" "i + k \<le> length u"
  shows "trimStart_loop s i k =
    Some (i + length (takeWhile isECMAWhitespace (gosub u i (i + k))))"
  using assms(2)
proof (induction k arbitrary: i)
  case (Suc k)
  have "gosub u i (i + Suc k) = u ! i # gosub u (Suc i) (Suc i + k)"
    using Suc.prems by (simp add: gosub_def Cons_nth_drop_Suc [symmetric])
  moreover have "unitAt s (int i) = Some (u ! i)"
    using Suc.prems unitAt_nth [OF assms(1), of i] by simp
  ultimately show ?case using Suc by simp
qed simp

lemma trimEnd_loop_eq:
  assumes "flat s u" "k \<le> e" "e \<le> length u"
  shows "trimEnd_loop s e k =
    Some (e - length (takeWhile isECMAWhitespace (rev (gosub u (e - k) e))))"
  using assms(2,3)
proof (induction k arbitrary: e)
  case (Suc k)
  obtain e' where e: "e = Suc e'" using Suc.prems by (cases e) auto
  have "gosub u (e - Suc k) e = gosub u (e' - k) e' @ [u ! e']"
    using Suc.prems gosub_append [of "e' - k" e' e u] e
    by (simp add: gosub_def take_Suc_conv_app_nth)
  moreover have "unitAt s (int e - 1) = Some (u ! e')"
    using Suc.prems e unitAt_nth [OF assms(1), of e'] by simp
  ultimately show ?case using Suc e by simp
qed simp


definition trimBoth :: "u16 list \<Rightarrow> u16 list" where
  "trimBoth u = rev (dropWhile isECMAWhitespace (rev (dropWhile isECMAWhitespace u)))"

lemma rev_dropWhile_rev:
  "rev (dropWhile P (rev xs)) = take (length xs - length (takeWhile P (rev xs))) xs"
  by (simp add: dropWhile_eq_drop drop_rev)

lemma trim_bounds:
  fixes u :: "u16 list"
  defines "i \<equiv> length (takeWhile isECMAWhitespace u)"
  defines "e \<equiv> length u - length (takeWhile isECMAWhitespace (rev (gosub u i (length u))))"
  shows "i \<le> length u" "e \<le> length u" "gosub u i e = trimBoth u"
proof -
  show i: "i \<le> length u" unfolding i_def by (rule length_takeWhile_le)
  show "e \<le> length u" by (simp add: e_def)
  have d: "gosub u i (length u) = dropWhile isECMAWhitespace u"
    using i by (simp add: gosub_def i_def dropWhile_eq_drop)
  show "gosub u i e = trimBoth u"
    unfolding trimBoth_def d [symmetric] rev_dropWhile_rev
    using i by (simp add: gosub_def e_def add.commute)
qed

lemma Trim_builds:
  assumes ok: "store_ok h" and p: "p < length h"
  shows "builds (Trim force h p) h (trimBoth (units h p))"
proof -
  obtain s h' where s: "flatCell h p = Some (s, h')" "store_ok h'" "extends h h'"
      "length h' = length h" "flat s (units h p)" "h' ! p = s"
    using assms by (rule flatCell_total)
  define u where "u = units h p"
  define i e where "i = length (takeWhile isECMAWhitespace u)"
    and "e = length u - length (takeWhile isECMAWhitespace (rev (gosub u i (length u))))"
  have b: "i \<le> length u" "e \<le> length u" "gosub u i e = trimBoth u"
    unfolding i_def e_def by (rule trim_bounds)+
  have fl: "flat s u" and len: "slen s = length u" using s by (auto simp: flat_def u_def)
  have "trimStart_loop s 0 (slen s) = Some i"
    using trimStart_loop_eq [OF fl, of 0 "length u"] by (simp add: len i_def)
  moreover have "trimEnd_loop s (slen s) (slen s - i) = Some e"
    using trimEnd_loop_eq [OF fl, of "length u - i" "length u"] b by (simp add: len e_def)
  ultimately have "Trim force h p = Slice force h' p (int i) (int e)"
    using s by (simp add: Trim_def)
  moreover have "units h' p = u" using s p by (simp add: extends_def u_def)
  moreover have "builds (Slice force h' p (int i) (int e)) h' (trimBoth u)"
    using Slice_builds [OF s(2), of p force "int i" "int e"] s p b calculation(2) by simp
  ultimately show ?thesis
    using s extends_trans [of h h'] unfolding builds_def u_def by metis
qed

lemma TrimStart_builds:
  assumes ok: "store_ok h" and p: "p < length h"
  shows "builds (TrimStart force h p) h (dropWhile isECMAWhitespace (units h p))"
proof -
  obtain s h' where s: "flatCell h p = Some (s, h')" "store_ok h'" "extends h h'"
      "length h' = length h" "flat s (units h p)" "h' ! p = s"
    using assms by (rule flatCell_total)
  define u where "u = units h p"
  define i where "i = length (takeWhile isECMAWhitespace u)"
  have b: "i \<le> length u" unfolding i_def by (rule length_takeWhile_le)
  have fl: "flat s u" and len: "slen s = length u" using s by (auto simp: flat_def u_def)
  have "trimStart_loop s 0 (slen s) = Some i"
    using trimStart_loop_eq [OF fl, of 0 "length u"] by (simp add: len i_def)
  then have T: "TrimStart force h p = Slice force h' p (int i) (int (length u))"
    using s by (simp add: TrimStart_def len)
  have u: "units h' p = u" using s p by (simp add: extends_def u_def)
  have "gosub u i (length u) = dropWhile isECMAWhitespace u"
    using b by (simp add: gosub_def i_def dropWhile_eq_drop)
  then have "builds (Slice force h' p (int i) (int (length u))) h' (dropWhile isECMAWhitespace u)"
    using Slice_builds [OF s(2), of p force "int i" "int (length u)"] s p u by simp
  then show ?thesis
    using T s extends_trans [of h h'] unfolding builds_def u_def by metis
qed

lemma TrimEnd_builds:
  assumes ok: "store_ok h" and p: "p < length h"
  shows "builds (TrimEnd force h p) h (rev (dropWhile isECMAWhitespace (rev (units h p))))"
proof -
  obtain s h' where s: "flatCell h p = Some (s, h')" "store_ok h'" "extends h h'"
      "length h' = length h" "flat s (units h p)" "h' ! p = s"
    using assms by (rule flatCell_total)
  define u where "u = units h p"
  define e where "e = length u - length (takeWhile isECMAWhitespace (rev u))"
  have fl: "flat s u" and len: "slen s = length u" using s by (auto simp: flat_def u_def)
  have "trimEnd_loop s (slen s) (slen s) = Some e"
    using trimEnd_loop_eq [OF fl, of "length u" "length u"] by (simp add: len e_def)
  then have T: "TrimEnd force h p = Slice force h' p 0 (int e)"
    using s by (simp add: TrimEnd_def)
  have u: "units h' p = u" using s p by (simp add: extends_def u_def)
  have "e \<le> length u" by (simp add: e_def)
  then have "builds (Slice force h' p 0 (int e)) h' (rev (dropWhile isECMAWhitespace (rev u)))"
    using Slice_builds [OF s(2), of p force 0 "int e"] s p u
    by (simp add: rev_dropWhile_rev e_def gosub_def)
  then show ?thesis
    using T s extends_trans [of h h'] unfolding builds_def u_def by metis
qed


lemma hash_step_byte:
  "((acc XOR ucast c) * 16777619 XOR 0) * 16777619 = fnv_step acc (ucast (c :: byte))"
proof -
  have ff: "(0xFF :: u16) = mask 8" by (simp add: mask_eq_exp_minus_1)
  have "(ucast ((ucast c :: u16) AND 0xFF) :: u32) = ucast c"
    unfolding ff by (rule bit_word_eqI) (auto simp: bit_simps dest: bit_imp_le_length)
  moreover have "(ucast (drop_bit 8 (ucast c :: u16)) :: u32) = 0"
    by (rule bit_word_eqI) (auto simp: bit_simps dest: bit_imp_le_length)
  ultimately show ?thesis by (simp add: fnv_step_def)
qed

lemma hashBytes_fnv: "hashBytes bs = fnv (map ucast bs)"
  unfolding hashBytes_def fnv_def foldl_map by (simp only: hash_step_byte)

lemma hashUnits_fnv: "hashUnits us = fnv us"
  unfolding hashUnits_def fnv_def by (simp only: fnv_step_def [abs_def])

lemma bit_hashComputedBit: "bit hashComputedBit n \<longleftrightarrow> n = 32"
  unfolding hashComputedBit_def bit_push_bit_iff by (auto simp: bit_1_iff)

lemma hashState_set:
  "(hashComputedBit OR ucast (v :: u32)) AND hashComputedBit \<noteq> (0 :: u64)"
  "ucast (hashComputedBit OR ucast v :: u64) = v"
proof -
  have "bit ((hashComputedBit OR ucast v) AND hashComputedBit) 32"
    by (simp add: bit_hashComputedBit bit_simps)
  then show "(hashComputedBit OR ucast (v :: u32)) AND hashComputedBit \<noteq> (0 :: u64)" by force
  show "ucast (hashComputedBit OR ucast v :: u64) = v"
    by (rule bit_word_eqI) (auto simp: bit_hashComputedBit bit_simps dest: bit_imp_le_length)
qed

text \<open>Writing the hash into a flat cell keeps the store well formed.\<close>

lemma Hash_yields:
  assumes ok: "store_ok h" and p: "p < length h"
  obtains h' where "Hash h p = Some (fnv (units h p), h')" "store_ok h'" "extends h h'"
    "length h' = length h"
proof (cases "hashState (h ! p) AND hashComputedBit \<noteq> 0")
  case True
  then show ?thesis
    using ok p by (intro that [of h]) (auto simp: Hash_def store_ok_def hash_ok_def)
next
  case False
  obtain n h' where n: "flatCell h p = Some (n, h')" "store_ok h'" "extends h h'"
      "length h' = length h" "flat n (units h p)" "h' ! p = n"
    using assms by (rule flatCell_total)
  have u: "units h' p = units h p" using n p by (simp add: extends_def)
  show ?thesis
  proof (cases "hashState n AND hashComputedBit \<noteq> 0")
    case True
    then have "ucast (hashState n) = fnv (units h p)"
      using n p u by (auto simp: store_ok_def hash_ok_def)
    with True False n p show ?thesis by (intro that [of h']) (simp_all add: Hash_def)
  next
    case unset: False
    define n' where "n' = n\<lparr>hashState := hashComputedBit OR ucast (fnv (units h p))\<rparr>"
    have fl: "flat n' (units h' p)"
      using n u by (cases "kindOf n") (simp_all add: n'_def flat_def flatUnits_def)
    have p': "p < length h'" using n p by simp
    have "(case kindOf n of Latin1 \<Rightarrow> Some (hashBytes (latin1 n)) | UTF16 \<Rightarrow> Some (hashUnits (utf16 n))
        | _ \<Rightarrow> None) = Some (fnv (units h p))"
      using kind_flat [OF n(5)] n(5)
      by (auto simp: flat_def flatUnits_def hashBytes_fnv hashUnits_fnv)
    then have H: "Hash h p = Some (fnv (units h p), h'[p := n'])"
      using False unset n p by (simp add: Hash_def n'_def)
    have "narrowCell n' = narrowCell (h' ! p)" using n by (simp add: n'_def narrowCell_def)
    moreover have "p = emptyAddr \<Longrightarrow> kindOf n' = Latin1"
      using n by (auto simp: store_ok_def n'_def)
    ultimately have "store_ok (h'[p := n'])"
      using hashState_set(2) u by (intro store_ok_replace [OF n(2) p' fl]) (simp_all add: n'_def)
    moreover have "extends h (h'[p := n'])"
      using n(3,4) units_replace [OF n(2) p' fl] by (simp add: extends_def)
    ultimately show ?thesis using H n(4) by (intro that [of "h'[p := n']"]) simp_all
  qed
qed

section \<open>Code points\<close>

lemma decode_encode16:
  assumes "0xFFFF < cp" "cp \<le> 0x10FFFF"
  defines "hi \<equiv> word_of_int (fst (encodeRune16 cp)) :: u16"
    and "lo \<equiv> word_of_int (snd (encodeRune16 cp)) :: u16"
  shows "0xD800 \<le> uint hi" "uint hi \<le> 0xDBFF" "0xDC00 \<le> uint lo" "uint lo \<le> 0xDFFF"
    "decodeRune16 (uint hi) (uint lo) = cp"
proof -
  define q where "q = cp - 0x10000"
  have q: "0 \<le> q" "q < 1024 * 1024" using assms by (simp_all add: q_def)
  have "q div 1024 < 1024" using q by (simp add: div_less_iff_less_mult)
  then have m: "(q div 1024) mod 1024 = q div 1024" using q by (simp add: pos_imp_zdiv_nonneg_iff)
  have "uint (word_of_int (0xD800 + q div 1024) :: u16) = 0xD800 + q div 1024"
    using q \<open>q div 1024 < 1024\<close>
    by (intro uint16_of_int) (simp_all add: pos_imp_zdiv_nonneg_iff)
  then have hi: "uint hi = 0xD800 + q div 1024"
    using assms m by (simp add: hi_def encodeRune16_def q_def)
  have "q mod 1024 < 1024" "0 \<le> q mod 1024" by simp_all
  then have "uint (word_of_int (0xDC00 + q mod 1024) :: u16) = 0xDC00 + q mod 1024"
    by (intro uint16_of_int) simp_all
  then have lo: "uint lo = 0xDC00 + q mod 1024"
    using assms by (simp add: lo_def encodeRune16_def q_def)
  show "0xD800 \<le> uint hi" "uint hi \<le> 0xDBFF" "0xDC00 \<le> uint lo" "uint lo \<le> 0xDFFF"
    using hi lo q \<open>q div 1024 < 1024\<close> \<open>q mod 1024 < 1024\<close>
    by (simp_all add: pos_imp_zdiv_nonneg_iff)
  then show "decodeRune16 (uint hi) (uint lo) = cp"
    using hi lo div_mult_mod_eq [of q 1024] by (simp add: decodeRune16_def q_def)
qed

text \<open>What \<open>CodePointAt\<close> reads at the first unit of a string.\<close>

lemma CodePointAt_first:
  assumes ok: "store_ok h" and a: "a < length h" and u: "units h a = x # r"
  shows "yields (CodePointAt h a 0) h
    (if uint x < 0xD800 \<or> uint x > 0xDBFF \<or> r = [] \<or> uint (hd r) < 0xDC00 \<or> uint (hd r) > 0xDFFF
     then (uint x, 1) else (decodeRune16 (uint x) (uint (hd r)), 2))"
proof -
  have len: "Len h a = Some (length (x # r))"
    using slen_units [OF ok a] a u by (simp add: Len_def)
  obtain h1 where h1: "At h a 0 = Some (x, h1)" "store_ok h1" "extends h h1" "length h1 = length h"
    using At_total [OF ok a, of 0] u by auto
  have u1: "units h1 a = x # r" "a < length h1" using h1 a u by (auto simp: extends_def)
  show ?thesis
  proof (cases "uint x < 0xD800 \<or> uint x > 0xDBFF \<or> r = []")
    case True
    then have "CodePointAt h a 0 = Some ((uint x, 1), h1)"
      using len h1 by (auto simp: CodePointAt_def)
    with True h1 show ?thesis by (intro yieldsI [of _ _ h1]) auto
  next
    case False
    then obtain y r' where r: "r = y # r'" by (cases r) auto
    obtain h2 where h2: "At h1 a (0 + 1) = Some (y, h2)" "store_ok h2" "extends h1 h2"
      using At_total [OF h1(2) u1(2), of 1] u1 r by auto
    have "CodePointAt h a 0 = Some (if uint y < 0xDC00 \<or> uint y > 0xDFFF then (uint x, 1)
        else (decodeRune16 (uint x) (uint y), 2), h2)"
      using len h1(1) h2(1) False r by (auto simp: CodePointAt_def)
    with False r h1 h2 show ?thesis
      by (intro yieldsI [of _ _ h2]) (auto intro: extends_trans)
  qed
qed

lemma FromCodePoint_builds:
  assumes ok: "store_ok h" and cp: "0 \<le> cp" "cp \<le> 0x10FFFF"
  shows "builds (FromCodePoint force h cp) h
    (if cp \<le> 0xFFFF then [word_of_int cp]
     else [word_of_int (fst (encodeRune16 cp)), word_of_int (snd (encodeRune16 cp))])"
proof -
  have "(ucast (word_of_int cp :: byte) :: u16) = word_of_int cp" if "cp \<le> 0xFF"
    by (rule word_uint_eqI) (use cp that in \<open>simp add: unsigned_ucast_eq unsigned_of_int take_bit_int_eq_self\<close>)
  then show ?thesis
    using cp builds_FromLatin1 [OF ok extends_refl, of force "[word_of_int cp]"]
      builds_FromUTF16 [OF ok extends_refl, of force] by (auto simp: FromCodePoint_def)
qed


section \<open>Properties\<close>

text \<open>A store for the concrete instances: both flat forms and a rope over them.\<close>

definition demoStore :: store where
  "demoStore = [mkLatin1 [], mkLatin1 [97, 98], mkUTF16 [97, 98], mkUTF16 [0x20AC, 97],
     \<lparr>hashState = 0, kindOf = Rope, narrow = False, slen = 4, latin1 = [], utf16 = [],
      left = Some 1, right = Some 3\<rparr>]"

lemma less_5_cases: "(\<forall>a < (5 :: nat). P a) \<longleftrightarrow> P 0 \<and> P 1 \<and> P 2 \<and> P 3 \<and> P 4"
  by (simp add: eval_nat_numeral All_less_Suc) blast

lemma demoStore_nth:
  "demoStore ! 0 = mkLatin1 []" "demoStore ! 1 = mkLatin1 [97, 98]" "demoStore ! 2 = mkUTF16 [97, 98]"
  "demoStore ! 3 = mkUTF16 [0x20AC, 97]"
  "demoStore ! 4 = \<lparr>hashState = 0, kindOf = Rope, narrow = False, slen = 4, latin1 = [], utf16 = [],
      left = Some 1, right = Some 3\<rparr>" "length demoStore = 5"
  by (simp_all add: demoStore_def)

lemma demoStore_units:
  "units demoStore 0 = []" "units demoStore 1 = [97, 98]" "units demoStore 2 = [97, 98]"
  "units demoStore 3 = [0x20AC, 97]" "units demoStore 4 = [97, 98, 0x20AC, 97]"
proof -
  show u: "units demoStore 0 = []" "units demoStore 1 = [97, 98]" "units demoStore 2 = [97, 98]"
      "units demoStore 3 = [0x20AC, 97]"
    by (rule units_flat; simp only: demoStore_nth; simp add: flatUnits_def mkLatin1_def mkUTF16_def)+
  have "units demoStore 4 = units demoStore 1 @ units demoStore 3"
    by (rule units_rope) (simp_all only: demoStore_nth, simp_all)
  with u show "units demoStore 4 = [97, 98, 0x20AC, 97]" by simp
qed

lemma demoStore_ok: "store_ok demoStore"
proof -
  have "cell_ok demoStore a \<and> hash_ok demoStore a" if "a < 5" for a
  proof -
    have "\<forall>a<5. cell_ok demoStore a \<and> hash_ok demoStore a"
      unfolding less_5_cases cell_ok_def hash_ok_def demoStore_nth
      by (auto simp: mkLatin1_def mkUTF16_def demoStore_nth demoStore_nth [simplified])
    with that show ?thesis by blast
  qed
  then show ?thesis
    by (auto simp: store_ok_def emptyAddr_def demoStore_nth demoStore_units mkLatin1_def)
      (simp add: demoStore_def)
qed

text \<open>
  C9. Flattening never panics and never loops, whatever the sharing between ropes; it leaves
  the string in a flat form, keeps the store well formed and changes the content of no string.
\<close>

theorem flatten_content:
  assumes "store_ok h" "a < length h"
  shows "\<exists>h'. flatten h a = Some h' \<and> store_ok h' \<and> length h' = length h \<and>
    kindOf (h' ! a) \<in> {Latin1, UTF16} \<and> (\<forall>b < length h. units h' b = units h b)"
proof -
  obtain h' where h': "flatten h a = Some h'" "store_ok h'" "extends h h'" "length h' = length h"
      "flat (h' ! a) (units h a)"
    using assms by (rule flatten_total)
  with kind_flat [of "h' ! a" "units h a"] show ?thesis by (auto simp: extends_def)
qed

theorem flatten_content_witness:
  "\<exists>h'. flatten demoStore 4 = Some h' \<and> store_ok h' \<and> length h' = length demoStore \<and>
    kindOf (h' ! 4) \<in> {Latin1, UTF16} \<and> (\<forall>b < length demoStore. units h' b = units demoStore b)"
  using demoStore_ok by (rule flatten_content) (simp add: demoStore_nth)

text \<open>C10. \<open>Equal\<close> decides equality of content, across storage forms.\<close>

theorem Equal_correct:
  assumes "store_ok h" "a < length h" "b < length h"
  shows "yields (Equal h a b) h (units h a = units h b)"
  using assms by (rule Equal_yields)

theorem Equal_correct_witness: "yields (Equal demoStore 1 2) demoStore True"
  using Equal_correct [OF demoStore_ok, of 1 2] by (simp only: demoStore_nth demoStore_units) simp

text \<open>
  C11. \<open>Compare\<close> is the three-way lexicographic order of the code units, so it returns 0
  exactly for equal strings and swaps its sign when its arguments are swapped.
\<close>

theorem Compare_correct:
  assumes "store_ok h" "a < length h" "b < length h"
  shows "yields (Compare h a b) h (unit_order (units h a) (units h b))
    \<and> yields (Compare h b a) h (- unit_order (units h a) (units h b))"
proof -
  have "unit_order v u = - unit_order u v" for u v
  proof -
    have "total {(x, y). x < (y :: u16)}" by (auto simp: total_on_def)
    then have "total (lexord {(x, y). x < (y :: u16)})" by (rule total_lexord)
    moreover have "asym (lexord {(x, y). x < (y :: u16)})"
      by (rule lexord_asym) (auto intro!: asymI)
    ultimately show ?thesis
      by (auto simp: unit_order_def total_on_def dest: asymD)
  qed
  then show ?thesis using Compare_yields assms by metis
qed

theorem Compare_correct_witness:
  "yields (Compare demoStore 1 3) demoStore (-1) \<and> yields (Compare demoStore 3 1) demoStore 1"
proof -
  have "unit_order (units demoStore 1) (units demoStore 3) = -1"
    by (simp only: demoStore_units) (simp add: unit_order_def)
  with Compare_correct [OF demoStore_ok, of 1 3] show ?thesis by (simp add: demoStore_nth)
qed

text \<open>
  C12. On strings whose lengths are \<open>int\<close>s, \<open>Concat\<close> builds the string of the concatenated units, by a
  deferred or an immediate concatenation, with either value of the metamorphic switch, when the sum
  of the lengths is an \<open>int\<close>; when the sum wraps it panics.
\<close>

theorem Concat_correct:
  assumes "store_ok h" "a < length h" "b < length h"
    "length (units h a) < 2 ^ 63" "length (units h b) < 2 ^ 63"
  shows "if length (units h a) + length (units h b) < 2 ^ 63
    then builds (Concat force h a b) h (units h a @ units h b)
    else Concat force h a b = None"
  using assms Concat_builds Concat_wraps by simp

theorem Concat_correct_witness:
  "builds (Concat False demoStore 1 4) demoStore [97, 98, 97, 98, 0x20AC, 97]"
  using Concat_correct [OF demoStore_ok, of 1 4 False] by (simp only: demoStore_nth demoStore_units) simp

text \<open>C13. \<open>Slice\<close> clips its bounds to the string and never panics.\<close>

theorem Slice_correct:
  assumes "store_ok h" "p < length h"
  shows "builds (Slice force h p i j) h
    (gosub (units h p) (nat (max 0 i)) (nat (min j (int (length (units h p))))))"
  using assms by (rule Slice_builds)

theorem Slice_correct_witness: "builds (Slice True demoStore 4 (-3) 3) demoStore [97, 98, 0x20AC]"
  using Slice_correct [OF demoStore_ok, of 4 True "-3" 3]
  by (simp only: demoStore_nth demoStore_units) (simp add: gosub_def)

text \<open>
  C14. As long as \<open>from\<close> plus the length of the needle is an \<open>int\<close>, \<open>IndexOf\<close> returns the first
  position at or after \<open>from\<close> (clipped to the string) where the needle occurs, and -1 if there is
  none; byte search and unit search agree.
\<close>

theorem IndexOf_correct:
  assumes "store_ok h" "a < length h" "b < length h"
    "length (units h a) < 2 ^ 63" "length (units h b) < 2 ^ 63" "frm + int (length (units h b)) < 2 ^ 63"
  shows "yields (IndexOf h a b frm) h (first_index (units h a) (units h b) (nat frm))"
  using assms by (rule IndexOf_yields)

theorem IndexOf_correct_witness: "yields (IndexOf demoStore 4 3 (-7)) demoStore 2"
proof -
  have "first_index (units demoStore 4) (units demoStore 3) (nat (-7)) = 2"
    by (simp only: demoStore_units first_index_def) (simp add: posOf_def occurs_def gosub_def upt_rec)
  with IndexOf_correct [OF demoStore_ok, of 4 3 "-7"] show ?thesis
    by (simp add: demoStore_nth demoStore_units)
qed

text \<open>\<open>LastIndexOf\<close> returns the last position at or before \<open>from\<close> where the needle occurs.\<close>

theorem LastIndexOf_correct:
  assumes "store_ok h" "a < length h" "b < length h"
  shows "yields (LastIndexOf h a b frm) h (last_index (units h a) (units h b) (nat frm))"
  using assms by (rule LastIndexOf_yields)

theorem LastIndexOf_correct_witness: "yields (LastIndexOf demoStore 4 1 9) demoStore 0"
proof -
  have "last_index (units demoStore 4) (units demoStore 1) (nat 9) = 0"
    by (simp only: demoStore_units last_index_def) (simp add: posOf_def occurs_def gosub_def upt_rec)
  with LastIndexOf_correct [OF demoStore_ok, of 4 1 9] show ?thesis by (simp add: demoStore_nth)
qed

text \<open>
  C15. The hash is a function of the content: two strings with the same units have the same
  hash, whatever their forms and whether or not the hash of one was cached before, and caching
  it leaves the store well formed.
\<close>

theorem Hash_correct:
  assumes "store_ok h" "a < length h" "b < length h" "units h a = units h b"
  shows "\<exists>h1 h2. Hash h a = Some (fnv (units h a), h1) \<and> Hash h1 b = Some (fnv (units h a), h2)
    \<and> store_ok h2 \<and> extends h h2"
proof -
  obtain h1 where h1: "Hash h a = Some (fnv (units h a), h1)" "store_ok h1" "extends h h1"
      "length h1 = length h"
    using assms(1,2) by (rule Hash_yields)
  have b: "b < length h1" "units h1 b = units h a" using h1 assms by (auto simp: extends_def)
  obtain h2 where "Hash h1 b = Some (fnv (units h1 b), h2)" "store_ok h2" "extends h1 h2"
      "length h2 = length h1"
    using h1(2) b(1) by (rule Hash_yields)
  with h1 b show ?thesis by (auto intro: extends_trans)
qed

theorem Hash_correct_witness:
  "\<exists>h1 h2. Hash demoStore 1 = Some (fnv (units demoStore 1), h1)
    \<and> Hash h1 2 = Some (fnv (units demoStore 1), h2) \<and> store_ok h2 \<and> extends demoStore h2"
  using Hash_correct [OF demoStore_ok, of 1 2] by (simp add: demoStore_nth demoStore_units [simplified] demoStore_units)

text \<open>
  Upper-casing through the byte kernel maps every unit of an ASCII string and leaves a
  string with any other unit as it is.
\<close>

theorem ToUpperASCII_correct:
  assumes "store_ok h" "p < length h"
  shows "builds (ToUpperASCII h p) h
    (if asciiUnits (units h p) then map upperUnit (units h p) else units h p)"
  using assms by (rule ToUpperASCII_builds)

theorem ToUpperASCII_correct_witness: "builds (ToUpperASCII demoStore 2) demoStore [65, 66]"
  using ToUpperASCII_correct [OF demoStore_ok, of 2]
  by (simp only: demoStore_nth demoStore_units) (simp add: asciiUnits_def upperUnit_def)

text \<open>\<open>Trim\<close> removes exactly the leading and the trailing white space of the language.\<close>

theorem Trim_correct:
  assumes "store_ok h" "p < length h"
  shows "builds (Trim force h p) h (trimBoth (units h p))"
  using assms by (rule Trim_builds)

theorem Trim_correct_witness:
  "builds (Trim False [mkLatin1 [], mkUTF16 [32, 0x2003, 97, 32, 98, 0xFEFF]] 1)
     [mkLatin1 [], mkUTF16 [32, 0x2003, 97, 32, 98, 0xFEFF]] [97, 32, 98]"
proof -
  let ?n = "mkUTF16 [32, 0x2003, 97, 32, 98, 0xFEFF]"
  have "store_ok [mkLatin1 []]"
    by (simp add: store_ok_def cell_ok_def hash_ok_def units.simps mkLatin1_def emptyAddr_def)
  then have ok: "store_ok [mkLatin1 [], ?n] \<and> units [mkLatin1 [], ?n] 1 = [32, 0x2003, 97, 32, 98, 0xFEFF]"
    using newStr_flat [of "[mkLatin1 []]" ?n "[32, 0x2003, 97, 32, 98, 0xFEFF]"]
    by (simp add: newStr_def)
  with Trim_correct [of "[mkLatin1 [], ?n]" 1 False] show ?thesis
    by (simp add: trimBoth_def isECMAWhitespace_def)
qed

text \<open>
  C16. Every code point, surrogates and astral ones included, survives a round trip through
  \<open>FromCodePoint\<close> and \<open>CodePointAt\<close>, which reports as many units as the string has.
\<close>

theorem CodePoint_roundtrip:
  assumes ok: "store_ok h" and cp: "0 \<le> cp" "cp \<le> 0x10FFFF"
  shows "\<exists>a h' w. FromCodePoint force h cp = Some (a, h') \<and> store_ok h' \<and> extends h h'
    \<and> Len h' a = Some w \<and> yields (CodePointAt h' a 0) h' (cp, w)"
proof -
  define hi lo where "hi = (word_of_int (fst (encodeRune16 cp)) :: u16)"
    and "lo = (word_of_int (snd (encodeRune16 cp)) :: u16)"
  obtain a h' where a: "FromCodePoint force h cp = Some (a, h')" "store_ok h'" "extends h h'"
      "a < length h'" "units h' a = (if cp \<le> 0xFFFF then [word_of_int cp] else [hi, lo])"
    using FromCodePoint_builds [OF ok cp, of force] unfolding hi_def lo_def builds_def by blast
  have len: "Len h' a = Some (length (units h' a))"
    using slen_units [OF a(2,4)] a(4) by (simp add: Len_def)
  have "yields (CodePointAt h' a 0) h' (cp, length (units h' a))"
  proof (cases "cp \<le> 0xFFFF")
    case True
    then show ?thesis
      using CodePointAt_first [OF a(2,4), of "word_of_int cp" "[]"] a(5) cp uint16_of_int [of cp] by simp
  next
    case False
    then have "0xFFFF < cp" by simp
    from decode_encode16 [OF this cp(2)] show ?thesis
      using CodePointAt_first [OF a(2,4), of hi "[lo]"] a(5) False
      by (simp add: hi_def lo_def numeral_2_eq_2)
  qed
  with a len show ?thesis by blast
qed

theorem CodePoint_roundtrip_witness:
  "\<exists>a h' w. FromCodePoint False demoStore 0x1F600 = Some (a, h') \<and> store_ok h' \<and> extends demoStore h'
    \<and> Len h' a = Some w \<and> yields (CodePointAt h' a 0) h' (0x1F600, w)"
  using demoStore_ok by (rule CodePoint_roundtrip) simp_all

end
