(* ===== verification/InternTable.thy ===== *)
theory InternTable
  imports StrOps
begin

text \<open>
  Interning, \<open>pkg/js55/str/intern.go\<close>: an open-addressing hash table of strings that hands
  out one canonical pointer per content, so that property keys can be compared by identity.

  A table is a record of its slots and its count; strings live in the store of \<open>StrRope\<close>,
  which the table's operations flatten and hash in place.  The probing loops are
  \<open>partial_function\<close>s: a table without a free slot would make them run forever, and that
  would be the value \<open>None\<close>.  The allocation callback \<open>OnAlloc\<close> is a parameter \<open>bill\<close>: it
  takes the number of bytes and the caller's state and returns the new state, or \<open>None\<close>
  where the callback panics.  An operation that bills returns the pointer as an option of its
  own: \<open>None\<close> there is the panic of the callback, with the state it leaves behind.
\<close>

section \<open>The table\<close>

record itab =
  byHash :: "saddr option list"
  icount :: nat

definition NewTable :: itab where
  "NewTable = \<lparr>byHash = [], icount = 0\<rparr>"

definition internMinSlots :: nat where
  "internMinSlots = 8"

text \<open>\<open>unsafe.Sizeof(String{})\<close> and the size of a pointer on a 64-bit platform.\<close>

definition sizeofString :: nat where
  "sizeofString = 88"

definition sizeofPointer :: nat where
  "sizeofPointer = 8"

definition sameUnits :: "store \<Rightarrow> saddr \<Rightarrow> saddr \<Rightarrow> (bool \<times> store) option" where
  "sameUnits h a b =
     (if a = b then Some (True, h)
      else do { s0 \<leftarrow> deref h a; t0 \<leftarrow> deref h b;
        if slen s0 \<noteq> slen t0 then Some (False, h)
        else do { (s, t, h') \<leftarrow> flat2 h a b;
                  r \<leftarrow> matchFrom s t 0 0 (slen s); Some (r, h') } })"

definition cloneString :: "store \<Rightarrow> saddr \<Rightarrow> (saddr \<times> store) option" where
  "cloneString h p =
     do { (_, h1) \<leftarrow> flatCell h p;
          (v, h2) \<leftarrow> Hash h1 p;
          n \<leftarrow> deref h2 p;
          (case kindOf n of
             Latin1 \<Rightarrow> Some (newStr h2 \<lparr>hashState = hashComputedBit OR ucast v, kindOf = Latin1,
               narrow = narrow n, slen = slen n, latin1 = latin1 n, utf16 = [],
               left = None, right = None\<rparr>)
           | UTF16 \<Rightarrow> Some (newStr h2 \<lparr>hashState = hashComputedBit OR ucast v, kindOf = UTF16,
               narrow = narrow n, slen = slen n, latin1 = [], utf16 = utf16 n,
               left = None, right = None\<rparr>)
           | _ \<Rightarrow> None) }"

text \<open>
  The probing loop of \<open>lookup\<close> and of \<open>InternGo\<close>, over the test of a slot's string: it ends
  at the first free slot or at the first string that passes the test.
\<close>

partial_function (option) probe ::
  "(saddr \<Rightarrow> store \<Rightarrow> (bool \<times> store) option) \<Rightarrow> saddr option list \<Rightarrow> u32 \<Rightarrow> u32 \<Rightarrow> store \<Rightarrow>
   (saddr option \<times> store) option" where
  "probe test slots msk i h =
     (case deref slots (unat i) of
        None \<Rightarrow> None
      | Some None \<Rightarrow> Some (None, h)
      | Some (Some got) \<Rightarrow>
          (case test got h of
             None \<Rightarrow> None
           | Some (same, h') \<Rightarrow>
               if same then Some (Some got, h')
               else probe test slots msk ((i + 1) AND msk) h'))"

definition maskOf :: "saddr option list \<Rightarrow> u32" where
  "maskOf slots = word_of_nat (length slots - 1)"

definition lookup :: "itab \<Rightarrow> store \<Rightarrow> saddr option \<Rightarrow> (saddr option \<times> store) option" where
  "lookup t h s =
     (case s of
        None \<Rightarrow> Some (None, h)
      | Some p \<Rightarrow>
          if byHash t = [] then Some (None, h)
          else do { (v, h1) \<leftarrow> Hash h p;
                    probe (\<lambda>got h. sameUnits h got p) (byHash t) (maskOf (byHash t))
                      (v AND maskOf (byHash t)) h1 })"

partial_function (option) freeSlot :: "saddr option list \<Rightarrow> u32 \<Rightarrow> u32 \<Rightarrow> nat option" where
  "freeSlot slots msk i =
     (case deref slots (unat i) of
        None \<Rightarrow> None
      | Some None \<Rightarrow> Some (unat i)
      | Some (Some _) \<Rightarrow> freeSlot slots msk ((i + 1) AND msk))"

definition place :: "saddr option list \<Rightarrow> store \<Rightarrow> saddr \<Rightarrow> (saddr option list \<times> store) option" where
  "place slots h p =
     do { (v, h') \<leftarrow> Hash h p;
          j \<leftarrow> freeSlot slots (maskOf slots) (v AND maskOf slots);
          Some (slots[j := Some p], h') }"

fun placeAll :: "saddr option list \<Rightarrow> saddr option list \<Rightarrow> store \<Rightarrow> (saddr option list \<times> store) option" where
  "placeAll [] slots h = Some (slots, h)"
| "placeAll (None # old) slots h = placeAll old slots h"
| "placeAll (Some p # old) slots h =
     do { (slots', h') \<leftarrow> place slots h p; placeAll old slots' h' }"

definition growSize :: "nat \<Rightarrow> nat" where
  "growSize n = (if n * 2 = 0 then internMinSlots else n * 2)"

definition grow :: "itab \<Rightarrow> store \<Rightarrow> (itab \<times> store) option" where
  "grow t h =
     do { (slots, h') \<leftarrow> placeAll (byHash t) (replicate (growSize (length (byHash t))) None) h;
          Some (t\<lparr>byHash := slots\<rparr>, h') }"

definition mustGrow :: "itab \<Rightarrow> bool" where
  "mustGrow t \<longleftrightarrow> (icount t + 1) * 2 > length (byHash t)"

definition reserveBytes :: "itab \<Rightarrow> nat \<Rightarrow> nat" where
  "reserveBytes t n =
     sizeofString + n * 2
     + (if mustGrow t then growSize (length (byHash t)) * sizeofPointer else 0)"

definition insert_str :: "itab \<Rightarrow> store \<Rightarrow> saddr \<Rightarrow> (saddr \<times> itab \<times> store) option" where
  "insert_str t h p =
     do { (t1, h1) \<leftarrow> (if mustGrow t then grow t h else Some (t, h));
          (slots, h2) \<leftarrow> place (byHash t1) h1 p;
          Some (p, t1\<lparr>byHash := slots, icount := icount t1 + 1\<rparr>, h2) }"

definition Intern ::
  "(nat \<Rightarrow> 'q \<Rightarrow> 'q option) \<Rightarrow> itab \<Rightarrow> store \<Rightarrow> 'q \<Rightarrow> saddr option \<Rightarrow>
   (saddr option \<times> itab \<times> store \<times> 'q) option" where
  "Intern bill t h q s0 =
     do { let p = (case s0 of None \<Rightarrow> emptyAddr | Some p \<Rightarrow> p);
          (r, h1) \<leftarrow> lookup t h (Some p);
          (case r of
             Some got \<Rightarrow> Some (Some got, t, h1, q)
           | None \<Rightarrow> do {
               n \<leftarrow> Len h1 p;
               (case bill (reserveBytes t n) q of
                  None \<Rightarrow> Some (None, t, h1, q)
                | Some q' \<Rightarrow> do {
                    (c, h2) \<leftarrow> cloneString h1 p;
                    (a, t', h3) \<leftarrow> insert_str t h2 c;
                    Some (Some a, t', h3, q') }) }) }"

section \<open>Interning Go text\<close>

definition goUnits :: "rune \<Rightarrow> u16 list" where
  "goUnits r =
     (if r \<le> 0xFFFF then [word_of_int r]
      else [word_of_int (fst (encodeRune16 r)), word_of_int (snd (encodeRune16 r))])"

fun goHash_loop :: "rune list \<Rightarrow> u32 \<Rightarrow> nat \<Rightarrow> u32 \<times> nat" where
  "goHash_loop [] acc n = (acc, n)"
| "goHash_loop (r # rs) acc n =
     goHash_loop rs
       (foldl (\<lambda>x c. ((x XOR ucast (c AND 0xFF)) * 16777619 XOR ucast (drop_bit 8 c)) * 16777619)
          acc (goUnits r))
       (n + length (goUnits r))"

definition goHash :: "gostring \<Rightarrow> u32 \<times> nat" where
  "goHash g = goHash_loop (runesOf g) 2166136261 0"

fun equalGo_loop :: "store \<Rightarrow> saddr \<Rightarrow> rune list \<Rightarrow> nat \<Rightarrow> (bool \<times> store) option" where
  "equalGo_loop h p [] i = do { n \<leftarrow> Len h p; Some (i = n, h) }"
| "equalGo_loop h p (r # rs) i =
     (if r \<le> 0xFFFF then
        do { (x, h1) \<leftarrow> At h p (int i);
             if x \<noteq> word_of_int r then Some (False, h1) else equalGo_loop h1 p rs (i + 1) }
      else
        do { (x, h1) \<leftarrow> At h p (int i);
             if x \<noteq> word_of_int (fst (encodeRune16 r)) then Some (False, h1)
             else do { (y, h2) \<leftarrow> At h1 p (int i + 1);
               if y \<noteq> word_of_int (snd (encodeRune16 r)) then Some (False, h2)
               else equalGo_loop h2 p rs (i + 2) } })"

definition equalGo :: "store \<Rightarrow> saddr \<Rightarrow> gostring \<Rightarrow> (bool \<times> store) option" where
  "equalGo h p g = equalGo_loop h p (runesOf g) 0"

definition goTest :: "gostring \<Rightarrow> saddr \<Rightarrow> store \<Rightarrow> (bool \<times> store) option" where
  "goTest g got h =
     do { n \<leftarrow> Len h got;
          if n \<noteq> snd (goHash g) then Some (False, h)
          else do { (v, h1) \<leftarrow> Hash h got;
            if v \<noteq> fst (goHash g) then Some (False, h1) else equalGo h1 got g } }"

definition InternGo ::
  "bool \<Rightarrow> (nat \<Rightarrow> 'q \<Rightarrow> 'q option) \<Rightarrow> itab \<Rightarrow> store \<Rightarrow> 'q \<Rightarrow> gostring \<Rightarrow>
   (saddr option \<times> itab \<times> store \<times> 'q) option" where
  "InternGo force bill t h q g =
     do { (r, h1) \<leftarrow> (if byHash t = [] then Some (None, h)
            else probe (goTest g) (byHash t) (maskOf (byHash t))
                   (fst (goHash g) AND maskOf (byHash t)) h);
          (case r of
             Some got \<Rightarrow> Some (Some got, t, h1, q)
           | None \<Rightarrow>
               (case bill (reserveBytes t (snd (goHash g))) q of
                  None \<Rightarrow> Some (None, t, h1, q)
                | Some q' \<Rightarrow> do {
                    let (p0, h2) = FromGo force h1 g;
                    (p, h3) \<leftarrow> (if p0 = emptyAddr then cloneString h2 p0 else Some (p0, h2));
                    (_, h4) \<leftarrow> Hash h3 p;
                    (a, t', h5) \<leftarrow> insert_str t h4 p;
                    Some (Some a, t', h5, q') })) }"

definition Lookup :: "itab \<Rightarrow> store \<Rightarrow> saddr option \<Rightarrow> ((saddr option \<times> bool) \<times> store) option" where
  "Lookup t h s = do { (got, h') \<leftarrow> lookup t h s; Some ((got, got \<noteq> None), h') }"

definition Find :: "itab \<Rightarrow> store \<Rightarrow> saddr option \<Rightarrow> (saddr option \<times> store) option" where
  "Find t h s = (case s of None \<Rightarrow> Some (None, h) | Some _ \<Rightarrow> lookup t h s)"

section \<open>Probing sequences\<close>

text \<open>With \<open>2 ^ k\<close> slots the masked index steps through the slots cyclically.\<close>

lemma mask_index:
  assumes "n = 2 ^ k" "k \<le> 32"
  shows "unat (x AND word_of_nat (n - 1) :: u32) = unat x mod n"
proof -
  have "(word_of_nat (n - 1) :: u32) = mask k"
    using assms(1) by (simp add: mask_eq_exp_minus_1 of_nat_diff)
  moreover have "unat (x AND mask k) = take_bit k (unat x)"
    by (simp only: take_bit_eq_mask [symmetric] unsigned_take_bit_eq)
  ultimately show ?thesis using assms by (simp only: take_bit_eq_mod)
qed

lemma mask_step:
  assumes "n = 2 ^ k" "k \<le> 32"
  shows "unat ((i + 1) AND word_of_nat (n - 1) :: u32) = Suc (unat i) mod n"
proof -
  have "(2 :: nat) ^ k dvd 2 ^ 32" using assms(2) by (rule le_imp_power_dvd)
  then have "unat (i + 1) mod n = Suc (unat i) mod n"
    using assms(1) by (simp add: unat_word_ariths mod_mod_cancel)
  then show ?thesis by (simp only: mask_index [OF assms])
qed

definition slotsOk :: "saddr option list \<Rightarrow> bool" where
  "slotsOk slots \<longleftrightarrow> (\<exists>k \<le> 31. length slots = 2 ^ k)"

text \<open>The \<open>d\<close>-th slot of the probing sequence of a hash value.\<close>

definition nthSlot :: "saddr option list \<Rightarrow> u32 \<Rightarrow> nat \<Rightarrow> nat" where
  "nthSlot slots v d = (unat v + d) mod length slots"

lemma nthSlot_less: "slots \<noteq> [] \<Longrightarrow> nthSlot slots v d < length slots"
  by (simp add: nthSlot_def)


text \<open>
  What the probing loop asks of a test: it compares a slot's content with a fixed content,
  never panics and changes no content.  \<open>good\<close> is the test's invariant on stores.
\<close>

locale probe_test =
  fixes good :: "store \<Rightarrow> bool"
    and test :: "saddr \<Rightarrow> store \<Rightarrow> (bool \<times> store) option"
    and key :: "u16 list"
  assumes test_total: "good h \<Longrightarrow> a < length h \<Longrightarrow>
      \<exists>h'. test a h = Some (units h a = key, h') \<and> good h' \<and> extends h h'"
begin

lemma probe_stop:
  assumes n: "length slots = 2 ^ k" "k \<le> 31"
    and skip: "\<And>d. d < m \<Longrightarrow> \<exists>a. slots ! nthSlot slots v d = Some a \<and> a < length h \<and> units h a \<noteq> key"
    and h: "good h"
    and stop: "slots ! nthSlot slots v m = None \<or>
      (\<exists>a. slots ! nthSlot slots v m = Some a \<and> a < length h \<and> units h a = key)"
    and i: "unat i = nthSlot slots v 0"
  shows "\<exists>h'. probe test slots (maskOf slots) i h = Some (slots ! nthSlot slots v m, h')
    \<and> good h' \<and> extends h h'"
  using skip h stop i
proof (induction m arbitrary: v i h)
  case 0
  have "slots \<noteq> []" using n by auto
  then have "deref slots (unat i) = Some (slots ! nthSlot slots v 0)"
    using 0(4) nthSlot_less [of slots v 0] by simp
  with 0 test_total [OF 0(2)] show ?case by (subst probe.simps) force
next
  case (Suc m)
  have ne: "slots \<noteq> []" using n by auto
  obtain a where a: "slots ! nthSlot slots v 0 = Some a" "a < length h" "units h a \<noteq> key"
    using Suc.prems(1) [of 0] by auto
  obtain h1 where h1: "test a h = Some (False, h1)" "good h1" "extends h h1"
    using test_total [OF Suc.prems(2) a(2)] a(3) by auto
  have d: "deref slots (unat i) = Some (Some a)"
    using Suc.prems(4) a(1) nthSlot_less [OF ne, of v 0] by simp
  have step: "nthSlot slots (v + 1) d = nthSlot slots v (Suc d)" for d
  proof -
    have "(2 :: nat) ^ k dvd 2 ^ 32" using n(2) by (intro le_imp_power_dvd) simp
    then have "(unat v + 1) mod 2 ^ 32 mod 2 ^ k = (unat v + 1) mod 2 ^ k"
      by (rule mod_mod_cancel)
    then have "unat (v + 1) mod 2 ^ k = (unat v + 1) mod 2 ^ k"
      by (simp add: unat_word_ariths)
    then have "(unat (v + 1) + d) mod 2 ^ k = (unat v + 1 + d) mod 2 ^ k"
      by (metis mod_add_left_eq)
    then show ?thesis by (simp add: nthSlot_def n)
  qed
  have i': "unat ((i + 1) AND maskOf slots) = nthSlot slots (v + 1) 0"
  proof -
    have "unat ((i + 1) AND maskOf slots) = Suc (unat i) mod length slots"
      unfolding maskOf_def using n by (intro mask_step) auto
    also have "\<dots> = nthSlot slots v (Suc 0)"
      by (simp add: Suc.prems(4) nthSlot_def mod_Suc_eq)
    finally show ?thesis by (simp add: step)
  qed
  have "\<exists>h'. probe test slots (maskOf slots) ((i + 1) AND maskOf slots) h1
      = Some (slots ! nthSlot slots (v + 1) m, h') \<and> good h' \<and> extends h1 h'"
  proof (rule Suc.IH)
    fix d assume "d < m"
    then obtain b where "slots ! nthSlot slots v (Suc d) = Some b" "b < length h" "units h b \<noteq> key"
      using Suc.prems(1) [of "Suc d"] by auto
    then show "\<exists>a. slots ! nthSlot slots (v + 1) d = Some a \<and> a < length h1 \<and> units h1 a \<noteq> key"
      using h1(3) by (auto simp: step extends_def)
  next
    show "slots ! nthSlot slots (v + 1) m = None \<or>
      (\<exists>a. slots ! nthSlot slots (v + 1) m = Some a \<and> a < length h1 \<and> units h1 a = key)"
      using Suc.prems(3) h1(3) by (auto simp: step extends_def)
  qed (use h1 i' in auto)
  then show ?case
    using d h1 extends_trans by (subst probe.simps) (auto simp: step)
qed

end

lemma freeSlot_stop:
  assumes n: "length slots = 2 ^ k" "k \<le> 31"
    and skip: "\<And>d. d < m \<Longrightarrow> slots ! nthSlot slots v d \<noteq> None"
    and stop: "slots ! nthSlot slots v m = None"
    and i: "unat i = nthSlot slots v 0"
  shows "freeSlot slots (maskOf slots) i = Some (nthSlot slots v m)"
proof -
  have *: "unat i = nthSlot slots v c \<Longrightarrow> c + r = m \<Longrightarrow>
      freeSlot slots (maskOf slots) i = Some (nthSlot slots v m)" for r c i
  proof (induction r arbitrary: c i)
    case 0
    have "slots \<noteq> []" using n by auto
    with 0 stop nthSlot_less [of slots v m] show ?case by (subst freeSlot.simps) simp
  next
    case (Suc r)
    have ne: "slots \<noteq> []" using n by auto
    obtain a where "slots ! nthSlot slots v c = Some a" using skip [of c] Suc.prems by auto
    moreover have "unat ((i + 1) AND maskOf slots) = Suc (unat i) mod length slots"
      unfolding maskOf_def using n by (intro mask_step) auto
    then have "unat ((i + 1) AND maskOf slots) = nthSlot slots v (Suc c)"
      using Suc.prems by (simp add: nthSlot_def mod_Suc_eq)
    then have "freeSlot slots (maskOf slots) ((i + 1) AND maskOf slots) = Some (nthSlot slots v m)"
      using Suc.prems by (intro Suc.IH) auto
    ultimately show ?case
      using Suc.prems nthSlot_less [OF ne, of v c] by (subst freeSlot.simps) simp
  qed
  show ?thesis using i * [of i 0 m] by simp
qed

text \<open>A free slot is on every probing sequence; the first one is at a distance below the size.\<close>

lemma first_free:
  assumes "None \<in> set slots"
  obtains m where "m < length slots" "slots ! nthSlot slots v m = None"
    "\<And>d. d < m \<Longrightarrow> slots ! nthSlot slots v d \<noteq> None"
proof -
  let ?n = "length slots"
  obtain e where e: "e < ?n" "slots ! e = None"
    using assms by (metis in_set_conv_nth)
  define d where "d = (e + (?n - unat v mod ?n)) mod ?n"
  have n: "0 < ?n" using e(1) by linarith
  have "nthSlot slots v d = (unat v mod ?n + (e + (?n - unat v mod ?n))) mod ?n"
    by (simp add: nthSlot_def d_def mod_add_left_eq mod_add_right_eq)
  also have "unat v mod ?n + (e + (?n - unat v mod ?n)) = e + ?n"
    using n mod_less_divisor [OF n, of "unat v"] by linarith
  finally have "nthSlot slots v d = e" using e by simp
  with e have d: "slots ! nthSlot slots v d = None" "d < ?n" using n by (auto simp: d_def)
  define m where "m = (LEAST m. slots ! nthSlot slots v m = None)"
  have "slots ! nthSlot slots v m = None" unfolding m_def using d(1) by (rule LeastI)
  moreover have "m \<le> d" unfolding m_def using d(1) by (rule Least_le)
  moreover have "slots ! nthSlot slots v d' \<noteq> None" if "d' < m" for d'
    using that not_less_Least unfolding m_def by blast
  ultimately show ?thesis using d that [of m] by auto
qed


section \<open>The invariant\<close>

definition occupied :: "saddr option list \<Rightarrow> nat" where
  "occupied slots = length (filter (\<lambda>x. x \<noteq> None) slots)"

definition ptrs :: "saddr option list \<Rightarrow> saddr set" where
  "ptrs slots = {a. Some a \<in> set slots}"

text \<open>
  Every string sits on the probing sequence of its hash, behind occupied slots only, and no
  two slots hold the same content.
\<close>

definition on_path :: "saddr option list \<Rightarrow> store \<Rightarrow> nat \<Rightarrow> saddr \<Rightarrow> bool" where
  "on_path slots h j a \<longleftrightarrow>
     (\<exists>m. j = nthSlot slots (fnv (units h a)) m
        \<and> (\<forall>d < m. slots ! nthSlot slots (fnv (units h a)) d \<noteq> None
             \<and> nthSlot slots (fnv (units h a)) d \<noteq> j))"

definition paths_ok :: "saddr option list \<Rightarrow> store \<Rightarrow> bool" where
  "paths_ok slots h \<longleftrightarrow>
     (\<forall>j a. j < length slots \<longrightarrow> slots ! j = Some a \<longrightarrow> a < length h \<and> on_path slots h j a)
     \<and> (\<forall>j j' a a'. j < length slots \<longrightarrow> j' < length slots \<longrightarrow> slots ! j = Some a \<longrightarrow>
          slots ! j' = Some a' \<longrightarrow> units h a = units h a' \<longrightarrow> j = j')"

definition table_ok :: "itab \<Rightarrow> store \<Rightarrow> bool" where
  "table_ok t h \<longleftrightarrow> (byHash t = [] \<or> slotsOk (byHash t)) \<and> icount t = occupied (byHash t)
     \<and> 2 * icount t \<le> length (byHash t) \<and> paths_ok (byHash t) h"

text \<open>The finite map the table stands for: from contents to canonical pointers.\<close>

definition canon :: "saddr option list \<Rightarrow> store \<Rightarrow> u16 list \<Rightarrow> saddr option" where
  "canon slots h key = find (\<lambda>a. units h a = key) (map the (filter (\<lambda>x. x \<noteq> None) slots))"

lemma occupied_free: "occupied slots < length slots \<Longrightarrow> None \<in> set slots"
proof (rule ccontr)
  assume "None \<notin> set slots" "occupied slots < length slots"
  moreover have "filter (\<lambda>x. x \<noteq> None) slots = slots"
    using \<open>None \<notin> set slots\<close> by (intro filter_True) metis
  ultimately show False by (simp add: occupied_def)
qed

lemma occupied_update:
  "j < length slots \<Longrightarrow> slots ! j = None \<Longrightarrow> occupied (slots[j := Some p]) = Suc (occupied slots)"
  unfolding occupied_def
proof (induction slots arbitrary: j)
  case (Cons x xs)
  then show ?case by (cases j) auto
qed simp

lemma nth_ptrs: "j < length slots \<Longrightarrow> slots ! j = Some a \<Longrightarrow> a \<in> ptrs slots"
  by (auto simp: ptrs_def in_set_conv_nth)

lemma ptrs_update:
  "j < length slots \<Longrightarrow> slots ! j = None \<Longrightarrow> ptrs (slots[j := Some p]) = insert p (ptrs slots)"
  unfolding ptrs_def set_conv_nth by (auto simp: nth_list_update) (metis option.distinct(1))+

lemma canon_None: "canon slots h key = None \<longleftrightarrow> (\<forall>a \<in> ptrs slots. units h a \<noteq> key)"
  unfolding canon_def find_None_iff ptrs_def by force

lemma canon_Some_D: "canon slots h key = Some a \<Longrightarrow> a \<in> ptrs slots \<and> units h a = key"
proof -
  assume "canon slots h key = Some a"
  then have "a \<in> set (map the (filter (\<lambda>x. x \<noteq> None) slots)) \<and> units h a = key"
    unfolding canon_def find_Some_iff using nth_mem by fastforce
  then show ?thesis by (auto simp: ptrs_def)
qed

lemma ptrs_inj:
  assumes "paths_ok slots h" "a \<in> ptrs slots" "b \<in> ptrs slots" "units h a = units h b"
  shows "a = b"
proof -
  obtain i j where "i < length slots" "slots ! i = Some a" "j < length slots" "slots ! j = Some b"
    using assms(2,3) by (auto simp: ptrs_def in_set_conv_nth)
  moreover then have "i = j" using assms(1,4) unfolding paths_ok_def by blast
  ultimately show ?thesis by simp
qed

lemma canon_Some:
  assumes "paths_ok slots h"
  shows "canon slots h key = Some a \<longleftrightarrow> a \<in> ptrs slots \<and> units h a = key"
proof
  assume a: "a \<in> ptrs slots \<and> units h a = key"
  then obtain b where "canon slots h key = Some b"
    using canon_None [of slots h key] by (cases "canon slots h key") auto
  with a canon_Some_D ptrs_inj [OF assms] show "canon slots h key = Some a" by metis
qed (rule canon_Some_D)

lemma ptrs_valid: "paths_ok slots h \<Longrightarrow> a \<in> ptrs slots \<Longrightarrow> a < length h"
  by (auto simp: ptrs_def in_set_conv_nth paths_ok_def)

lemma paths_ok_extends:
  assumes "paths_ok slots h" "extends h h'"
  shows "paths_ok slots h'"
proof -
  have eq: "a < length h'" "units h' a = units h a"
    if "j < length slots" "slots ! j = Some a" for j a
  proof -
    have "a < length h" using that assms(1) by (auto simp: paths_ok_def)
    with assms(2) show "a < length h'" "units h' a = units h a" by (auto simp: extends_def)
  qed
  have "a < length h' \<and> on_path slots h' j a" if "j < length slots" "slots ! j = Some a" for j a
    using that eq [OF that] assms(1) by (auto simp: paths_ok_def on_path_def)
  moreover have "j = j'"
    if "j < length slots" "j' < length slots" "slots ! j = Some a" "slots ! j' = Some a'"
      "units h' a = units h' a'" for j j' a a'
  proof -
    have "units h a = units h a'" using that eq by simp
    with that assms(1) show ?thesis unfolding paths_ok_def by blast
  qed
  ultimately show ?thesis unfolding paths_ok_def by blast
qed

lemma canon_extends:
  assumes "paths_ok slots h" "extends h h'"
  shows "canon slots h' = canon slots h"
proof
  fix key
  have "a \<in> ptrs slots \<Longrightarrow> units h' a = units h a" for a
    using ptrs_valid [OF assms(1)] assms(2) by (simp add: extends_def)
  then show "canon slots h' key = canon slots h key"
    by (intro option_eqI)
      (auto simp: canon_Some [OF assms(1)] canon_Some [OF paths_ok_extends [OF assms]])
qed

section \<open>Looking up\<close>

lemma sameUnits_yields:
  assumes ok: "store_ok h" and ab: "a < length h" "b < length h"
  shows "yields (sameUnits h a b) h (units h a = units h b)"
proof (cases "a = b")
  case True
  then show ?thesis using ok by (auto simp: sameUnits_def intro: yieldsI)
next
  case False
  have len0: "slen (h ! a) = length (units h a)" "slen (h ! b) = length (units h b)"
    using slen_units ok ab by auto
  obtain s t h' where st: "flat2 h a b = Some (s, t, h')" "store_ok h'" "extends h h'"
    "length h' = length h" "flat s (units h a)" "flat t (units h b)"
    using assms by (rule flat2_total)
  have len: "slen s = length (units h a)" using st by (auto simp: flat_def)
  show ?thesis
  proof (cases "length (units h a) = length (units h b)")
    case True
    then have "matchFrom s t 0 0 (slen s) = Some (units h a = units h b)"
      using matchFrom_flat [OF st(5,6), of 0 0 "slen s"] len gosub_full [of "units h a"]
        gosub_full [of "units h b"] by auto
    with True False st len0 ab show ?thesis by (intro yieldsI [of _ _ h']) (auto simp: sameUnits_def)
  next
    case ne: False
    then have "sameUnits h a b = Some (False, h)" "units h a \<noteq> units h b"
      using False len0 ab by (auto simp: sameUnits_def)
    then show ?thesis using ok by (auto intro: yieldsI)
  qed
qed

interpretation same: probe_test
  "\<lambda>h. store_ok h \<and> p < length h \<and> units h p = key" "\<lambda>a h. sameUnits h a p" key
  for p :: saddr and key :: "u16 list"
proof
  fix h a
  assume g: "store_ok h \<and> p < length h \<and> units h p = key" and a: "a < length h"
  with sameUnits_yields [of h a p] obtain h' where
    "sameUnits h a p = Some (units h a = key, h')" "store_ok h'" "extends h h'"
    by (auto simp: yields_def)
  with g show "\<exists>h'. sameUnits h a p = Some (units h a = key, h') \<and>
      (store_ok h' \<and> p < length h' \<and> units h' p = key) \<and> extends h h'"
    by (auto simp: extends_def)
qed

context probe_test
begin

text \<open>Started at the home slot of the key, the loop finds the canonical pointer of the key.\<close>

lemma probe_canon:
  assumes ok: "slotsOk slots" "paths_ok slots h" "None \<in> set slots" and h: "good h"
    and i: "i = fnv key AND maskOf slots"
  shows "\<exists>h'. probe test slots (maskOf slots) i h = Some (canon slots h key, h') \<and> good h' \<and> extends h h'"
proof -
  obtain k where k: "length slots = 2 ^ k" "k \<le> 31" using ok by (auto simp: slotsOk_def)
  have ne: "slots \<noteq> []" using k by auto
  have i0: "unat i = nthSlot slots (fnv key) 0"
    unfolding i maskOf_def using mask_index [OF k(1), of "fnv key"] k by (simp add: nthSlot_def)
  show ?thesis
  proof (cases "canon slots h key")
    case None
    then have ne_key: "units h a \<noteq> key" if "a \<in> ptrs slots" for a
      using that by (simp add: canon_None)
    obtain m where m: "slots ! nthSlot slots (fnv key) m = None"
        "\<And>d. d < m \<Longrightarrow> slots ! nthSlot slots (fnv key) d \<noteq> None"
      using first_free [OF ok(3), of "fnv key"] by blast
    have "\<exists>a. slots ! nthSlot slots (fnv key) d = Some a \<and> a < length h \<and> units h a \<noteq> key"
      if d: "d < m" for d
    proof -
      obtain a where a: "slots ! nthSlot slots (fnv key) d = Some a"
        using m(2) [OF d] by auto
      then have "a \<in> ptrs slots" using nthSlot_less [OF ne] by (intro nth_ptrs)
      with a ne_key ptrs_valid [OF ok(2)] show ?thesis by blast
    qed
    then have "\<exists>h'. probe test slots (maskOf slots) i h
        = Some (slots ! nthSlot slots (fnv key) m, h') \<and> good h' \<and> extends h h'"
      by (rule probe_stop [OF k _ h _ i0]) (use m(1) in auto)
    then show ?thesis by (simp only: m(1) None)
  next
    case (Some a)
    then have a: "a \<in> ptrs slots" "units h a = key" using canon_Some_D by auto
    then obtain j where j: "j < length slots" "slots ! j = Some a"
      by (auto simp: ptrs_def in_set_conv_nth)
    then obtain m where m: "j = nthSlot slots (fnv key) m"
        "\<And>d. d < m \<Longrightarrow> slots ! nthSlot slots (fnv key) d \<noteq> None \<and> nthSlot slots (fnv key) d \<noteq> j"
      using ok(2) a(2) unfolding paths_ok_def on_path_def by blast
    have "\<exists>b. slots ! nthSlot slots (fnv key) d = Some b \<and> b < length h \<and> units h b \<noteq> key"
      if d: "d < m" for d
    proof -
      obtain b where b: "slots ! nthSlot slots (fnv key) d = Some b"
        using m(2) [OF d] by auto
      have l: "nthSlot slots (fnv key) d < length slots" using nthSlot_less [OF ne] .
      have "units h b \<noteq> key"
      proof
        assume "units h b = key"
        then have "nthSlot slots (fnv key) d = j"
          using ok(2) j l b a(2) unfolding paths_ok_def by (metis (no_types))
        with m(2) [OF d] show False by simp
      qed
      with b l ok(2) show ?thesis unfolding paths_ok_def by blast
    qed
    then have "\<exists>h'. probe test slots (maskOf slots) i h
        = Some (slots ! nthSlot slots (fnv key) m, h') \<and> good h' \<and> extends h h'"
      by (rule probe_stop [OF k _ h _ i0])
        (use m(1) j a ptrs_valid [OF ok(2) a(1)] in auto)
    then show ?thesis by (simp only: m(1) [symmetric] j(2) Some)
  qed
qed

end


lemma lookup_total:
  assumes ok: "store_ok h" and t: "table_ok t h" and p: "p < length h"
  shows "\<exists>h'. lookup t h (Some p) = Some (canon (byHash t) h (units h p), h')
    \<and> store_ok h' \<and> extends h h' \<and> p < length h'"
proof (cases "byHash t = []")
  case True
  then show ?thesis using ok p by (simp add: lookup_def canon_def)
next
  case False
  obtain h1 where h1: "Hash h p = Some (fnv (units h p), h1)" "store_ok h1" "extends h h1"
      "length h1 = length h"
    using ok p by (rule Hash_yields)
  have sl: "slotsOk (byHash t)" "paths_ok (byHash t) h" using t False by (auto simp: table_ok_def)
  have "occupied (byHash t) < length (byHash t)"
    using t False by (cases "byHash t") (auto simp: table_ok_def)
  then have free: "None \<in> set (byHash t)" by (rule occupied_free)
  have "store_ok h1 \<and> p < length h1 \<and> units h1 p = units h p"
    using h1 p by (simp add: extends_def)
  from same.probe_canon [OF sl(1) paths_ok_extends [OF sl(2) h1(3)] free this]
  obtain h2 where "probe (\<lambda>a h. sameUnits h a p) (byHash t) (maskOf (byHash t))
        (fnv (units h p) AND maskOf (byHash t)) h1
      = Some (canon (byHash t) h1 (units h p), h2)" "store_ok h2" "p < length h2" "extends h1 h2"
    by blast
  then show ?thesis
    using False h1 canon_extends [OF sl(2) h1(3)] extends_trans by (auto simp: lookup_def)
qed

section \<open>Placing\<close>

lemma place_total:
  assumes ok: "store_ok h" and p: "p < length h" and sl: "slotsOk slots" "paths_ok slots h"
    and free: "None \<in> set slots" and new: "\<And>a. a \<in> ptrs slots \<Longrightarrow> units h a \<noteq> units h p"
  shows "\<exists>j h'. place slots h p = Some (slots[j := Some p], h') \<and> j < length slots \<and> slots ! j = None
    \<and> store_ok h' \<and> extends h h' \<and> length h' = length h \<and> paths_ok (slots[j := Some p]) h'"
proof -
  obtain k where k: "length slots = 2 ^ k" "k \<le> 31" using sl by (auto simp: slotsOk_def)
  have ne: "slots \<noteq> []" using k by auto
  let ?v = "fnv (units h p)"
  obtain h1 where h1: "Hash h p = Some (?v, h1)" "store_ok h1" "extends h h1" "length h1 = length h"
    using ok p by (rule Hash_yields)
  obtain m where m: "m < length slots" "slots ! nthSlot slots ?v m = None"
      "\<And>d. d < m \<Longrightarrow> slots ! nthSlot slots ?v d \<noteq> None"
    using first_free [OF free, of ?v] by blast
  define j where "j = nthSlot slots ?v m"
  have j: "j < length slots" "slots ! j = None" using m nthSlot_less [OF ne] by (auto simp: j_def)
  have "unat (?v AND maskOf slots) = nthSlot slots ?v 0"
    unfolding maskOf_def using mask_index [OF k(1), of ?v] k by (simp add: nthSlot_def)
  from freeSlot_stop [OF k m(3) m(2) this]
  have P: "place slots h p = Some (slots[j := Some p], h1)"
    using h1(1) by (simp add: place_def j_def)
  let ?s = "slots[j := Some p]"
  have slot: "nthSlot ?s v d = nthSlot slots v d" for v d by (simp add: nthSlot_def)
  have keep: "slots ! i \<noteq> None \<Longrightarrow> ?s ! i \<noteq> None" for i
    using j by (cases "i = j") auto
  have valid: "a < length h" "units h1 a = units h a" if "i < length slots" "?s ! i = Some a" for i a
  proof -
    show "a < length h" using that sl(2) p j by (cases "i = j") (auto simp: paths_ok_def)
    then show "units h1 a = units h a" using h1(3) by (simp add: extends_def)
  qed
  have "on_path ?s h1 i a" if i: "i < length slots" "?s ! i = Some a" for i a
  proof (cases "i = j")
    case True
    then have "a = p" using i j by simp
    moreover have "nthSlot slots ?v d \<noteq> j \<and> slots ! nthSlot slots ?v d \<noteq> None" if "d < m" for d
      using m(3) [OF that] j(2) by auto
    ultimately show ?thesis
      unfolding on_path_def slot using True valid(2) [OF i] keep
      by (intro exI [of _ m]) (auto simp del: not_None_eq simp: j_def)
  next
    case False
    then have "on_path slots h i a" using i sl(2) by (auto simp: paths_ok_def)
    then show ?thesis
      unfolding on_path_def slot valid(2) [OF i] using keep by blast
  qed
  moreover have "i = i'"
    if i: "i < length slots" "i' < length slots" "?s ! i = Some a" "?s ! i' = Some a'"
      "units h1 a = units h1 a'" for i i' a a'
  proof -
    have u: "units h a = units h a'" using i valid by metis
    have old: "b \<in> ptrs slots" if "l < length slots" "?s ! l = Some b" "l \<noteq> j" for l b
      using that by (auto intro: nth_ptrs)
    consider "i = j" "i' = j" | "i = j" "i' \<noteq> j" | "i \<noteq> j" "i' = j" | "i \<noteq> j" "i' \<noteq> j" by blast
    then show ?thesis
    proof cases
      case 2
      then have "a = p" "a' \<in> ptrs slots" using i j old by auto
      with new u show ?thesis by auto
    next
      case 3
      then have "a' = p" "a \<in> ptrs slots" using i j old by auto
      with new u show ?thesis by auto
    next
      case 4
      then have "slots ! i = Some a" "slots ! i' = Some a'" using i by auto
      with i(1,2) u sl(2) show ?thesis unfolding paths_ok_def by blast
    qed auto
  qed
  ultimately have "paths_ok ?s h1"
    unfolding paths_ok_def using valid(1) h1(4) by (metis length_list_update)
  with P j h1 show ?thesis by blast
qed

lemma placeAll_total:
  assumes "store_ok h" "slotsOk slots" "paths_ok slots h"
    and "occupied slots + occupied old < length slots"
    and "\<And>p. p \<in> ptrs old \<Longrightarrow> p < length h"
    and "distinct (map (\<lambda>x. units h (the x)) (filter (\<lambda>x. x \<noteq> None) old))"
    and "\<And>a p. a \<in> ptrs slots \<Longrightarrow> p \<in> ptrs old \<Longrightarrow> units h a \<noteq> units h p"
  shows "\<exists>slots' h'. placeAll old slots h = Some (slots', h') \<and> store_ok h' \<and> extends h h'
    \<and> length h' = length h \<and> length slots' = length slots \<and> paths_ok slots' h'
    \<and> ptrs slots' = ptrs slots \<union> ptrs old \<and> occupied slots' = occupied slots + occupied old"
  using assms
proof (induction old arbitrary: slots h)
  case Nil
  then show ?case by (simp add: ptrs_def occupied_def)
next
  case (Cons x old)
  show ?case
  proof (cases x)
    case None
    then have "ptrs (x # old) = ptrs old" "occupied (x # old) = occupied old"
      by (auto simp: ptrs_def occupied_def)
    with Cons None show ?thesis by simp
  next
    case (Some p)
    then have old: "ptrs (x # old) = insert p (ptrs old)" "occupied (x # old) = Suc (occupied old)"
      by (auto simp: ptrs_def occupied_def)
    have free: "None \<in> set slots" using Cons.prems(4) old by (intro occupied_free) simp
    obtain j h1 where P: "place slots h p = Some (slots[j := Some p], h1)" "j < length slots"
        "slots ! j = None" "store_ok h1" "extends h h1" "length h1 = length h"
        "paths_ok (slots[j := Some p]) h1"
      using place_total [OF Cons.prems(1) _ Cons.prems(2,3) free, of p] Cons.prems(5,7) old by blast
    let ?s = "slots[j := Some p]"
    have valid: "units h1 a = units h a" if "a \<in> ptrs slots \<or> a \<in> insert p (ptrs old)" for a
      using that ptrs_valid [OF Cons.prems(3)] Cons.prems(5) old P(5) by (auto simp: extends_def)
    have pnew: "units h p \<noteq> units h q" if "q \<in> ptrs old" for q
      using that Cons.prems(6) Some by (force simp: ptrs_def)
    have "\<exists>slots' h'. placeAll old ?s h1 = Some (slots', h') \<and> store_ok h' \<and> extends h1 h'
      \<and> length h' = length h1 \<and> length slots' = length ?s \<and> paths_ok slots' h'
      \<and> ptrs slots' = ptrs ?s \<union> ptrs old \<and> occupied slots' = occupied ?s + occupied old"
    proof (rule Cons.IH)
      show "slotsOk ?s" using Cons.prems(2) by (simp add: slotsOk_def)
      show "occupied ?s + occupied old < length ?s"
        using Cons.prems(4) old P(2,3) by (simp add: occupied_update)
      have "map (\<lambda>x. units h1 (the x)) (filter (\<lambda>x. x \<noteq> None) old)
          = map (\<lambda>x. units h (the x)) (filter (\<lambda>x. x \<noteq> None) old)"
        using valid by (auto simp: ptrs_def)
      moreover have "distinct (map (\<lambda>x. units h (the x)) (filter (\<lambda>x. x \<noteq> None) old))"
        using Cons.prems(6) Some by simp
      ultimately show "distinct (map (\<lambda>x. units h1 (the x)) (filter (\<lambda>x. x \<noteq> None) old))"
        by (simp only:)
      show "units h1 a \<noteq> units h1 q" if "a \<in> ptrs ?s" "q \<in> ptrs old" for a q
        using that valid pnew Cons.prems(7) old P(2,3) by (auto simp: ptrs_update)
      show "q < length h1" if "q \<in> ptrs old" for q using that Cons.prems(5) old P(6) by simp
    qed (use P in auto)
    with P Some old show ?thesis
      using extends_trans by (auto simp: ptrs_update occupied_update) 
  qed
qed


lemma growSize_bound: "2 * c \<le> n \<Longrightarrow> 2 * (c + 1) \<le> growSize n"
proof -
  assume "2 * c \<le> n"
  then have "n = 0 \<or> 2 * (c + 1) \<le> n * 2" by presburger
  then show ?thesis using \<open>2 * c \<le> n\<close> by (auto simp: growSize_def internMinSlots_def)
qed

lemma slotsOk_grow: "slots = [] \<or> slotsOk slots \<Longrightarrow> length slots \<le> 2 ^ 30 \<Longrightarrow>
    slotsOk (replicate (growSize (length slots)) None)"
proof (cases "slots = []")
  case False
  assume "slots = [] \<or> slotsOk slots" "length slots \<le> 2 ^ 30"
  with False obtain k where len: "length slots = 2 ^ k" "(2 :: nat) ^ k \<le> 2 ^ 30"
    by (auto simp: slotsOk_def)
  then have k: "length slots = 2 ^ k" "k \<le> 30"
    using power_le_imp_le_exp [of "2 :: nat" k 30] by simp_all
  then have "growSize (length slots) = 2 ^ Suc k" by (simp add: growSize_def)
  with k show ?thesis unfolding slotsOk_def by (intro exI [of _ "Suc k"]) simp
qed (auto simp: slotsOk_def growSize_def internMinSlots_def intro: exI [of _ 3])

lemma distinct_contents:
  assumes "paths_ok slots h"
  shows "distinct (map (\<lambda>x. units h (the x)) (filter (\<lambda>x. x \<noteq> None) slots))"
proof -
  let ?P = "\<lambda>i. i < length slots \<and> slots ! i \<noteq> None"
  have "filter (\<lambda>x. x \<noteq> None) slots = map ((!) slots) (filter ?P [0 ..< length slots])"
  proof -
    have "filter (\<lambda>x. x \<noteq> None) slots = filter (\<lambda>x. x \<noteq> None) (map ((!) slots) [0 ..< length slots])"
      by (simp only: map_nth)
    also have "\<dots> = map ((!) slots) (filter (\<lambda>i. slots ! i \<noteq> None) [0 ..< length slots])"
      by (simp add: filter_map comp_def)
    also have "filter (\<lambda>i. slots ! i \<noteq> None) [0 ..< length slots] = filter ?P [0 ..< length slots]"
      by (rule filter_cong) auto
    finally show ?thesis .
  qed
  moreover have "inj_on (\<lambda>i. units h (the (slots ! i))) {i. ?P i}"
    using assms unfolding paths_ok_def inj_on_def by auto
  ultimately show ?thesis
    by (auto simp: distinct_map comp_def intro!: inj_on_subset [of _ "{i. ?P i}"])
qed

lemma grow_total:
  assumes ok: "store_ok h" and t: "table_ok t h" and le: "length (byHash t) \<le> 2 ^ 30"
  shows "\<exists>slots h'. grow t h = Some (t\<lparr>byHash := slots\<rparr>, h') \<and> store_ok h' \<and> extends h h'
    \<and> length h' = length h \<and> length slots = growSize (length (byHash t)) \<and> slotsOk slots
    \<and> paths_ok slots h' \<and> ptrs slots = ptrs (byHash t) \<and> occupied slots = icount t"
proof -
  let ?new = "replicate (growSize (length (byHash t))) None :: saddr option list"
  have sl: "slotsOk ?new" using t le by (intro slotsOk_grow) (auto simp: table_ok_def)
  have pn: "ptrs ?new = {}" "occupied ?new = 0" by (auto simp: ptrs_def occupied_def)
  have paths: "paths_ok (byHash t) h" "icount t = occupied (byHash t)" "2 * icount t \<le> length (byHash t)"
    using t by (auto simp: table_ok_def)
  have "\<exists>slots' h'. placeAll (byHash t) ?new h = Some (slots', h') \<and> store_ok h' \<and> extends h h'
    \<and> length h' = length h \<and> length slots' = length ?new \<and> paths_ok slots' h'
    \<and> ptrs slots' = ptrs ?new \<union> ptrs (byHash t) \<and> occupied slots' = occupied ?new + occupied (byHash t)"
  proof (rule placeAll_total [OF ok sl])
    show "paths_ok ?new h" by (simp add: paths_ok_def)
    show "occupied ?new + occupied (byHash t) < length ?new"
      using paths pn growSize_bound [OF paths(3)] by simp
  qed (use paths ptrs_valid distinct_contents pn in auto)
  then obtain s' h' where s': "placeAll (byHash t) ?new h = Some (s', h')" "store_ok h'" "extends h h'"
      "length h' = length h" "length s' = length ?new" "paths_ok s' h'" "ptrs s' = ptrs (byHash t)"
      "occupied s' = icount t"
    using pn paths by auto
  then have "slotsOk s'" using sl by (simp add: slotsOk_def)
  moreover have "grow t h = Some (t\<lparr>byHash := s'\<rparr>, h')" using s'(1) by (simp add: grow_def)
  ultimately show ?thesis using s' by (intro exI [of _ s'] exI [of _ h']) simp
qed

lemma insert_total:
  assumes ok: "store_ok h" and t: "table_ok t h" and small: "icount t < 2 ^ 29"
    and p: "p < length h" and new: "canon (byHash t) h (units h p) = None"
  shows "\<exists>t' h'. insert_str t h p = Some (p, t', h') \<and> store_ok h' \<and> extends h h'
    \<and> length h' = length h \<and> table_ok t' h' \<and> icount t' = Suc (icount t)
    \<and> ptrs (byHash t') = insert p (ptrs (byHash t))"
proof -
  obtain t1 h1 where t1: "(if mustGrow t then grow t h else Some (t, h)) = Some (t1, h1)"
      "store_ok h1" "extends h h1" "length h1 = length h" "slotsOk (byHash t1)" "paths_ok (byHash t1) h1"
      "ptrs (byHash t1) = ptrs (byHash t)" "occupied (byHash t1) = icount t"
      "2 * (icount t + 1) \<le> length (byHash t1)" "icount t1 = icount t"
  proof (cases "mustGrow t")
    case False
    then have "byHash t \<noteq> []" by (auto simp: mustGrow_def)
    with False t ok show ?thesis
      by (intro that [of t h]) (auto simp: table_ok_def mustGrow_def)
  next
    case True
    then have le: "length (byHash t) \<le> 2 ^ 30" using small by (simp add: mustGrow_def)
    obtain slots h' where "grow t h = Some (t\<lparr>byHash := slots\<rparr>, h')" "store_ok h'" "extends h h'"
      "length h' = length h" "length slots = growSize (length (byHash t))" "slotsOk slots"
      "paths_ok slots h'" "ptrs slots = ptrs (byHash t)" "occupied slots = icount t"
      using grow_total [OF ok t le] by blast
    moreover have "2 * (icount t + 1) \<le> growSize (length (byHash t))"
      using t growSize_bound by (simp add: table_ok_def)
    ultimately show ?thesis using True by (intro that [of "t\<lparr>byHash := slots\<rparr>" h']) auto
  qed
  have old: "units h1 a = units h a" if "a < length h" for a using that t1(3) by (simp add: extends_def)
  have free: "None \<in> set (byHash t1)" using t1(8,9) by (intro occupied_free) simp
  have "units h1 a \<noteq> units h1 p" if "a \<in> ptrs (byHash t1)" for a
    using that new p old t t1(7) ptrs_valid [of "byHash t" h a]
    by (auto simp: canon_None table_ok_def)
  then obtain j h2 where j: "place (byHash t1) h1 p = Some ((byHash t1)[j := Some p], h2)"
      "j < length (byHash t1)" "byHash t1 ! j = None" "store_ok h2" "extends h1 h2"
      "length h2 = length h1" "paths_ok ((byHash t1)[j := Some p]) h2"
    using place_total [OF t1(2) _ t1(5,6) free, of p] p t1(4) by auto
  define t2 where "t2 = t1\<lparr>byHash := (byHash t1)[j := Some p], icount := icount t1 + 1\<rparr>"
  have "insert_str t h p = Some (p, t2, h2)"
    using t1(1) j(1) by (simp add: insert_str_def t2_def)
  moreover have "table_ok t2 h2"
    using t1 j by (auto simp: table_ok_def t2_def occupied_update slotsOk_def)
  moreover have "ptrs (byHash t2) = insert p (ptrs (byHash t))"
    using t1(7) j(2,3) by (simp add: t2_def ptrs_update)
  moreover have "extends h h2" using t1(3) j(5) by (rule extends_trans)
  ultimately show ?thesis using j t1 by (auto simp: t2_def)
qed


section \<open>Interning\<close>

lemma Hash_kind:
  assumes "kindOf (h ! p) \<noteq> Rope" "p < length h" "Hash h p = Some (v, h')"
  shows "kindOf (h' ! p) = kindOf (h ! p)"
proof -
  have "flatCell h p = Some (h ! p, h)" using assms(1,2) by (simp add: flatCell_def flatten_def)
  then show ?thesis
    using assms(2,3) by (auto simp: Hash_def bind_eq_Some_conv split: if_splits)
qed

lemma cloneString_total:
  assumes ok: "store_ok h" and p: "p < length h"
  shows "\<exists>h'. cloneString h p = Some (length h, h') \<and> store_ok h' \<and> extends h h'
    \<and> length h < length h' \<and> units h' (length h) = units h p"
proof -
  obtain n1 h1 where h1: "flatCell h p = Some (n1, h1)" "store_ok h1" "extends h h1"
      "length h1 = length h" "flat n1 (units h p)" "h1 ! p = n1"
    using assms by (rule flatCell_total)
  have p1: "p < length h1" "units h1 p = units h p" using h1 p by (auto simp: extends_def)
  obtain h2 where h2: "Hash h1 p = Some (fnv (units h1 p), h2)" "store_ok h2" "extends h1 h2"
      "length h2 = length h1"
    using h1(2) p1(1) by (rule Hash_yields)
  define n where "n = h2 ! p"
  have p2: "p < length h2" "units h2 p = units h p" using h2 p1 by (auto simp: extends_def)
  have "kindOf n \<noteq> Rope"
    using Hash_kind [OF _ p1(1) h2(1)] kind_flat [OF h1(5)] h1(6) by (auto simp: n_def)
  then have fl: "flat n (units h p)"
    using cell_ok_flat [of h2 p] h2(2) p2 by (auto simp: n_def store_ok_def)
  define c where "c = \<lparr>hashState = hashComputedBit OR ucast (fnv (units h p)), kindOf = kindOf n,
     narrow = narrow n, slen = slen n, latin1 = (if kindOf n = Latin1 then latin1 n else []),
     utf16 = (if kindOf n = UTF16 then utf16 n else []), left = None, right = None\<rparr>"
  have C: "cloneString h p = Some (length h, h2 @ [c])"
  proof -
    have "h2 ! p = n" "length h2 = length h" using h2(4) h1(4) by (auto simp: n_def)
    then show ?thesis
      using kind_flat [OF fl] h1(1) h2(1) p2(1) p1(2)
      by (elim disjE) (simp_all add: cloneString_def newStr_def c_def)
  qed
  have flc: "flat c (units h p)"
    using fl kind_flat [OF fl] by (auto simp: flat_def flatUnits_def c_def)
  have uc: "units (h2 @ [c]) (length h2) = units h p"
    using flc by (intro units_flat) (auto simp: flat_def)
  have "store_ok (h2 @ [c])"
  proof (rule store_ok_append [OF h2(2)])
    show "cell_ok (h2 @ [c]) (length h2)" using flc by (intro cell_ok_if_flat) auto
    show "ucast (hashState c) = fnv (units (h2 @ [c]) (length h2))"
      unfolding uc by (simp add: c_def hashState_set)
  qed
  moreover have "extends h (h2 @ [c])"
    using h1(3) h2(3) extends_append extends_trans by blast
  ultimately show ?thesis using C uc h1(4) h2(4) by simp
qed

text \<open>The effect of interning, stated over the map the table stands for.\<close>

definition interned ::
  "itab \<Rightarrow> store \<Rightarrow> u16 list \<Rightarrow> saddr \<Rightarrow> itab \<Rightarrow> store \<Rightarrow> bool" where
  "interned t h key a t' h' \<longleftrightarrow> store_ok h' \<and> table_ok t' h' \<and> extends h h' \<and> a < length h'
     \<and> units h' a = key \<and> canon (byHash t') h' = (canon (byHash t) h)(key \<mapsto> a)
     \<and> canon (byHash t) h key \<in> {None, Some a}
     \<and> icount t' = (if canon (byHash t) h key = None then Suc (icount t) else icount t)"

lemma interned_hit:
  assumes "table_ok t h" "store_ok h'" "extends h h'" "canon (byHash t) h key = Some a"
  shows "interned t h key a t h'"
proof -
  have P: "paths_ok (byHash t) h" using assms by (simp add: table_ok_def)
  have c: "canon (byHash t) h' = canon (byHash t) h" "paths_ok (byHash t) h'"
    using canon_extends [OF P assms(3)] paths_ok_extends [OF P assms(3)] .
  then have "canon (byHash t) h' key = Some a" using assms(4) by simp
  then have a: "a \<in> ptrs (byHash t)" "units h' a = key" by (auto dest: canon_Some_D)
  moreover have "(canon (byHash t) h)(key \<mapsto> a) = canon (byHash t) h"
    using assms(4) by (rule fun_upd_idem)
  moreover have "table_ok t h'" using assms(1) c(2) by (simp add: table_ok_def)
  moreover have "a < length h'"
    using ptrs_valid [OF c(2) a(1)] .
  ultimately show ?thesis
    unfolding interned_def c(1) using assms(2-4) a by simp
qed

lemma interned_new:
  assumes t: "table_ok t h" and h1: "extends h h1" and ins: "insert_str t h1 p = Some (p, t', h')"
    "store_ok h'" "extends h1 h'" "table_ok t' h'" "icount t' = Suc (icount t)"
    "ptrs (byHash t') = insert p (ptrs (byHash t))"
    and p: "p < length h1" "units h1 p = key" and new: "canon (byHash t) h key = None"
  shows "interned t h key p t' h'"
proof -
  have pk: "p < length h'" "units h' p = key" using p ins(3) by (auto simp: extends_def)
  have paths: "paths_ok (byHash t) h" "paths_ok (byHash t') h'" using t ins by (auto simp: table_ok_def)
  have e: "extends h h'" using h1 ins(3) by (rule extends_trans)
  have "canon (byHash t') h' = (canon (byHash t) h)(key \<mapsto> p)"
  proof
    fix k
    have old: "a \<in> ptrs (byHash t) \<Longrightarrow> units h' a = units h a" for a
      using ptrs_valid [OF paths(1)] e by (simp add: extends_def)
    show "canon (byHash t') h' k = ((canon (byHash t) h)(key \<mapsto> p)) k"
    proof (cases "k = key")
      case True
      then show ?thesis using pk ins(6) by (simp add: canon_Some [OF paths(2)])
    next
      case False
      then have "canon (byHash t') h' k = Some a \<longleftrightarrow> canon (byHash t) h k = Some a" for a
        using old pk ins(6) by (auto simp: canon_Some [OF paths(1)] canon_Some [OF paths(2)])
      then have "canon (byHash t') h' k = canon (byHash t) h k"
        by (rule option_eqI)
      with False show ?thesis by simp
    qed
  qed
  then show ?thesis using ins pk e new by (simp add: interned_def)
qed

lemma Intern_total:
  assumes ok: "store_ok h" and t: "table_ok t h" and small: "icount t < 2 ^ 29" and p: "p < length h"
    and pays: "\<And>n. bill n q \<noteq> None"
  shows "\<exists>a t' h' q'. Intern bill t h q (Some p) = Some (Some a, t', h', q')
    \<and> interned t h (units h p) a t' h'"
proof -
  obtain h1 where h1: "lookup t h (Some p) = Some (canon (byHash t) h (units h p), h1)"
      "store_ok h1" "extends h h1" "p < length h1"
    using lookup_total [OF ok t p] by blast
  have u1: "units h1 p = units h p" using h1 p by (simp add: extends_def)
  show ?thesis
  proof (cases "canon (byHash t) h (units h p)")
    case (Some a)
    then have "Intern bill t h q (Some p) = Some (Some a, t, h1, q)"
      using h1 by (simp add: Intern_def)
    with interned_hit [OF t h1(2,3) Some] show ?thesis by blast
  next
    case None
    obtain h2 where h2: "cloneString h1 p = Some (length h1, h2)" "store_ok h2" "extends h1 h2"
        "length h1 < length h2" "units h2 (length h1) = units h1 p"
      using cloneString_total [OF h1(2,4)] by blast
    have e: "extends h h2" using h1(3) h2(3) by (rule extends_trans)
    have paths: "paths_ok (byHash t) h" using t by (simp add: table_ok_def)
    have t2: "table_ok t h2" "canon (byHash t) h2 (units h2 (length h1)) = None"
      using t None u1 h2(5) paths_ok_extends [OF paths e] canon_extends [OF paths e]
      by (auto simp: table_ok_def)
    obtain t' h3 where ins: "insert_str t h2 (length h1) = Some (length h1, t', h3)" "store_ok h3"
        "extends h2 h3" "table_ok t' h3" "icount t' = Suc (icount t)"
        "ptrs (byHash t') = insert (length h1) (ptrs (byHash t))"
      using insert_total [OF h2(2) t2(1) small h2(4) t2(2)] by blast
    obtain q' where q': "bill (reserveBytes t (slen (h1 ! p))) q = Some q'" using pays by blast
    have "Intern bill t h q (Some p) = Some (Some (length h1), t', h3, q')"
      using h1(1,4) None q' h2(1) ins(1) by (simp add: Intern_def Len_def)
    moreover have "interned t h (units h p) (length h1) t' h3"
      using interned_new [OF t e ins h2(4) _ None] h2(5) u1 by simp
    ultimately show ?thesis by blast
  qed
qed


section \<open>Interning Go text\<close>

definition goContent :: "gostring \<Rightarrow> u16 list" where
  "goContent g = concat (map goUnits (runesOf g))"

lemma goUnits_cases:
  "r \<le> 0xFFFF \<Longrightarrow> goUnits r = [word_of_int r]"
  "\<not> r \<le> 0xFFFF \<Longrightarrow>
    goUnits r = [word_of_int (fst (encodeRune16 r)), word_of_int (snd (encodeRune16 r))]"
  by (simp_all add: goUnits_def)

lemma goUnits_encode: "validScalar r \<Longrightarrow> goUnits r = encode16one r"
  by (auto simp: goUnits_def encode16one_def validScalar_def)

lemma goContent_encode: "goContent g = encode16 (runesOf g)"
  unfolding goContent_def encode16_def
  by (rule arg_cong [of _ _ concat]) (auto simp: goUnits_encode dest: runesOf_scalar)

lemma goContent_ascii: "list_all (\<lambda>b. uint b < 0x80) g \<Longrightarrow> goContent g = map ucast g"
proof -
  assume a: "list_all (\<lambda>b. uint b < 0x80) g"
  have "concat (map goUnits (map uint g)) = map ucast g"
    using a by (induction g) (auto simp: goUnits_def word_of_int_uint)
  with a show ?thesis by (simp add: goContent_def runesOf_ascii)
qed

lemma goHash_eq: "goHash g = (fnv (goContent g), length (goContent g))"
proof -
  have "goHash_loop rs acc n
      = (foldl fnv_step acc (concat (map goUnits rs)), n + length (concat (map goUnits rs)))" for rs acc n
    by (induction rs arbitrary: acc n) (simp_all add: fnv_step_def [abs_def])
  then show ?thesis by (simp add: goHash_def goContent_def fnv_def)
qed

lemma builds_FromGo:
  assumes "store_ok h'" "extends h h'"
  shows "builds (Some (FromGo force h' g)) h (goContent g)"
  using assms builds_empty [OF assms] builds_FromLatin1 [OF assms, of force g]
    builds_FromUTF16 [OF assms, of force "encode16 (runesOf g)"]
  by (auto simp: FromGo_def goContent_ascii goContent_encode [symmetric])

lemma drop_Cons_iff: "drop i u = x # w \<longleftrightarrow> i < length u \<and> u ! i = x \<and> drop (Suc i) u = w"
proof (cases "i < length u")
  case True
  then have "drop i u = u ! i # drop (Suc i) u" by (simp add: Cons_nth_drop_Suc)
  with True show ?thesis by simp
qed simp

lemma At_nat:
  assumes "store_ok h" "p < length h"
  obtains h1 where "At h p (int i) = Some (if i \<ge> length (units h p) then 0 else units h p ! i, h1)"
    "store_ok h1" "extends h h1" "length h1 = length h"
proof -
  obtain h1 where "At h p (int i) = Some (if int i < 0 \<or> int i \<ge> int (length (units h p)) then 0
      else units h p ! nat (int i), h1)" "store_ok h1" "extends h h1" "length h1 = length h"
    using assms by (rule At_total)
  then show ?thesis by (intro that [of h1]) simp_all
qed

lemma yields_trans: "extends h h' \<Longrightarrow> yields m h' r \<Longrightarrow> yields m h r"
  unfolding yields_def using extends_trans by blast

text \<open>The comparison with decoded text reads zeros past the end, which the final length test excludes.\<close>

lemma equalGo_loop_yields:
  assumes "store_ok h" "p < length h"
  shows "yields (equalGo_loop h p rs i) h
    (i \<le> length (units h p) \<and> drop i (units h p) = concat (map goUnits rs))"
  using assms
proof (induction rs arbitrary: i h)
  case Nil
  then show ?case using slen_units [of h p]
    by (intro yieldsI [of _ _ h]) (auto simp: Len_def)
next
  case (Cons r rs)
  let ?u = "units h p"
  obtain h1 where h1: "At h p (int i) = Some (if i \<ge> length ?u then 0 else ?u ! i, h1)" "store_ok h1"
      "extends h h1" "length h1 = length h"
    using Cons.prems by (rule At_nat)
  have p1: "p < length h1" "units h1 p = ?u" using h1 Cons.prems by (auto simp: extends_def)
  have step: "yields (equalGo_loop h' p rs j) h (j \<le> length ?u \<and> drop j ?u = concat (map goUnits rs))"
    if "store_ok h'" "p < length h'" "units h' p = ?u" "extends h h'" for h' j
    using yields_trans [OF that(4) Cons.IH [OF that(1,2), of j]] that(3) by simp
  show ?case
  proof (cases "r \<le> 0xFFFF")
    case True
    have "yields (Some (False, h1)) h False" using h1 by (auto intro: yieldsI)
    with step [OF h1(2) p1 h1(3), of "Suc i"] True h1(1) show ?thesis
      by (cases "i < length ?u") (auto simp: goUnits_cases drop_Cons_iff)
  next
    case False
    let ?x = "word_of_int (fst (encodeRune16 r)) :: u16" and ?y = "word_of_int (snd (encodeRune16 r)) :: u16"
    obtain h2 where h2': "At h1 p (int (Suc i)) = Some (if Suc i \<ge> length (units h1 p) then 0
          else units h1 p ! Suc i, h2)"
        "store_ok h2" "extends h1 h2" "length h2 = length h1"
      using h1(2) p1(1) by (rule At_nat)
    then have h2: "At h1 p (int i + 1) = Some (if Suc i \<ge> length ?u then 0 else ?u ! Suc i, h2)"
        "store_ok h2" "extends h1 h2" "length h2 = length h1"
      using p1(2) by (simp_all add: add.commute)
    have p2: "p < length h2" "units h2 p = ?u" "extends h h2"
      using h1(3) h2 p1 extends_trans by (auto simp: extends_def)
    have no: "yields (Some (False, h1)) h False" "yields (Some (False, h2)) h False"
      using h1 h2 p2 by (auto intro: yieldsI)
    have E: "equalGo_loop h p (r # rs) i = (if (if i \<ge> length ?u then 0 else ?u ! i) \<noteq> ?x
        then Some (False, h1)
        else if (if Suc i \<ge> length ?u then 0 else ?u ! Suc i) \<noteq> ?y then Some (False, h2)
        else equalGo_loop h2 p rs (i + 2))"
      using False h1(1) h2(1) by simp
    have R: "i \<le> length ?u \<and> drop i ?u = concat (map goUnits (r # rs)) \<longleftrightarrow>
        Suc i < length ?u \<and> ?u ! i = ?x \<and> ?u ! Suc i = ?y
          \<and> drop (i + 2) ?u = concat (map goUnits rs)"
      using False by (auto simp: goUnits_cases drop_Cons_iff)
    have last: "yields (equalGo_loop h2 p rs (i + 2)) h
        (i + 2 \<le> length ?u \<and> drop (i + 2) ?u = concat (map goUnits rs))"
      by (rule step [OF h2(2) p2])
    show ?thesis
      unfolding E R using no last by (cases "Suc i < length ?u") auto
  qed
qed


lemma goTest_yields:
  assumes ok: "store_ok h" and a: "a < length h"
  shows "yields (goTest g a h) h (units h a = goContent g)"
proof (cases "length (units h a) = length (goContent g)")
  case False
  then have "goTest g a h = Some (False, h)" "units h a \<noteq> goContent g"
    using slen_units [OF ok a] a by (auto simp: goTest_def Len_def goHash_eq)
  then show ?thesis using ok by (auto intro: yieldsI)
next
  case True
  obtain h1 where h1: "Hash h a = Some (fnv (units h a), h1)" "store_ok h1" "extends h h1"
      "length h1 = length h"
    using ok a by (rule Hash_yields)
  have a1: "a < length h1" "units h1 a = units h a" using h1 a by (auto simp: extends_def)
  have T: "goTest g a h = (if fnv (units h a) \<noteq> fnv (goContent g) then Some (False, h1) else equalGo h1 a g)"
    using True h1(1) slen_units [OF ok a] a by (simp add: goTest_def Len_def goHash_eq)
  show ?thesis
  proof (cases "fnv (units h a) = fnv (goContent g)")
    case False
    then have "units h a \<noteq> goContent g" by auto
    with False T h1 show ?thesis by (auto intro: yieldsI)
  next
    case eq: True
    have "yields (equalGo h1 a g) h1 (units h1 a = goContent g)"
      using equalGo_loop_yields [OF h1(2) a1(1), of "runesOf g" 0]
      by (simp add: equalGo_def goContent_def)
    with eq T a1 yields_trans [OF h1(3)] show ?thesis by simp
  qed
qed

interpretation go: probe_test store_ok "goTest g" "goContent g" for g
  using goTest_yields by unfold_locales (auto simp: yields_def)

lemma InternGo_total:
  assumes ok: "store_ok h" and t: "table_ok t h" and small: "icount t < 2 ^ 29"
    and pays: "\<And>n. bill n q \<noteq> None"
  shows "\<exists>a t' h' q'. InternGo force bill t h q g = Some (Some a, t', h', q')
    \<and> interned t h (goContent g) a t' h'"
proof -
  have paths: "paths_ok (byHash t) h" using t by (simp add: table_ok_def)
  obtain h1 where h1: "(if byHash t = [] then Some (None, h)
      else probe (goTest g) (byHash t) (maskOf (byHash t)) (fst (goHash g) AND maskOf (byHash t)) h)
      = Some (canon (byHash t) h (goContent g), h1)" "store_ok h1" "extends h h1"
  proof (cases "byHash t = []")
    case True
    then show ?thesis using ok by (intro that [of h]) (auto simp: canon_def)
  next
    case False
    have "slotsOk (byHash t)" "occupied (byHash t) < length (byHash t)"
      using t False by (cases "byHash t"; auto simp: table_ok_def)+
    with go.probe_canon [OF _ paths occupied_free ok] False show ?thesis
      using that by (auto simp: goHash_eq)
  qed
  show ?thesis
  proof (cases "canon (byHash t) h (goContent g)")
    case (Some a)
    then have "InternGo force bill t h q g = Some (Some a, t, h1, q)"
      unfolding InternGo_def h1(1) by simp
    with interned_hit [OF t h1(2,3) Some] show ?thesis by blast
  next
    case None
    obtain p0 h2 where h2: "FromGo force h1 g = (p0, h2)" "store_ok h2" "extends h1 h2" "p0 < length h2"
        "units h2 p0 = goContent g"
      using builds_FromGo [OF h1(2) extends_refl, of force g] by (auto simp: builds_def)
    obtain p h3 where h3: "(if p0 = emptyAddr then cloneString h2 p0 else Some (p0, h2)) = Some (p, h3)"
        "store_ok h3" "extends h2 h3" "p < length h3" "units h3 p = goContent g"
      using cloneString_total [OF h2(2,4)] h2 that [of p0 h2] that
      by (cases "p0 = emptyAddr") auto
    obtain h4 where h4: "Hash h3 p = Some (fnv (units h3 p), h4)" "store_ok h4" "extends h3 h4"
        "length h4 = length h3"
      using h3(2,4) by (rule Hash_yields)
    have p4: "p < length h4" "units h4 p = goContent g" using h3 h4 by (auto simp: extends_def)
    have e: "extends h h4" using h1(3) h2(3) h3(3) h4(3) extends_trans by blast
    have t4: "table_ok t h4" "canon (byHash t) h4 (units h4 p) = None"
      using t None p4 paths_ok_extends [OF paths e] canon_extends [OF paths e]
      by (auto simp: table_ok_def)
    obtain t' h5 where ins: "insert_str t h4 p = Some (p, t', h5)" "store_ok h5"
        "extends h4 h5" "table_ok t' h5" "icount t' = Suc (icount t)"
        "ptrs (byHash t') = insert p (ptrs (byHash t))"
      using insert_total [OF h4(2) t4(1) small p4(1) t4(2)] by blast
    obtain q' where q': "bill (reserveBytes t (snd (goHash g))) q = Some q'" using pays by blast
    have "InternGo force bill t h q g = Some (Some p, t', h5, q')"
      unfolding InternGo_def h1(1) using None q' h2(1) h3(1) h4(1) ins(1) by simp
    moreover have "interned t h (goContent g) p t' h5"
      using interned_new [OF t e ins p4 None] .
    ultimately show ?thesis by blast
  qed
qed

section \<open>Properties\<close>

text \<open>
  C17. Interning is canonical: two strings interned one after the other, whatever their
  storage forms, get the same pointer if and only if their contents are equal.  Neither
  interning panics nor probes forever.
\<close>

theorem Intern_canonical:
  assumes "store_ok h" "table_ok t h" "icount t < 2 ^ 28" "p < length h" "p' < length h"
    and "\<And>n x. bill n x \<noteq> None"
  shows "\<exists>a t1 h1 q1 b t2 h2 q2. Intern bill t h q (Some p) = Some (Some a, t1, h1, q1)
    \<and> Intern bill t1 h1 q1 (Some p') = Some (Some b, t2, h2, q2)
    \<and> (a = b \<longleftrightarrow> units h p = units h p') \<and> table_ok t2 h2 \<and> store_ok h2"
proof -
  obtain a t1 h1 q1 where 1: "Intern bill t h q (Some p) = Some (Some a, t1, h1, q1)"
      "interned t h (units h p) a t1 h1"
    using Intern_total [where bill = bill and q = q, OF assms(1,2) _ assms(4)] assms(3,6) by fastforce
  then have s1: "store_ok h1" "table_ok t1 h1" "icount t1 < 2 ^ 29" "p' < length h1"
      "units h1 p' = units h p'"
    using assms(3,5) by (auto simp: interned_def extends_def split: if_splits)
  obtain b t2 h2 q2 where 2: "Intern bill t1 h1 q1 (Some p') = Some (Some b, t2, h2, q2)"
      "interned t1 h1 (units h p') b t2 h2"
    using Intern_total [where bill = bill and q = q1, OF s1(1-4) assms(6)] s1(5) by auto
  have "a = b \<longleftrightarrow> units h p = units h p'"
  proof
    assume "units h p = units h p'"
    then show "a = b" using 1(2) 2(2) by (auto simp: interned_def)
  next
    assume "a = b"
    then show "units h p = units h p'" using 1(2) 2(2) by (auto simp: interned_def extends_def)
  qed
  with 1 2 show ?thesis by (auto simp: interned_def)
qed

theorem Intern_canonical_witness:
  "\<exists>a t1 h1 q1 b t2 h2 q2.
     Intern (\<lambda>n x. Some (x + n)) NewTable demoStore 0 (Some 1) = Some (Some a, t1, h1, q1)
    \<and> Intern (\<lambda>n x. Some (x + n)) t1 h1 q1 (Some 2) = Some (Some b, t2, h2, q2)
    \<and> (a = b \<longleftrightarrow> units demoStore 1 = units demoStore 2) \<and> table_ok t2 h2 \<and> store_ok h2"
  by (rule Intern_canonical)
    (simp_all add: demoStore_ok demoStore_nth NewTable_def table_ok_def occupied_def paths_ok_def)


text \<open>
  C18. The table implements a finite map from contents to pointers: interning updates it at
  the content of the argument only, keeps an existing entry, counts the new ones, and what
  \<open>Lookup\<close> answers afterwards for any string is the map's entry for its content.
\<close>

theorem Intern_refines_map:
  assumes "store_ok h" "table_ok t h" "icount t < 2 ^ 29" "p < length h" "p' < length h"
    and "\<And>n. bill n q \<noteq> None"
  shows "\<exists>a t' h' q' h''. Intern bill t h q (Some p) = Some (Some a, t', h', q')
    \<and> canon (byHash t') h' = (canon (byHash t) h)(units h p \<mapsto> a)
    \<and> canon (byHash t) h (units h p) \<in> {None, Some a}
    \<and> icount t' = (if canon (byHash t) h (units h p) = None then Suc (icount t) else icount t)
    \<and> Lookup t' h' (Some p')
        = Some ((canon (byHash t') h' (units h p'), canon (byHash t') h' (units h p') \<noteq> None), h'')"
proof -
  obtain a t' h' q' where 1: "Intern bill t h q (Some p) = Some (Some a, t', h', q')"
      "interned t h (units h p) a t' h'"
    using Intern_total [where bill = bill and q = q, OF assms(1-4)] assms(6) by blast
  then have s: "store_ok h'" "table_ok t' h'" "p' < length h'" "units h' p' = units h p'"
    using assms(5) by (auto simp: interned_def extends_def)
  obtain h'' where "lookup t' h' (Some p') = Some (canon (byHash t') h' (units h' p'), h'')"
    using lookup_total [OF s(1-3)] by blast
  with 1 s(4) show ?thesis by (auto simp: interned_def Lookup_def)
qed

theorem Intern_refines_map_witness:
  "\<exists>a t' h' q' h''. Intern (\<lambda>n x. Some (x + n)) NewTable demoStore 0 (Some 4) = Some (Some a, t', h', q')
    \<and> canon (byHash t') h' = (canon (byHash NewTable) demoStore)(units demoStore 4 \<mapsto> a)
    \<and> canon (byHash NewTable) demoStore (units demoStore 4) \<in> {None, Some a}
    \<and> icount t' = (if canon (byHash NewTable) demoStore (units demoStore 4) = None
        then Suc (icount NewTable) else icount NewTable)
    \<and> Lookup t' h' (Some 1)
        = Some ((canon (byHash t') h' (units demoStore 1), canon (byHash t') h' (units demoStore 1) \<noteq> None), h'')"
  by (rule Intern_refines_map)
    (simp_all add: demoStore_ok demoStore_nth NewTable_def table_ok_def occupied_def paths_ok_def)

text \<open>
  C19. Interning Go text and interning a string of the same code units give the same pointer:
  the probe over decoded text agrees with the one over stored strings, invalid UTF-8 included.
\<close>

theorem InternGo_agrees:
  assumes "store_ok h" "table_ok t h" "icount t < 2 ^ 28" "p < length h" "units h p = goContent g"
    and "\<And>n x. bill n x \<noteq> None"
  shows "\<exists>a t1 h1 q1 h2. InternGo force bill t h q g = Some (Some a, t1, h1, q1)
    \<and> Intern bill t1 h1 q1 (Some p) = Some (Some a, t1, h2, q1)"
proof -
  obtain a t1 h1 q1 where 1: "InternGo force bill t h q g = Some (Some a, t1, h1, q1)"
      "interned t h (goContent g) a t1 h1"
    using InternGo_total [where bill = bill and q = q, OF assms(1,2) _ assms(6)] assms(3) by fastforce
  then have s1: "store_ok h1" "table_ok t1 h1" "p < length h1" "units h1 p = goContent g"
    using assms(4,5) by (auto simp: interned_def extends_def)
  obtain h2 where "lookup t1 h1 (Some p) = Some (canon (byHash t1) h1 (units h1 p), h2)"
    using lookup_total [OF s1(1-3)] by blast
  moreover have "canon (byHash t1) h1 (units h1 p) = Some a"
    using 1(2) s1(4) by (simp add: interned_def)
  ultimately have "Intern bill t1 h1 q1 (Some p) = Some (Some a, t1, h2, q1)"
    by (simp add: Intern_def)
  with 1(1) show ?thesis by blast
qed

theorem InternGo_agrees_witness:
  "\<exists>a t1 h1 q1 h2. InternGo False (\<lambda>n x. Some (x + n)) NewTable demoStore 0 [97, 98] = Some (Some a, t1, h1, q1)
    \<and> Intern (\<lambda>n x. Some (x + n)) t1 h1 q1 (Some 2) = Some (Some a, t1, h2, q1)"
  by (rule InternGo_agrees)
    (simp_all add: demoStore_ok demoStore_nth NewTable_def table_ok_def occupied_def paths_ok_def
       demoStore_units goContent_ascii)

text \<open>
  The bytes of a new entry are billed before anything is allocated or changed: when the
  callback refuses them, the table is as it was and no content has changed.
\<close>

theorem Intern_refused:
  assumes "store_ok h" "table_ok t h" "p < length h" "canon (byHash t) h (units h p) = None"
    and "bill (reserveBytes t (length (units h p))) q = None"
  shows "\<exists>h'. Intern bill t h q (Some p) = Some (None, t, h', q)
    \<and> store_ok h' \<and> extends h h' \<and> table_ok t h'"
proof -
  obtain h1 where h1: "lookup t h (Some p) = Some (None, h1)" "store_ok h1" "extends h h1" "p < length h1"
    using lookup_total [OF assms(1-3)] assms(4) by auto
  have "slen (h1 ! p) = length (units h p)"
    using slen_units [OF h1(2,4)] h1(3) assms(3) by (simp add: extends_def)
  then have "Intern bill t h q (Some p) = Some (None, t, h1, q)"
    using h1 assms(5) by (simp add: Intern_def Len_def)
  moreover have "table_ok t h1"
    using assms(2) paths_ok_extends [OF _ h1(3)] by (simp add: table_ok_def)
  ultimately show ?thesis using h1 by blast
qed

theorem Intern_refused_witness:
  "\<exists>h'. Intern (\<lambda>n x. None) NewTable demoStore () (Some 4) = Some (None, NewTable, h', ())
    \<and> store_ok h' \<and> extends demoStore h' \<and> table_ok NewTable h'"
  by (rule Intern_refused)
    (simp_all add: demoStore_ok demoStore_nth NewTable_def table_ok_def occupied_def paths_ok_def canon_def)

end
