(* ===== verification/NanValue.thy ===== *)
theory NanValue
  imports Prelude
begin

text \<open>
  Tagged values, \<open>pkg/js55/engine/value.go\<close>.  A JavaScript value is one 64-bit word: an
  IEEE-754 double as it is, or a quiet NaN whose upper sixteen bits say which other kind of
  value it carries.  Object references are 48-bit handles made of a 32-bit heap index and
  a 16-bit generation, of which the top bit marks a handle of the shared root realm.

  Floats are kept as their bit pattern: the parts of the source that only inspect or move
  a double (\<open>Number\<close>, \<open>IsNumber\<close>, the tag tests, the boolean conversion) are modelled on the
  pattern itself, and float arithmetic is not modelled.
\<close>

section \<open>Bit patterns\<close>

type_synonym val = u64
type_synonym handle = u64

definition tagNaN :: u64 where "tagNaN = 0x7FF8000000000000"
definition tagUndefined :: u64 where "tagUndefined = tagNaN OR 0x0001000000000000"
definition tagNull :: u64 where "tagNull = tagNaN OR 0x0002000000000000"
definition tagBoolean :: u64 where "tagBoolean = tagNaN OR 0x0003000000000000"
definition tagInt32 :: u64 where "tagInt32 = tagNaN OR 0x0004000000000000"
definition tagTDZ :: u64 where "tagTDZ = tagNaN OR 0x0005000000000000"
definition tagReturn :: u64 where "tagReturn = tagNaN OR 0x0006000000000000"
definition tagGlobalTombstone :: u64 where "tagGlobalTombstone = tagNaN OR 0x0007000000000000"
definition tagPointer :: u64 where "tagPointer = tagNaN OR 0x8000000000000000"
definition ptrMask :: u64 where "ptrMask = 0x0000FFFFFFFFFFFF"
definition topMask :: u64 where "topMask = 0xFFFF000000000000"

lemmas tag_defs = tagNaN_def tagUndefined_def tagNull_def tagBoolean_def tagInt32_def
  tagTDZ_def tagReturn_def tagGlobalTombstone_def tagPointer_def ptrMask_def topMask_def

definition Undefined :: val where "Undefined = tagUndefined"
definition Null :: val where "Null = tagNull"
definition VTrue :: val where "VTrue = tagBoolean OR 1"
definition VFalse :: val where "VFalse = tagBoolean OR 0"

text \<open>\<open>math.IsNaN\<close>, read off the pattern: exponent all ones and a mantissa that is not zero.\<close>

definition isNaNbits :: "u64 \<Rightarrow> bool" where
  "isNaNbits w \<longleftrightarrow> w AND 0x7FF0000000000000 = 0x7FF0000000000000 \<and> w AND 0x000FFFFFFFFFFFFF \<noteq> 0"

section \<open>Constructors\<close>

definition Number :: "u64 \<Rightarrow> val" where
  "Number f = (if isNaNbits f then tagNaN else f)"

definition IntV :: "u32 \<Rightarrow> val" where
  "IntV i = tagInt32 OR ucast i"

definition BoolV :: "bool \<Rightarrow> val" where
  "BoolV b = (if b then VTrue else VFalse)"

section \<open>Handles\<close>

definition NoHandle :: handle where "NoHandle = 0"

definition rootGenBit :: u16 where "rootGenBit = 0x8000"
definition maxLocalGen :: u16 where "maxLocalGen = rootGenBit - 1"

definition makeHandle :: "u32 \<Rightarrow> u16 \<Rightarrow> handle" where
  "makeHandle index gen = ucast index OR push_bit 32 (ucast gen)"

definition hIndex :: "handle \<Rightarrow> u32" where
  "hIndex h = ucast h"

definition hGen :: "handle \<Rightarrow> u16" where
  "hGen h = ucast (drop_bit 32 h)"

definition hIsRoot :: "handle \<Rightarrow> bool" where
  "hIsRoot h \<longleftrightarrow> h \<noteq> NoHandle \<and> hGen h AND rootGenBit \<noteq> 0"

definition tagRoot :: "handle \<Rightarrow> handle" where
  "tagRoot h = (if h = NoHandle then NoHandle else makeHandle (hIndex h) (hGen h OR rootGenBit))"

definition stripRoot :: "handle \<Rightarrow> handle" where
  "stripRoot h = (if h = NoHandle then NoHandle
     else makeHandle (hIndex h) (hGen h AND NOT rootGenBit))"

definition nextGen :: "u16 \<Rightarrow> u16" where
  "nextGen g = (if maxLocalGen \<le> g then maxLocalGen
     else let g' = g + 1 in if g' = 0 \<or> maxLocalGen \<le> g' then maxLocalGen else g')"

definition ObjectValue :: "handle \<Rightarrow> val" where
  "ObjectValue h = (if h = NoHandle then Null else tagPointer OR (h AND ptrMask))"

section \<open>Tag tests and projections\<close>

definition IsUndefined :: "val \<Rightarrow> bool" where "IsUndefined v \<longleftrightarrow> v = Undefined"
definition IsNull :: "val \<Rightarrow> bool" where "IsNull v \<longleftrightarrow> v = Null"
definition IsBool :: "val \<Rightarrow> bool" where "IsBool v \<longleftrightarrow> v AND topMask = tagBoolean"
definition IsInt :: "val \<Rightarrow> bool" where "IsInt v \<longleftrightarrow> v AND topMask = tagInt32"
definition IsPointer :: "val \<Rightarrow> bool" where "IsPointer v \<longleftrightarrow> v AND topMask = tagPointer"

definition IsNumber :: "val \<Rightarrow> bool" where
  "IsNumber v \<longleftrightarrow> (if IsInt v then True else v AND tagNaN \<noteq> tagNaN \<or> v = tagNaN)"

definition valHandle :: "val \<Rightarrow> handle" where
  "valHandle v = (if \<not> IsPointer v then NoHandle else v AND ptrMask)"

definition tagRootValue :: "val \<Rightarrow> val" where
  "tagRootValue v = (if \<not> IsPointer v then v else ObjectValue (tagRoot (valHandle v)))"

text \<open>
  \<open>ToInt\<close>.  Go rounds a double towards zero; it leaves the result to the implementation when the
  rounded number is out of range, and here the 32 low bits of the rounded number stand for it.
\<close>

definition truncDouble :: "u64 \<Rightarrow> int" where
  "truncDouble f =
     (let e = uint (drop_bit 52 f AND 0x7FF); m = uint (f AND 0xFFFFFFFFFFFFF) + 2 ^ 52;
          n = (if e < 1023 then 0 else if e \<le> 1075 then m div 2 ^ nat (1075 - e) else m * 2 ^ nat (e - 1075))
      in if bit f 63 then - n else n)"

definition ToInt :: "val \<Rightarrow> u32" where
  "ToInt v = (if IsInt v then ucast v else if IsNumber v then word_of_int (truncDouble v) else 0)"

text \<open>
  \<open>ToBool\<close>.  On a double, \<open>f != 0 && !math.IsNaN(f)\<close> holds exactly when the pattern without
  its sign bit is not zero and the pattern is not a NaN.
\<close>

definition ToBool :: "val \<Rightarrow> bool" where
  "ToBool v =
     (if IsBool v then v AND 1 = 1
      else if IsInt v then ToInt v \<noteq> 0
      else if IsNumber v then v AND 0x7FFFFFFFFFFFFFFF \<noteq> 0 \<and> \<not> isNaNbits v
      else if IsUndefined v \<or> IsNull v then False
      else True)"

section \<open>Bit-level facts\<close>

lemma mask_numerals: "ptrMask = mask 48" "topMask = push_bit 48 (mask 16)"
  by (simp_all add: tag_defs mask_numeral)

lemma and_chain:
  fixes v :: u64
  assumes "v AND a = t" "a AND b = b"
  shows "v AND b = t AND b"
  using assms by (metis and.assoc)

lemma top_tagNaN: "v AND topMask = t \<Longrightarrow> v AND tagNaN = t AND tagNaN"
  by (rule and_chain, assumption) code_simp

lemma top_exponent:
  "v AND topMask = t \<Longrightarrow> v AND 0x7FF0000000000000 = t AND 0x7FF0000000000000"
  by (rule and_chain, assumption) code_simp

lemma top_quiet:
  "v AND topMask = t \<Longrightarrow> v AND 0x0008000000000000 = t AND 0x0008000000000000"
  by (rule and_chain, assumption) code_simp

lemma isNaNbits_tagged:
  assumes "v AND topMask = t" "t AND 0x7FF8000000000000 = 0x7FF8000000000000"
  shows "isNaNbits v"
proof -
  have t: "t AND 0x7FF0000000000000 = 0x7FF0000000000000"
      "t AND 0x0008000000000000 = 0x0008000000000000"
    using and_chain [OF assms(2), of "0x7FF0000000000000"]
      and_chain [OF assms(2), of "0x0008000000000000"] by simp_all
  have "v AND 0x000FFFFFFFFFFFFF \<noteq> 0"
  proof
    assume "v AND 0x000FFFFFFFFFFFFF = 0"
    then have "v AND 0x0008000000000000 = 0"
      using and_chain [of v "0x000FFFFFFFFFFFFF" 0 "0x0008000000000000"] by simp
    with top_quiet [OF assms(1)] t show False by simp
  qed
  with top_exponent [OF assms(1)] t show ?thesis by (simp add: isNaNbits_def)
qed

lemma isNaNbits_kinds:
  "IsBool v \<Longrightarrow> isNaNbits v" "IsInt v \<Longrightarrow> isNaNbits v" "IsPointer v \<Longrightarrow> isNaNbits v"
  by (auto simp: IsBool_def IsInt_def IsPointer_def intro!: isNaNbits_tagged)
    code_simp+

lemma tag_or_payload:
  fixes t p :: u64
  assumes "t AND topMask = t" "p AND topMask = 0"
  shows "(t OR p) AND topMask = t"
  using assms by (simp add: bit.conj_disj_distrib2)

lemma ptrMask_topMask: "(w AND ptrMask) AND topMask = 0"
proof -
  have "ptrMask AND topMask = 0" by code_simp
  then show ?thesis by (simp add: and.assoc)
qed

lemma ucast32_topMask: "(ucast (i :: u32) :: u64) AND topMask = 0"
  by (rule bit_word_eqI) (auto simp: bit_simps mask_numerals dest: bit_imp_le_length)

section \<open>Handle facts\<close>

lemma hIndex_makeHandle [simp]: "hIndex (makeHandle i g) = i"
  unfolding hIndex_def makeHandle_def by (rule bit_word_eqI) (simp add: bit_simps)

lemma hGen_makeHandle [simp]: "hGen (makeHandle i g) = g"
  unfolding hGen_def makeHandle_def
  by (rule bit_word_eqI) (auto simp add: bit_simps not_less dest: bit_imp_le_length)

lemma makeHandle_48 [simp]: "makeHandle i g AND ptrMask = makeHandle i g"
  unfolding makeHandle_def mask_numerals
  by (rule bit_word_eqI) (auto simp add: bit_simps dest: bit_imp_le_length)

lemma makeHandle_eta: "h AND ptrMask = h \<Longrightarrow> makeHandle (hIndex h) (hGen h) = h"
proof (rule bit_word_eqI)
  fix n assume h: "h AND ptrMask = h" and n: "n < LENGTH(64)"
  have "bit h n \<Longrightarrow> n < 48"
    using h by (metis bit_and_iff bit_mask_iff mask_numerals(1))
  with n show "bit (makeHandle (hIndex h) (hGen h)) n = bit h n"
    by (auto simp: makeHandle_def hIndex_def hGen_def bit_simps)
qed

lemma makeHandle_inject: "makeHandle i g = makeHandle j k \<longleftrightarrow> i = j \<and> g = k"
  by (metis hGen_makeHandle hIndex_makeHandle)

lemma NoHandle_make: "makeHandle i g = NoHandle \<longleftrightarrow> i = 0 \<and> g = 0"
proof -
  have "makeHandle 0 0 = NoHandle" by (simp add: makeHandle_def NoHandle_def)
  then show ?thesis by (metis makeHandle_inject)
qed

lemma rootGenBit_bit: "bit rootGenBit n \<longleftrightarrow> n = 15"
proof -
  have "rootGenBit = push_bit 15 1" by (simp add: rootGenBit_def)
  then have "bit rootGenBit n = bit (push_bit 15 1 :: u16) n" by simp
  also have "\<dots> \<longleftrightarrow> n = 15" by (auto simp del: push_bit_of_1 simp: bit_simps)
  finally show ?thesis .
qed

lemma topMask_idem: "tagPointer AND topMask = tagPointer" "tagInt32 AND topMask = tagInt32"
  "tagBoolean AND topMask = tagBoolean"
  by code_simp+

lemma IsPointer_ObjectValue: "h \<noteq> NoHandle \<Longrightarrow> IsPointer (ObjectValue h)"
  unfolding ObjectValue_def IsPointer_def
  by (simp add: tag_or_payload topMask_idem ptrMask_topMask)

lemma not_IsPointer_Null [simp]: "\<not> IsPointer Null"
  by code_simp

lemma valHandle_ObjectValue:
  assumes "h AND ptrMask = h"
  shows "valHandle (ObjectValue h) = h"
proof (cases "h = NoHandle")
  case True
  then show ?thesis by (simp add: valHandle_def ObjectValue_def)
next
  case False
  have "tagPointer AND ptrMask = 0" by code_simp
  then have "(tagPointer OR h) AND ptrMask = h"
    using assms by (simp add: bit.conj_disj_distrib2)
  with False assms show ?thesis
    using IsPointer_ObjectValue [OF False] by (simp add: valHandle_def ObjectValue_def)
qed

lemma hIsRoot_makeHandle: "hIsRoot (makeHandle i g) \<longleftrightarrow> g AND rootGenBit \<noteq> 0"
proof -
  have "makeHandle i g = NoHandle \<Longrightarrow> g AND rootGenBit = 0"
    by (simp add: NoHandle_make)
  then show ?thesis by (auto simp: hIsRoot_def)
qed

lemma rootGenBit_nonzero [simp]: "rootGenBit \<noteq> 0"
  by (simp add: rootGenBit_def)

lemma and_rootGenBit: "g AND rootGenBit = (if bit g 15 then rootGenBit else 0)"
  by (rule bit_word_eqI) (auto simp: bit_simps rootGenBit_bit)

lemma and_rootGenBit_zero: "g AND rootGenBit = 0 \<longleftrightarrow> \<not> bit g 15"
  unfolding and_rootGenBit by (simp add: rootGenBit_def)

lemma or_rootGenBit_nonzero: "(g OR rootGenBit) AND rootGenBit \<noteq> 0"
  by (simp add: and_rootGenBit_zero bit_or_iff rootGenBit_bit)

lemma and_not_rootGenBit: "g AND NOT rootGenBit AND rootGenBit = 0"
  by (simp add: and_rootGenBit_zero bit_simps rootGenBit_bit)

lemma small_gen_no_root: "g \<le> maxLocalGen \<Longrightarrow> g AND rootGenBit = 0"
proof (rule ccontr)
  assume g: "g \<le> maxLocalGen" and "g AND rootGenBit \<noteq> 0"
  then have "g AND rootGenBit = rootGenBit" by (metis and_rootGenBit)
  then have "rootGenBit \<le> g" by (metis word_and_le2)
  with g show False by (simp add: maxLocalGen_def rootGenBit_def word_le_nat_alt)
qed

section \<open>Properties\<close>

text \<open>
  C20. No double can be mistaken for anything else: whatever 64 bits the float has, the value
  \<open>Number\<close> builds is a number and is not a reference, an integer, a boolean, undefined,
  null or one of the internal sentinels.  In particular a negative NaN, whose pattern could
  collide with the reference tag, is canonicalised.
\<close>

theorem Number_only_number:
  "IsNumber (Number f) \<and> \<not> IsPointer (Number f) \<and> \<not> IsInt (Number f) \<and> \<not> IsBool (Number f)
   \<and> Number f \<notin> {Undefined, Null, tagTDZ, tagReturn, tagGlobalTombstone}"
proof (cases "isNaNbits f")
  case True
  then have "Number f = tagNaN" by (simp add: Number_def)
  moreover have "IsNumber tagNaN \<and> \<not> IsPointer tagNaN \<and> \<not> IsInt tagNaN \<and> \<not> IsBool tagNaN
      \<and> tagNaN \<notin> {Undefined, Null, tagTDZ, tagReturn, tagGlobalTombstone}"
    by code_simp
  ultimately show ?thesis by simp
next
  case False
  then have f: "Number f = f" by (simp add: Number_def)
  have "f AND tagNaN \<noteq> tagNaN"
  proof
    assume "f AND tagNaN = tagNaN"
    then have "f AND 0x7FF0000000000000 = tagNaN AND 0x7FF0000000000000"
      and "f AND 0x0008000000000000 = tagNaN AND 0x0008000000000000"
      by (rule and_chain, code_simp)+
    moreover have "f AND 0x000FFFFFFFFFFFFF = 0 \<Longrightarrow> f AND 0x0008000000000000 = 0"
      using and_chain [of f "0x000FFFFFFFFFFFFF" 0 "0x0008000000000000"] by simp
    ultimately have "isNaNbits f"
      by (auto simp: isNaNbits_def tagNaN_def)
    with False show False by contradiction
  qed
  moreover have "t AND tagNaN = tagNaN"
    if "t \<in> {Undefined, Null, tagTDZ, tagReturn, tagGlobalTombstone}" for t
  proof -
    have "\<forall>t \<in> {Undefined, Null, tagTDZ, tagReturn, tagGlobalTombstone}. t AND tagNaN = tagNaN"
      by code_simp
    with that show ?thesis by blast
  qed
  ultimately show ?thesis
    using False isNaNbits_kinds f by (auto simp: IsNumber_def)
qed

text \<open>
  Object references survive the encoding: a handle built from any 32-bit index and any
  16-bit generation is read back unchanged from the tagged value, its two fields are read
  back unchanged from the handle, and two handles are equal only if both fields are.
\<close>

theorem handle_roundtrip:
  "valHandle (ObjectValue (makeHandle i g)) = makeHandle i g
   \<and> hIndex (makeHandle i g) = i \<and> hGen (makeHandle i g) = g
   \<and> (makeHandle i g = makeHandle j k \<longleftrightarrow> i = j \<and> g = k)
   \<and> (IsPointer (ObjectValue (makeHandle i g)) \<longleftrightarrow> makeHandle i g \<noteq> NoHandle)"
  using IsPointer_ObjectValue [of "makeHandle i g"]
  by (auto simp: valHandle_ObjectValue makeHandle_inject) (simp add: ObjectValue_def)


text \<open>
  The root-realm bit is a reversible mark on local handles: tagging a local handle other
  than the empty one makes it a root handle with the same index, tagging again changes
  nothing, and stripping gives the local handle back.
\<close>

theorem tagRoot_roundtrip:
  assumes "g \<le> maxLocalGen" and "makeHandle i g \<noteq> NoHandle"
  shows "hIsRoot (tagRoot (makeHandle i g)) \<and> \<not> hIsRoot (makeHandle i g)
    \<and> hIndex (tagRoot (makeHandle i g)) = i
    \<and> tagRoot (tagRoot (makeHandle i g)) = tagRoot (makeHandle i g)
    \<and> stripRoot (tagRoot (makeHandle i g)) = makeHandle i g"
proof -
  have g: "g AND rootGenBit = 0" by (rule small_gen_no_root) fact
  have or_ne: "g OR rootGenBit \<noteq> 0"
    using or_rootGenBit_nonzero [of g] by force
  from g have "\<not> bit g 15" by (simp only: and_rootGenBit_zero not_False_eq_True)
  then have "(g OR rootGenBit) AND NOT rootGenBit = g"
    by (intro bit_word_eqI) (auto simp: bit_simps rootGenBit_bit)
  moreover have ne: "tagRoot (makeHandle i g) = makeHandle i (g OR rootGenBit)"
    using assms(2) by (simp add: tagRoot_def)
  moreover have "makeHandle i (g OR rootGenBit) \<noteq> NoHandle"
    using or_ne by (simp add: NoHandle_make)
  ultimately show ?thesis
    using g or_rootGenBit_nonzero [of g]
    by (simp add: hIsRoot_makeHandle stripRoot_def)
      (simp add: tagRoot_def or.assoc)
qed

theorem tagRoot_roundtrip_witness:
  "(3::u16) \<le> maxLocalGen \<and> makeHandle 7 3 \<noteq> NoHandle
   \<and> stripRoot (tagRoot (makeHandle 7 3)) = makeHandle 7 3"
proof -
  have h: "(3::u16) \<le> maxLocalGen" "makeHandle 7 3 \<noteq> NoHandle" by code_simp+
  show ?thesis using h tagRoot_roundtrip [OF h] by simp
qed

lemma nextGen_less: "g < maxLocalGen \<Longrightarrow> g < nextGen g"
  and nextGen_le: "nextGen g \<le> maxLocalGen"
proof -
  have max: "unat maxLocalGen = 32767"
    by (simp add: maxLocalGen_def rootGenBit_def)
  show "nextGen g \<le> maxLocalGen" by (auto simp: nextGen_def Let_def)
  assume g: "g < maxLocalGen"
  then have "unat (g + 1) = unat g + 1"
    using max by (simp add: word_less_nat_alt unat_word_ariths)
  with g show "g < nextGen g"
    by (auto simp: nextGen_def Let_def word_less_nat_alt word_le_nat_alt)
qed

lemma nextGen_saturated: "maxLocalGen \<le> g \<Longrightarrow> nextGen g = maxLocalGen"
  by (simp add: nextGen_def)

end
