(* ===== verification/HeapModel.thy ===== *)
theory HeapModel
  imports Prelude NanValue "HOL-Library.Monad_Syntax"
begin

text \<open>
  The engine heap, \<open>pkg/js55/engine/heap.go\<close> with the cloning half of \<open>root_realm.go\<close>: the
  object record, the heap's state, handle resolution, allocation with slot recycling, explicit
  roots, the value stack, copy-on-write of root-realm objects and the recycling reset.

  Objects live in numbered slots; a handle packs a slot index and the generation the slot had
  when it was issued.  Pointers to things the heap only carries (shapes, chunks, strings,
  finders) are numbers.  The quota callback \<open>QuotaTracker\<close> is the parameter \<open>tr\<close>: it takes
  the signed number of bytes and the callback's state, kept in the heap record, and says
  whether the charge is accepted; a refused charge is a panic, the value \<open>None\<close> here.  Roots
  that scanners and the bound interpreter enumerate are the field \<open>extRoots\<close>.
\<close>

section \<open>Objects\<close>

datatype objKind = KindOrdinary | KindArray | KindFunction | KindStringObject | KindError
  | KindString | KindEnv | KindMap | KindSet | KindRegExp | KindPromise | KindProxy | KindBigInt
  | KindGenerator | KindAccessor | KindWeakMap | KindSymbol | KindArguments

record mapData =
  mapKeys :: "val list"
  mapValues :: "val list"

record promiseReaction =
  onFulfilled :: val
  onRejected :: val
  reactionChild :: val

datatype promiseState = PromisePending | PromiseFulfilled | PromiseRejected

record promiseData =
  promiseSt :: promiseState
  promiseResult :: val
  promiseReactions :: "promiseReaction list"
  promiseSettled :: bool

record genState =
  genIp :: int
  genStack :: "val list"
  genThis :: val
  genDelegate :: val
  genSent :: val
  genStarted :: bool
  genDone :: bool
  genDelegated :: bool
  genThrowing :: bool
  genReturning :: bool

record object =
  okind :: objKind
  marked :: bool
  oshape :: "nat option"
  slots :: "val list"
  elements :: "val list"
  typedName :: gostring
  obytes :: "byte list"
  arrayBuffer :: bool
  resizable :: bool
  maxByteLength :: int
  byteOffset :: int
  typedLength :: int
  lengthTracking :: bool
  proto :: handle
  otext :: "nat option"
  ofn :: "nat option"
  homeObject :: handle
  oenv :: handle
  omap :: "mapData option"
  oset :: "val list option"
  oregexp :: "nat option"
  opromise :: "promiseData option"
  oproxy :: "(val \<times> val) option"
  bigInt :: int
  prim :: val
  ogen :: "genState option"
  frozen :: bool
  isRoot :: bool
  deleted :: "nat list"
  attrs :: "byte list"

text \<open>The zero value of the struct, as composite literals leave unnamed fields.\<close>

definition zeroObject :: object where
  "zeroObject = \<lparr>okind = KindOrdinary, marked = False, oshape = None, slots = [], elements = [],
     typedName = [], obytes = [], arrayBuffer = False, resizable = False, maxByteLength = 0,
     byteOffset = 0, typedLength = 0, lengthTracking = False, proto = NoHandle, otext = None,
     ofn = None, homeObject = NoHandle, oenv = NoHandle, omap = None, oset = None, oregexp = None,
     opromise = None, oproxy = None, bigInt = 0, prim = 0, ogen = None, frozen = False,
     isRoot = False, deleted = [], attrs = []\<rparr>"

definition attrWritable :: byte where "attrWritable = 1"
definition attrEnumerable :: byte where "attrEnumerable = 2"
definition attrConfigurable :: byte where "attrConfigurable = 4"
definition attrDefault :: byte where
  "attrDefault = attrWritable OR attrEnumerable OR attrConfigurable"

definition slotAttr :: "object \<Rightarrow> nat \<Rightarrow> byte" where
  "slotAttr o' i = (if i \<ge> length (attrs o') then attrDefault else attrs o' ! i)"

definition ensureAttrs :: "object \<Rightarrow> object" where
  "ensureAttrs o' =
     o'\<lparr>attrs := attrs o' @ replicate (length (slots o') - length (attrs o')) attrDefault\<rparr>"

definition objectCharge :: "object \<Rightarrow> int" where
  "objectCharge o' = 96 + int (length (slots o')) * 8 + int (length (elements o')) * 8
     + int (length (obytes o')) + int (length (attrs o'))
     + (case omap o' of None \<Rightarrow> 0 | Some m \<Rightarrow> int (length (mapKeys m) + length (mapValues m)) * 8)
     + (case oset o' of None \<Rightarrow> 0 | Some s \<Rightarrow> int (length s) * 8)"

definition cloneObject :: "object \<Rightarrow> object" where
  "cloneObject src = src\<lparr>isRoot := False, marked := False\<rparr>"

section \<open>The heap\<close>

text \<open>The frozen root realm's heap, as far as isolates read it.\<close>

record realm =
  realmObjs :: "object option list"
  realmGens :: "u16 list"

record 'q heap =
  objs :: "object option list"
  gens :: "u16 list"
  freeSlots :: "nat list"
  roots :: "nat list"
  hostCell :: "nat \<Rightarrow> val"
  vstack :: "val list"
  extRoots :: "val list"
  rootShape :: nat
  stress :: bool
  allocs :: nat
  threshold :: nat
  Collections :: nat
  Swept :: nat
  quota :: 'q
  objectProto :: handle
  arrayProto :: handle
  functionProto :: handle
  realmOf :: "realm option"
  cowMap :: "(handle \<times> handle) list"
  buildingRoot :: bool
  sealedRoot :: bool

type_synonym 'q tracker = "int \<Rightarrow> 'q \<Rightarrow> 'q \<times> bool"

definition NewHeap :: "'q \<Rightarrow> 'q heap" where
  "NewHeap q = \<lparr>objs = [None], gens = [0], freeSlots = [], roots = [], hostCell = (\<lambda>_. Undefined),
     vstack = [], extRoots = [], rootShape = 0, stress = False, allocs = 0, threshold = 1024,
     Collections = 0, Swept = 0, quota = q, objectProto = NoHandle, arrayProto = NoHandle,
     functionProto = NoHandle, realmOf = None, cowMap = [], buildingRoot = False,
     sealedRoot = False\<rparr>"

definition SetStress :: "bool \<Rightarrow> 'q heap \<Rightarrow> 'q heap" where
  "SetStress v hp = hp\<lparr>stress := v\<rparr>"

definition Live :: "'q heap \<Rightarrow> int" where
  "Live hp = int (length (objs hp)) - 1 - int (length (freeSlots hp))"

definition TrackAlloc :: "'q tracker \<Rightarrow> int \<Rightarrow> 'q heap \<Rightarrow> 'q heap option" where
  "TrackAlloc tr n hp =
     (if n > 0 then (case tr n (quota hp) of (q, ok) \<Rightarrow> if ok then Some (hp\<lparr>quota := q\<rparr>) else None)
      else Some hp)"

definition TrackFree :: "'q tracker \<Rightarrow> int \<Rightarrow> 'q heap \<Rightarrow> 'q heap" where
  "TrackFree tr n hp = (if n > 0 then hp\<lparr>quota := fst (tr (- n) (quota hp))\<rparr> else hp)"

section \<open>Resolving handles\<close>

text \<open>
  The common part of \<open>getLocal\<close> once the root bit is dealt with; \<open>strip\<close> says that the slot's
  generation is compared without its root bit (a heap that is, or will be, the root realm).
\<close>

definition slotAt :: "object option list \<Rightarrow> u16 list \<Rightarrow> bool \<Rightarrow> handle \<Rightarrow> object option" where
  "slotAt os gs strip h =
     (let i = unat (hIndex h) in
      if i = 0 \<or> i \<ge> length os then None
      else if (if strip then gs ! i AND NOT rootGenBit else gs ! i) \<noteq> hGen h then None
      else os ! i)"

definition getLocal :: "'q heap \<Rightarrow> handle \<Rightarrow> object option" where
  "getLocal hp h =
     (let rootView = sealedRoot hp \<or> buildingRoot hp in
      if h = NoHandle then None
      else if hIsRoot h \<and> \<not> rootView then None
      else slotAt (objs hp) (gens hp) rootView (if hIsRoot h then stripRoot h else h))"

definition realmGet :: "realm \<Rightarrow> handle \<Rightarrow> object option" where
  "realmGet r h =
     (if h = NoHandle then None
      else slotAt (realmObjs r) (realmGens r) True (if hIsRoot h then stripRoot h else h))"

definition Get :: "'q heap \<Rightarrow> handle \<Rightarrow> object option" where
  "Get hp h =
     (if h = NoHandle then None
      else if hIsRoot h \<and> \<not> sealedRoot hp \<and> \<not> buildingRoot hp then
        (case map_of (cowMap hp) (stripRoot h) of
           Some local \<Rightarrow> getLocal hp local
         | None \<Rightarrow> (case realmOf hp of Some r \<Rightarrow> realmGet r h | None \<Rightarrow> None))
      else getLocal hp h)"

section \<open>Roots and the value stack\<close>

definition AddRoot :: "nat \<Rightarrow> 'q heap \<Rightarrow> 'q heap" where
  "AddRoot v hp = hp\<lparr>roots := roots hp @ [v]\<rparr>"

definition RemoveRoot :: "nat \<Rightarrow> 'q heap \<Rightarrow> 'q heap" where
  "RemoveRoot v hp = hp\<lparr>roots := remove1 v (roots hp)\<rparr>"

text \<open>The value stack is kept with its top last, as the slice is.\<close>

definition Push :: "val \<Rightarrow> 'q heap \<Rightarrow> 'q heap" where
  "Push v hp = hp\<lparr>vstack := vstack hp @ [v]\<rparr>"

definition Pop :: "'q heap \<Rightarrow> val \<times> 'q heap" where
  "Pop hp = (if vstack hp = [] then (Undefined, hp)
     else (last (vstack hp), hp\<lparr>vstack := butlast (vstack hp)\<rparr>))"

definition StackLen :: "'q heap \<Rightarrow> nat" where
  "StackLen hp = length (vstack hp)"

definition TruncateStack :: "int \<Rightarrow> 'q heap \<Rightarrow> 'q heap" where
  "TruncateStack n hp =
     (let m = (if n < 0 then 0 else n)
      in if m < int (length (vstack hp)) then hp\<lparr>vstack := take (nat m) (vstack hp)\<rparr> else hp)"

section \<open>Recycling\<close>

definition DiscardCow :: "'q heap \<Rightarrow> 'q heap" where
  "DiscardCow hp = hp\<lparr>cowMap := []\<rparr>"

definition updObj :: "nat \<Rightarrow> (object \<Rightarrow> object) \<Rightarrow> 'q heap \<Rightarrow> 'q heap" where
  "updObj i f hp = hp\<lparr>objs := (objs hp)[i := map_option f (objs hp ! i)]\<rparr>"

text \<open>The local slot a handle names once \<open>getLocal\<close> has accepted it.\<close>

definition slotOf :: "handle \<Rightarrow> nat" where
  "slotOf h = unat (hIndex h)"

definition ResetGlobalShell :: "handle \<Rightarrow> 'q heap \<Rightarrow> 'q heap" where
  "ResetGlobalShell g hp =
     (if getLocal hp g = None then hp
      else updObj (slotOf g)
        (\<lambda>o'. o'\<lparr>slots := [], elements := [], attrs := [], deleted := [], oshape := Some (rootShape hp),
           frozen := False, isRoot := False,
           proto := (if objectProto hp \<noteq> NoHandle then objectProto hp else proto o')\<rparr>) hp)"

fun resetSlots :: "nat \<Rightarrow> handle \<Rightarrow> nat list \<Rightarrow> 'q heap \<Rightarrow> 'q heap" where
  "resetSlots gIdx g [] hp = hp"
| "resetSlots gIdx g (i # is) hp =
     (if i = gIdx then resetSlots gIdx g is (ResetGlobalShell g hp)
      else resetSlots gIdx g is
        (hp\<lparr>gens := (if i < length (gens hp) then (gens hp)[i := nextGen (gens hp ! i)] else gens hp),
            objs := (objs hp)[i := None]\<rparr>))"

definition ResetLocal :: "handle \<Rightarrow> 'q heap \<Rightarrow> 'q heap" where
  "ResetLocal globalObj hp =
     (let h1 = (DiscardCow (TruncateStack 0 hp))\<lparr>roots := [], freeSlots := []\<rparr>;
          gIdx = slotOf globalObj;
          h2 = resetSlots gIdx globalObj [1 ..< length (objs h1)] h1;
          h3 = (if gIdx < length (objs h2) then h2\<lparr>objs := take (gIdx + 1) (objs h2)\<rparr> else h2)
      in h3\<lparr>allocs := 0\<rparr>)"

end
