(* ===== verification/ObjShape.thy ===== *)
theory ObjShape
  imports InternTable HeapModel
begin

text \<open>
  Shapes, the hidden classes of \<open>pkg/js55/engine/heap.go\<close>.  A shape is a node of a tree: it adds
  one key to its parent, and remembers the shapes it led to.  Shapes are shared by objects and
  mutated in place (the transition table), so they live in a store, a list indexed by the
  addresses that \<open>oshape\<close> holds.  Keys are pointers to interned strings; comparisons by content
  (\<open>Equal\<close>) are read on \<open>units\<close>, which is what \<open>Equal_correct\<close> shows that they return.

  A walk along parents carries fuel, the size of the store; in a well-formed store a parent has
  a smaller address than its children, and the fuel is never used up.
\<close>

section \<open>Shapes\<close>

record shape =
  shParent :: "nat option"
  shKey :: "saddr option"
  shSlot :: nat
  shCount :: nat
  shTrans :: "(saddr option \<times> nat) list"
  shShared :: bool

definition emptyShape :: shape where
  "emptyShape = \<lparr>shParent = None, shKey = None, shSlot = 0, shCount = 0, shTrans = [], shShared = False\<rparr>"

text \<open>The keys and slots met on the way to the root, newest first.\<close>

fun chain :: "shape list \<Rightarrow> nat \<Rightarrow> nat option \<Rightarrow> (saddr \<times> nat) list" where
  "chain S 0 c = []"
| "chain S (Suc n) None = []"
| "chain S (Suc n) (Some i) =
     (case shKey (S ! i) of None \<Rightarrow> [] | Some k \<Rightarrow> (k, shSlot (S ! i)) # chain S n (shParent (S ! i)))"

definition chainOf :: "shape list \<Rightarrow> nat \<Rightarrow> (saddr \<times> nat) list" where
  "chainOf S i = chain S (length S) (Some i)"

text \<open>First by identity, then by content.\<close>

definition ShapeLookup :: "store \<Rightarrow> shape list \<Rightarrow> nat \<Rightarrow> saddr \<Rightarrow> nat option" where
  "ShapeLookup strs S i key =
     (case find (\<lambda>(k, _). k = key) (chainOf S i) of
        Some (_, slot) \<Rightarrow> Some slot
      | None \<Rightarrow> map_option snd (find (\<lambda>(k, _). units strs k = units strs key) (chainOf S i)))"

definition ShapeKeys :: "shape list \<Rightarrow> nat \<Rightarrow> saddr option list" where
  "ShapeKeys S i =
     fold (\<lambda>(k, slot) out. out[slot := Some k]) (chainOf S i) (replicate (shCount (S ! i)) None)"

text \<open>The transition of a shape that is not shared.\<close>

definition ownTransition :: "shape list \<Rightarrow> nat \<Rightarrow> saddr option \<Rightarrow> shape list \<times> nat" where
  "ownTransition S i key =
     (case map_of (shTrans (S ! i)) key of
        Some n \<Rightarrow> (S, n)
      | None \<Rightarrow>
          let n = length S;
              new = \<lparr>shParent = Some i, shKey = key, shSlot = shCount (S ! i),
                     shCount = shCount (S ! i) + 1, shTrans = [], shShared = False\<rparr>
          in (S[i := (S ! i)\<lparr>shTrans := (key, n) # shTrans (S ! i)\<rparr>] @ [new], n))"

definition addKeys :: "saddr option list \<Rightarrow> shape list \<times> nat \<Rightarrow> shape list \<times> nat" where
  "addKeys ks r = fold (\<lambda>k (S, c). ownTransition S c k) ks r"

definition unshare :: "shape list \<Rightarrow> nat \<Rightarrow> shape list \<times> nat" where
  "unshare S i =
     (if \<not> shShared (S ! i) then (S, i) else addKeys (ShapeKeys S i) (S @ [emptyShape], length S))"

definition transition :: "shape list \<Rightarrow> nat \<Rightarrow> saddr option \<Rightarrow> shape list \<times> nat" where
  "transition S i key = (case unshare S i of (S', j) \<Rightarrow> ownTransition S' j key)"

section \<open>Well-formed stores\<close>

definition shape_ok :: "shape list \<Rightarrow> nat \<Rightarrow> bool" where
  "shape_ok S i \<longleftrightarrow>
     (case shParent (S ! i) of
        None \<Rightarrow> shKey (S ! i) = None \<and> shCount (S ! i) = 0
      | Some j \<Rightarrow> j < i \<and> shKey (S ! i) \<noteq> None \<and> shSlot (S ! i) = shCount (S ! j)
          \<and> shCount (S ! i) = Suc (shCount (S ! j)) \<and> shShared (S ! i) = shShared (S ! j))
     \<and> (\<forall>(k, n) \<in> set (shTrans (S ! i)). n < length S \<and> shParent (S ! n) = Some i \<and> shKey (S ! n) = k)"

definition shapes_ok :: "shape list \<Rightarrow> bool" where
  "shapes_ok S \<longleftrightarrow> (\<forall>i < length S. shape_ok S i)"

definition keyList :: "shape list \<Rightarrow> nat \<Rightarrow> saddr list" where
  "keyList S i = rev (map fst (chainOf S i))"

lemma shapes_okD: "shapes_ok S \<Longrightarrow> i < length S \<Longrightarrow> shape_ok S i"
  by (simp add: shapes_ok_def)

lemma shape_parent:
  assumes "shapes_ok S" "i < length S" "shKey (S ! i) = Some k"
  obtains j where "shParent (S ! i) = Some j" "j < i" "shSlot (S ! i) = shCount (S ! j)"
    "shCount (S ! i) = Suc (shCount (S ! j))" "shShared (S ! i) = shShared (S ! j)"
  using shapes_okD [OF assms(1,2)] assms(3) by (auto simp: shape_ok_def split: option.splits)

lemma shape_root: "shapes_ok S \<Longrightarrow> i < length S \<Longrightarrow> shKey (S ! i) = None \<Longrightarrow> shCount (S ! i) = 0"
  using shapes_okD [of S i] by (auto simp: shape_ok_def split: option.splits)

lemma chain_fuel:
  assumes ok: "shapes_ok S"
  shows "i < length S \<Longrightarrow> Suc i \<le> n \<Longrightarrow> chain S n (Some i) = chain S (Suc i) (Some i)"
proof (induction i arbitrary: n rule: less_induct)
  case (less i)
  show ?case
  proof (cases "shKey (S ! i)")
    case (Some k)
    obtain j where j: "shParent (S ! i) = Some j" "j < i"
      using shape_parent [OF ok less(2) Some] by metis
    obtain n' where n: "n = Suc n'" "Suc j \<le> n'" using less(3) j(2) by (cases n) auto
    have "chain S n' (Some j) = chain S (Suc j) (Some j)" "chain S i (Some j) = chain S (Suc j) (Some j)"
      using less(1) [OF j(2)] n(2) j(2) less(2) by auto
    then show ?thesis using n j Some by simp
  qed (use less(3) in \<open>cases n; simp\<close>)
qed

lemma chainOf_unfold:
  assumes ok: "shapes_ok S" and i: "i < length S"
  shows "chainOf S i = (case shKey (S ! i) of
     None \<Rightarrow> [] | Some k \<Rightarrow> (k, shSlot (S ! i)) # chainOf S (the (shParent (S ! i))))"
proof (cases "shKey (S ! i)")
  case None
  then show ?thesis using i by (cases "length S") (auto simp: chainOf_def)
next
  case (Some k)
  obtain j where j: "shParent (S ! i) = Some j" "j < i" using shape_parent [OF ok i Some] by metis
  have "chain S (length S) (Some i) = chain S (Suc i) (Some i)" "chain S (length S) (Some j) = chain S i (Some j)"
    using chain_fuel [OF ok, of i "length S"] chain_fuel [OF ok, of j "length S"] chain_fuel [OF ok, of j i] i j
    by auto
  then show ?thesis using Some j by (simp add: chainOf_def)
qed

lemma keyList_unfold:
  "shapes_ok S \<Longrightarrow> i < length S \<Longrightarrow>
   keyList S i = (case shKey (S ! i) of None \<Rightarrow> [] | Some k \<Rightarrow> keyList S (the (shParent (S ! i))) @ [k])"
  by (subst keyList_def, subst chainOf_unfold) (auto simp: keyList_def split: option.split)

lemma keyList_length: "shapes_ok S \<Longrightarrow> i < length S \<Longrightarrow> length (keyList S i) = shCount (S ! i)"
proof (induction i rule: less_induct)
  case (less i)
  show ?case
  proof (cases "shKey (S ! i)")
    case None
    then show ?thesis using less(2,3) by (simp add: keyList_unfold shape_root)
  next
    case (Some k)
    obtain j where j: "shParent (S ! i) = Some j" "j < i" "shCount (S ! i) = Suc (shCount (S ! j))"
      using shape_parent [OF less(2,3) Some] by metis
    then show ?thesis using less Some by (simp add: keyList_unfold)
  qed
qed

text \<open>The slots of a chain number its keys.\<close>

lemma chainOf_zip: "shapes_ok S \<Longrightarrow> i < length S \<Longrightarrow> chainOf S i = rev (zip (keyList S i) [0 ..< shCount (S ! i)])"
proof (induction i rule: less_induct)
  case (less i)
  show ?case
  proof (cases "shKey (S ! i)")
    case None
    then show ?thesis using less(2,3) by (simp add: chainOf_unfold shape_root)
  next
    case (Some k)
    obtain j where j: "shParent (S ! i) = Some j" "j < i" "shCount (S ! i) = Suc (shCount (S ! j))"
        "shSlot (S ! i) = shCount (S ! j)"
      using shape_parent [OF less(2,3) Some] by metis
    have "chainOf S j = rev (zip (keyList S j) [0 ..< shCount (S ! j)])" using less j by simp
    moreover have "length (keyList S j) = shCount (S ! j)" using less j by (simp add: keyList_length)
    ultimately show ?thesis using less(2,3) Some j by (simp add: chainOf_unfold [of S i] keyList_unfold [of S i])
  qed
qed

lemma ShapeKeys_keyList:
  assumes "shapes_ok S" "i < length S"
  shows "ShapeKeys S i = map Some (keyList S i)"
proof -
  have fill: "fold (\<lambda>(k, slot) out. out[slot := Some k]) (rev (zip ks [a ..< a + length ks])) out
      = take a out @ map Some ks @ drop (a + length ks) out"
    if "a + length ks \<le> length out" for ks :: "saddr list" and a and out :: "saddr option list"
    using that
  proof (induction ks arbitrary: out rule: rev_induct)
    case (snoc k ks)
    let ?n = "a + length ks"
    have "zip (ks @ [k]) [a ..< a + length (ks @ [k])] = zip ks [a ..< ?n] @ [(k, ?n)]" by simp
    then have "fold (\<lambda>(k, slot) out. out[slot := Some k]) (rev (zip (ks @ [k]) [a ..< a + length (ks @ [k])])) out
        = take a (out[?n := Some k]) @ map Some ks @ drop ?n (out[?n := Some k])"
      using snoc by simp
    also have "drop ?n (out[?n := Some k]) = Some k # drop (Suc ?n) out"
      using snoc.prems by (subst Cons_nth_drop_Suc [symmetric]) simp_all
    also have "take a (out[?n := Some k]) @ map Some ks @ Some k # drop (Suc ?n) out
        = take a out @ map Some (ks @ [k]) @ drop (a + length (ks @ [k])) out" by simp
    finally show ?case .
  qed simp
  have "length (keyList S i) = shCount (S ! i)" by (rule keyList_length [OF assms])
  then show ?thesis
    using fill [of 0 "keyList S i" "replicate (shCount (S ! i)) None"]
    by (simp add: ShapeKeys_def chainOf_zip [OF assms])
qed

section \<open>Lookup\<close>

lemma find_unique: "x \<in> set xs \<Longrightarrow> P x \<Longrightarrow> (\<And>y. y \<in> set xs \<Longrightarrow> P y \<Longrightarrow> y = x) \<Longrightarrow> find P xs = Some x"
proof (induction xs)
  case (Cons z xs)
  show ?case
  proof (cases "P z")
    case True
    then have "z = x" by (intro Cons.prems(3)) simp_all
    then show ?thesis using True by simp
  next
    case False
    then have "x \<in> set xs" using Cons.prems(1,2) by auto
    then have "find P xs = Some x" by (rule Cons.IH [OF _ Cons.prems(2) Cons.prems(3)]) simp
    then show ?thesis using False by simp
  qed
qed simp

lemma distinct_map_nth:
  "distinct (map f ks) \<Longrightarrow> i < length ks \<Longrightarrow> j < length ks \<Longrightarrow> f (ks ! i) = f (ks ! j) \<Longrightarrow> i = j"
  by (metis length_map nth_eq_iff_index_eq nth_map)

lemma find_rev_zip:
  assumes d: "distinct (map f ks)" and j: "j < length ks"
  shows "find (\<lambda>(k, _). f k = f (ks ! j)) (rev (zip ks [0 ..< length ks])) = Some (ks ! j, j)"
proof (rule find_unique)
  show "(ks ! j, j) \<in> set (rev (zip ks [0 ..< length ks]))" using j by (auto simp: set_zip)
  fix y assume "y \<in> set (rev (zip ks [0 ..< length ks]))" "case y of (k, _) \<Rightarrow> f k = f (ks ! j)"
  then obtain i where i: "i < length ks" "y = (ks ! i, i)" "f (ks ! i) = f (ks ! j)" by (auto simp: set_zip)
  have "i = j" by (rule distinct_map_nth [OF d i(1) j i(3)])
  then show "y = (ks ! j, j)" using i(2) by simp
qed simp

lemma find_hit: "find P xs = Some x \<Longrightarrow> x \<in> set xs \<and> P x"
  by (induction xs) (auto split: if_splits)

text \<open>With keys of distinct content, a lookup is by content, whichever test hits.\<close>

lemma ShapeLookup_content:
  assumes ok: "shapes_ok S" "i < length S" and d: "distinct (map (units strs) (keyList S i))"
  shows "ShapeLookup strs S i key = Some j \<longleftrightarrow> j < shCount (S ! i) \<and> units strs (keyList S i ! j) = units strs key"
proof -
  let ?ks = "keyList S i"
  have len: "length ?ks = shCount (S ! i)" by (rule keyList_length [OF ok])
  have ch: "chainOf S i = rev (zip ?ks [0 ..< length ?ks])" using chainOf_zip [OF ok] len by simp
  show ?thesis
  proof (cases "\<exists>m < length ?ks. units strs (?ks ! m) = units strs key")
    case True
    then obtain m where m: "m < length ?ks" "units strs (?ks ! m) = units strs key" by blast
    have content: "find (\<lambda>(k, _). units strs k = units strs key) (chainOf S i) = Some (?ks ! m, m)"
      unfolding ch using find_rev_zip [OF d m(1)] m(2) by simp
    have "ShapeLookup strs S i key = Some m"
    proof (cases "find (\<lambda>(k, _). k = key) (chainOf S i)")
      case None
      then show ?thesis by (simp add: ShapeLookup_def content)
    next
      case (Some x)
      then have "x \<in> set (chainOf S i)" "fst x = key" using find_hit [OF Some] by (auto split: prod.splits)
      then obtain n where n: "n < length ?ks" "x = (?ks ! n, n)" "?ks ! n = key" unfolding ch by (auto simp: set_zip)
      then have "n = m" using distinct_map_nth [OF d n(1) m(1)] m(2) by simp
      then show ?thesis using Some n by (simp add: ShapeLookup_def)
    qed
    moreover have "m = j" if "j < shCount (S ! i)" "units strs (?ks ! j) = units strs key"
      by (rule distinct_map_nth [OF d m(1)]) (use that m(2) len in auto)
    ultimately show ?thesis using m len by auto
  next
    case False
    have "\<not> (\<exists>x \<in> set (chainOf S i). units strs (fst x) = units strs key)"
      using False unfolding ch by (auto simp: set_zip)
    then have "find (\<lambda>(k, _). k = key) (chainOf S i) = None"
      "find (\<lambda>(k, _). units strs k = units strs key) (chainOf S i) = None"
      by (auto simp: find_None_iff)
    then show ?thesis using False len by (simp add: ShapeLookup_def)
  qed
qed

lemma ShapeLookup_None:
  assumes ok: "shapes_ok S" "i < length S" and d: "distinct (map (units strs) (keyList S i))"
  shows "ShapeLookup strs S i key = None \<longleftrightarrow> units strs key \<notin> set (map (units strs) (keyList S i))"
proof -
  have "ShapeLookup strs S i key = None \<longleftrightarrow> (\<forall>j. ShapeLookup strs S i key \<noteq> Some j)" by auto
  then show ?thesis
    unfolding ShapeLookup_content [OF ok d] using keyList_length [OF ok]
    by (metis (no_types, lifting) in_set_conv_nth length_map nth_map)
qed

section \<open>Transitions\<close>

text \<open>\<open>S'\<close> has the shapes of \<open>S\<close>, with more transitions, and possibly more shapes.\<close>

definition grows :: "shape list \<Rightarrow> shape list \<Rightarrow> bool" where
  "grows S S' \<longleftrightarrow> length S \<le> length S' \<and>
     (\<forall>i < length S. shParent (S' ! i) = shParent (S ! i) \<and> shKey (S' ! i) = shKey (S ! i)
        \<and> shSlot (S' ! i) = shSlot (S ! i) \<and> shCount (S' ! i) = shCount (S ! i)
        \<and> shShared (S' ! i) = shShared (S ! i))"

lemma grows_refl [simp]: "grows S S" by (simp add: grows_def)

lemma grows_trans: "grows S S' \<Longrightarrow> grows S' S'' \<Longrightarrow> grows S S''"
  by (auto simp: grows_def)

lemma grows_keyList:
  assumes g: "grows S S'" and ok: "shapes_ok S" "shapes_ok S'"
  shows "i < length S \<Longrightarrow> keyList S' i = keyList S i"
proof (induction i rule: less_induct)
  case (less i)
  have i': "i < length S'" "shKey (S' ! i) = shKey (S ! i)" "shParent (S' ! i) = shParent (S ! i)"
    using g less(2) by (auto simp: grows_def)
  show ?case
  proof (cases "shKey (S ! i)")
    case None
    then show ?thesis using ok less(2) i' by (simp add: keyList_unfold)
  next
    case (Some k)
    obtain j where j: "shParent (S ! i) = Some j" "j < i" using shape_parent [OF ok(1) less(2) Some] by metis
    then show ?thesis using less ok i' Some by (simp add: keyList_unfold [of S i] keyList_unfold [of S' i])
  qed
qed

lemma ownTransition_ok:
  assumes ok: "shapes_ok S" and i: "i < length S" and own: "\<not> shShared (S ! i)"
    and t: "ownTransition S i (Some k) = (S', n)"
  shows "shapes_ok S' \<and> grows S S' \<and> n < length S' \<and> keyList S' n = keyList S i @ [k] \<and> \<not> shShared (S' ! n)
    \<and> ownTransition S' i (Some k) = (S', n)"
proof (cases "map_of (shTrans (S ! i)) (Some k)")
  case (Some m)
  then have S': "S' = S" "n = m" using t by (auto simp: ownTransition_def)
  have "(Some k, m) \<in> set (shTrans (S ! i))" using Some by (rule map_of_SomeD)
  then have m: "m < length S" "shParent (S ! m) = Some i" "shKey (S ! m) = Some k"
    using shapes_okD [OF ok i] by (auto simp: shape_ok_def)
  moreover have "shShared (S ! m) = shShared (S ! i)"
    using shapes_okD [OF ok m(1)] m(2) by (simp add: shape_ok_def)
  ultimately show ?thesis using ok own t S' by (simp add: keyList_unfold [of S m])
next
  case None
  let ?new = "\<lparr>shParent = Some i, shKey = Some k, shSlot = shCount (S ! i),
      shCount = shCount (S ! i) + 1, shTrans = [], shShared = False\<rparr>"
  have S': "S' = S[i := (S ! i)\<lparr>shTrans := (Some k, length S) # shTrans (S ! i)\<rparr>] @ [?new]" "n = length S"
    using t None by (auto simp: ownTransition_def Let_def)
  have old: "shParent (S' ! j) = shParent (S ! j)" "shKey (S' ! j) = shKey (S ! j)" "shSlot (S' ! j) = shSlot (S ! j)"
    "shCount (S' ! j) = shCount (S ! j)" "shShared (S' ! j) = shShared (S ! j)"
    "shTrans (S' ! j) = (if j = i then (Some k, length S) # shTrans (S ! i) else shTrans (S ! j))"
    if "j < length S" for j
    using that i unfolding S' by (auto simp: nth_append nth_list_update)
  have new: "S' ! n = ?new" "length S' = Suc (length S)" unfolding S' by (simp_all add: nth_append)
  have g: "grows S S'" using old new by (simp add: grows_def)
  have "shape_ok S' j" if j: "j < length S'" for j
  proof (cases "j = n")
    case True
    then show ?thesis using new i own old [OF i] S'(2) by (simp add: shape_ok_def)
  next
    case False
    then have js: "j < length S" using j new S'(2) by simp
    have par: "l < length S" if "shParent (S ! j) = Some l" for l
      using shapes_okD [OF ok js] that js by (simp add: shape_ok_def)
    show ?thesis
      using shapes_okD [OF ok js] old [OF js] par old(4,5) new S'(2)
      unfolding shape_ok_def by (auto simp: old split: option.splits if_splits)
  qed
  then have ok': "shapes_ok S'" by (simp add: shapes_ok_def)
  have "keyList S' n = keyList S i @ [k]"
    using keyList_unfold [OF ok', of n] grows_keyList [OF g ok ok' i] new S'(2) by simp
  moreover have "ownTransition S' i (Some k) = (S', n)"
    unfolding ownTransition_def using old [OF i] S'(2) by simp
  ultimately show ?thesis using ok' g new S'(2) by simp
qed

lemma addKeys_ok:
  "shapes_ok S \<Longrightarrow> i < length S \<Longrightarrow> \<not> shShared (S ! i) \<Longrightarrow> addKeys (map Some ks) (S, i) = (S', n) \<Longrightarrow>
   shapes_ok S' \<and> grows S S' \<and> n < length S' \<and> keyList S' n = keyList S i @ ks \<and> \<not> shShared (S' ! n)"
proof (induction ks arbitrary: S i)
  case Nil
  then show ?case by (simp add: addKeys_def)
next
  case (Cons k ks)
  obtain S1 m where t: "ownTransition S i (Some k) = (S1, m)" by fastforce
  note one = ownTransition_ok [OF Cons.prems(1-3) t]
  have "addKeys (map Some ks) (S1, m) = (S', n)" using Cons.prems(4) t by (simp add: addKeys_def)
  then have "shapes_ok S' \<and> grows S1 S' \<and> n < length S' \<and> keyList S' n = keyList S1 m @ ks \<and> \<not> shShared (S' ! n)"
    using Cons.IH [of S1 m] one by blast
  then show ?case using one grows_trans by auto
qed

lemma shapes_ok_empty: "shapes_ok S \<Longrightarrow> shapes_ok (S @ [emptyShape])"
  unfolding shapes_ok_def
proof (intro allI impI)
  fix i assume ok: "\<forall>i < length S. shape_ok S i" and i: "i < length (S @ [emptyShape])"
  show "shape_ok (S @ [emptyShape]) i"
  proof (cases "i < length S")
    case True
    then have "shape_ok S i" using ok by blast
    then show ?thesis using True by (fastforce simp: shape_ok_def nth_append split: option.splits)
  qed (use i in \<open>simp add: shape_ok_def emptyShape_def less_Suc_eq\<close>)
qed

lemma unshare_ok:
  assumes ok: "shapes_ok S" and i: "i < length S" and u: "unshare S i = (S', j)"
  shows "shapes_ok S' \<and> grows S S' \<and> j < length S' \<and> keyList S' j = keyList S i \<and> \<not> shShared (S' ! j)"
proof (cases "shShared (S ! i)")
  case False
  then show ?thesis using assms by (auto simp: unshare_def)
next
  case True
  let ?S = "S @ [emptyShape]"
  have ok': "shapes_ok ?S" by (rule shapes_ok_empty [OF ok])
  have g: "grows S ?S" by (simp add: grows_def nth_append)
  have "addKeys (map Some (keyList S i)) (?S, length S) = (S', j)"
    using u True by (simp add: unshare_def ShapeKeys_keyList [OF ok i])
  moreover have "keyList ?S (length S) = []" using keyList_unfold [OF ok'] by (simp add: emptyShape_def)
  ultimately have "shapes_ok S' \<and> grows ?S S' \<and> j < length S' \<and> keyList S' j = [] @ keyList S i \<and> \<not> shShared (S' ! j)"
    using addKeys_ok [OF ok', of "length S"] by (simp add: emptyShape_def)
  then show ?thesis using grows_trans [OF g] by auto
qed

lemma transition_ok:
  assumes ok: "shapes_ok S" and i: "i < length S" and t: "transition S i (Some k) = (S', n)"
  shows "shapes_ok S' \<and> grows S S' \<and> n < length S' \<and> keyList S' n = keyList S i @ [k] \<and> \<not> shShared (S' ! n)"
proof -
  obtain S1 j where u: "unshare S i = (S1, j)" by fastforce
  note one = unshare_ok [OF ok i u]
  have "ownTransition S1 j (Some k) = (S', n)" using t u by (simp add: transition_def)
  from ownTransition_ok [OF _ _ _ this] show ?thesis using one grows_trans by auto
qed

section \<open>Sharing\<close>

text \<open>Memorised transitions are kept.\<close>

definition remembers :: "shape list \<Rightarrow> shape list \<Rightarrow> bool" where
  "remembers S S' \<longleftrightarrow> length S \<le> length S' \<and>
     (\<forall>i < length S. \<forall>k n. map_of (shTrans (S ! i)) k = Some n \<longrightarrow> map_of (shTrans (S' ! i)) k = Some n)"

lemma remembers_trans: "remembers S S' \<Longrightarrow> remembers S' S'' \<Longrightarrow> remembers S S''"
  by (auto simp: remembers_def)

lemma ownTransition_remembers:
  assumes "i < length S" "ownTransition S i k = (S', n)"
  shows "remembers S S' \<and> map_of (shTrans (S' ! i)) k = Some n"
  using assms by (auto simp: ownTransition_def remembers_def Let_def nth_append nth_list_update split: option.splits)

lemma addKeys_remembers:
  "shapes_ok S \<Longrightarrow> i < length S \<Longrightarrow> \<not> shShared (S ! i) \<Longrightarrow> addKeys (map Some ks) (S, i) = (S', n) \<Longrightarrow>
   remembers S S' \<and> (\<forall>T. remembers S' T \<longrightarrow> addKeys (map Some ks) (T, i) = (T, n))"
proof (induction ks arbitrary: S i)
  case Nil
  then show ?case by (simp add: addKeys_def remembers_def)
next
  case (Cons k ks)
  obtain S1 m where t: "ownTransition S i (Some k) = (S1, m)" by fastforce
  note one = ownTransition_ok [OF Cons.prems(1-3) t]
  have rest: "addKeys (map Some ks) (S1, m) = (S', n)" using Cons.prems(4) t by (simp add: addKeys_def)
  have r: "remembers S S1" "map_of (shTrans (S1 ! i)) (Some k) = Some m"
    using ownTransition_remembers [OF Cons.prems(2) t] by auto
  have ih: "remembers S1 S'" "\<And>T. remembers S' T \<Longrightarrow> addKeys (map Some ks) (T, m) = (T, n)"
    using Cons.IH [OF _ _ _ rest] one by blast+
  have "addKeys (map Some (k # ks)) (T, i) = (T, n)" if T: "remembers S' T" for T
  proof -
    have "i < length S1" using Cons.prems(2) one by (auto simp: grows_def)
    then have "map_of (shTrans (T ! i)) (Some k) = Some m"
      using remembers_trans [OF ih(1) T] r(2) by (simp add: remembers_def)
    then have "ownTransition T i (Some k) = (T, m)" by (simp add: ownTransition_def)
    then show ?thesis using ih(2) [OF T] by (simp add: addKeys_def)
  qed
  then show ?case using remembers_trans [OF r(1) ih(1)] by blast
qed

text \<open>
  C31. Hidden classes converge.  From a shape that is not shared, adding a sequence of keys gives
  a shape with exactly those keys after the old ones, in order; adding the same keys again, from
  the same shape, gives the same shape and no new one, so objects built alike compare equal by
  pointer.
\<close>

theorem same_keys_same_shape:
  assumes "shapes_ok S" "i < length S" "\<not> shShared (S ! i)" "addKeys (map Some ks) (S, i) = (S', n)"
  shows "keyList S' n = keyList S i @ ks \<and> addKeys (map Some ks) (S', i) = (S', n)"
  using addKeys_ok [OF assms] addKeys_remembers [OF assms] by (auto simp: remembers_def)

theorem same_keys_same_shape_witness:
  "keyList (fst (addKeys [Some 1, Some 2] ([emptyShape], 0))) (snd (addKeys [Some 1, Some 2] ([emptyShape], 0))) = [1, 2]"
proof -
  have ok: "shapes_ok [emptyShape]" by (simp add: shapes_ok_def shape_ok_def emptyShape_def)
  have "keyList [emptyShape] 0 = []" by (simp add: keyList_def chainOf_def emptyShape_def)
  then show ?thesis
    using same_keys_same_shape [OF ok _ _ surjective_pairing, of 0 "[1, 2]"] by (simp add: emptyShape_def)
qed

end
