(* ===== verification/HeapGC.thy ===== *)
theory HeapGC
  imports HeapModel
begin

text \<open>
  The collector of \<open>pkg/js55/engine/heap.go\<close>: iterative marking from the explicit roots, the
  weak-map phase, the sweep that bumps generations and refunds quota, allocation (which may
  collect first), copy-on-write, and the heap checker.

  The marking loop pops handles off a work list whose top is its head; it ends because a
  handle is only pushed when its object is newly marked.  \<open>reachable\<close> is the specification:
  the slots that a path of references connects to a root.
\<close>

section \<open>Marking\<close>

text \<open>\<open>localForMark\<close>: the local slot a reference marks, through the copy-on-write map.\<close>

definition localForMark :: "'q heap \<Rightarrow> handle \<Rightarrow> handle \<times> object option" where
  "localForMark hp h =
     (if h = NoHandle then (NoHandle, None)
      else if hIsRoot h then
        (case map_of (cowMap hp) (stripRoot h) of
           Some local \<Rightarrow> (local, getLocal hp local)
         | None \<Rightarrow> (NoHandle, None))
      else (h, getLocal hp h))"

type_synonym 'q marking = "'q heap \<times> handle list"

definition setMark :: "handle \<Rightarrow> 'q heap \<Rightarrow> 'q heap" where
  "setMark h = updObj (slotOf h) (\<lambda>o'. o'\<lparr>marked := True\<rparr>)"

definition markHandle :: "handle \<Rightarrow> 'q marking \<Rightarrow> 'q marking" where
  "markHandle h mw = (case mw of (hp, work) \<Rightarrow>
     (case localForMark hp h of
        (_, None) \<Rightarrow> (hp, work)
      | (local, Some o') \<Rightarrow> if marked o' then (hp, work) else (setMark local hp, local # work)))"

text \<open>
  The closure \<open>push\<close> of \<open>Collect\<close> marks the object a value refers to.  A value that is no
  object reference is skipped, so pushing a list of values marks the handles in it, in order.
\<close>

definition valRefs :: "val list \<Rightarrow> handle list" where
  "valRefs vs = map valHandle (filter IsPointer vs)"

definition markHandles :: "handle list \<Rightarrow> 'q marking \<Rightarrow> 'q marking" where
  "markHandles hs mw = fold markHandle hs mw"

definition fieldRef :: "handle \<Rightarrow> handle list" where
  "fieldRef h = (if h \<noteq> NoHandle then [h] else [])"

text \<open>What the first marking loop follows from an object, in its order.\<close>

definition refs1 :: "object \<Rightarrow> handle list" where
  "refs1 o' =
     valRefs (slots o') @ valRefs (elements o') @ fieldRef (proto o') @ fieldRef (oenv o')
     @ (if homeObject o' \<noteq> NoHandle then valRefs [ObjectValue (homeObject o')] else [])
     @ (case omap o' of
          None \<Rightarrow> []
        | Some m \<Rightarrow> if okind o' \<noteq> KindWeakMap then valRefs (mapKeys m) @ valRefs (mapValues m) else [])
     @ (case oset o' of None \<Rightarrow> [] | Some s \<Rightarrow> valRefs s)
     @ valRefs [prim o']
     @ (case opromise o' of
          None \<Rightarrow> []
        | Some p \<Rightarrow> valRefs [promiseResult p]
            @ concat (map (\<lambda>r. valRefs [onFulfilled r, onRejected r, reactionChild r])
                (promiseReactions p)))
     @ (case oproxy o' of None \<Rightarrow> [] | Some (target, handler) \<Rightarrow> valRefs [target, handler])
     @ (case ogen o' of
          None \<Rightarrow> []
        | Some g \<Rightarrow> valRefs [genThis g, genDelegate g, genSent g] @ valRefs (genStack g))"

text \<open>What the second loop, after the weak maps, follows.\<close>

definition refs2 :: "object \<Rightarrow> handle list" where
  "refs2 o' =
     valRefs (slots o') @ valRefs (elements o') @ fieldRef (proto o') @ fieldRef (oenv o')
     @ (if homeObject o' \<noteq> NoHandle then valRefs [ObjectValue (homeObject o')] else [])
     @ valRefs [prim o']"

definition unmarkedCount :: "'q heap \<Rightarrow> nat" where
  "unmarkedCount hp = length (filter (\<lambda>x. case x of None \<Rightarrow> False | Some o' \<Rightarrow> \<not> marked o') (objs hp))"

definition markWork :: "'q marking \<Rightarrow> nat" where
  "markWork mw = (case mw of (hp, work) \<Rightarrow> 2 * unmarkedCount hp + length work)"

text \<open>Handles that \<open>getLocal\<close> accepts name an object of their slot.\<close>

lemma slotAt_slot: "slotAt os gs s h = Some o' \<Longrightarrow> slotOf h < length os \<and> os ! slotOf h = Some o'"
  by (auto simp: slotAt_def slotOf_def Let_def split: if_splits)

lemma slotOf_stripRoot: "h \<noteq> NoHandle \<Longrightarrow> slotOf (stripRoot h) = slotOf h"
  by (simp add: slotOf_def stripRoot_def)

lemma getLocal_slot:
  "getLocal hp h = Some o' \<Longrightarrow> slotOf h < length (objs hp) \<and> objs hp ! slotOf h = Some o'"
  by (auto simp: getLocal_def Let_def slotOf_stripRoot split: if_splits dest: slotAt_slot)

lemma localForMark_slot:
  "localForMark hp h = (local, Some o') \<Longrightarrow>
   slotOf local < length (objs hp) \<and> objs hp ! slotOf local = Some o'"
  by (auto simp: localForMark_def split: if_splits option.splits dest: getLocal_slot)

lemma markWork_markHandle: "markWork (markHandle h mw) \<le> markWork mw"
proof -
  obtain hp work where mw: "mw = (hp, work)" by (cases mw)
  obtain local x where lx: "localForMark hp h = (local, x)" by (cases "localForMark hp h")
  show ?thesis
  proof (cases x)
    case None
    then show ?thesis using mw lx by (simp add: markHandle_def)
  next
    case (Some o')
    then have s: "slotOf local < length (objs hp)" "objs hp ! slotOf local = Some o'"
      using lx localForMark_slot by auto
    show ?thesis
    proof (cases "marked o'")
      case True
      then show ?thesis using mw lx Some by (simp add: markHandle_def)
    next
      case False
      have "unmarkedCount (setMark local hp) < unmarkedCount hp"
        unfolding unmarkedCount_def setMark_def updObj_def
        using s False by (simp add: filter_length_update_less)
      then show ?thesis using mw lx Some False by (simp add: markHandle_def markWork_def)
    qed
  qed
qed

lemma markWork_markHandles: "markWork (markHandles hs mw) \<le> markWork mw"
  unfolding markHandles_def
proof (induction hs arbitrary: mw)
  case (Cons h hs)
  show ?case using Cons.IH [of "markHandle h mw"] markWork_markHandle [of h mw] by simp
qed simp

text \<open>The marking loop, over what it follows from an object.\<close>

function drain :: "(object \<Rightarrow> handle list) \<Rightarrow> 'q heap \<Rightarrow> handle list \<Rightarrow> 'q heap" where
  "drain refs hp [] = hp"
| "drain refs hp (h # work) =
     (case Get hp h of
        None \<Rightarrow> drain refs hp work
      | Some o' \<Rightarrow>
          (case markHandles (refs o') (hp, work) of (hp', work') \<Rightarrow> drain refs hp' work'))"
  by pat_completeness auto
termination
proof (relation "measure (\<lambda>(_, hp, work). markWork (hp, work))")
  fix refs and hp :: "'q heap" and h work o' hp' work'
  assume "(hp', work') = markHandles (refs o') (hp, work)"
  then have "markWork (hp', work') \<le> markWork (hp, work)"
    using markWork_markHandles [of "refs o'" "(hp, work)"] by simp
  then show "((refs, hp', work'), (refs, hp, h # work)) \<in> measure (\<lambda>(_, hp, work). markWork (hp, work))"
    by (simp add: markWork_def)
qed (auto simp: markWork_def)

section \<open>A collection\<close>

definition unmarkAll :: "'q heap \<Rightarrow> 'q heap" where
  "unmarkAll hp = hp\<lparr>objs := map (map_option (\<lambda>o'. o'\<lparr>marked := False\<rparr>)) (objs hp)\<rparr>"

text \<open>The explicit roots in the order the code pushes them.\<close>

definition rootRefs :: "'q heap \<Rightarrow> handle list" where
  "rootRefs hp =
     valRefs (map (hostCell hp) (roots hp)) @ valRefs (vstack hp) @ valRefs (extRoots hp)
     @ valRefs (map (ObjectValue \<circ> snd) (cowMap hp))
     @ (if objectProto hp \<noteq> NoHandle then valRefs [ObjectValue (objectProto hp)] else [])
     @ (if arrayProto hp \<noteq> NoHandle then valRefs [ObjectValue (arrayProto hp)] else [])
     @ (if functionProto hp \<noteq> NoHandle then valRefs [ObjectValue (functionProto hp)] else [])"

definition markedNow :: "'q heap \<Rightarrow> handle \<Rightarrow> bool" where
  "markedNow hp h = (case snd (localForMark hp h) of None \<Rightarrow> False | Some o' \<Rightarrow> marked o')"

text \<open>The entries of one weak map: an entry stays if its key is marked, and pushes its value.\<close>

fun weakEntries :: "val list \<Rightarrow> val list \<Rightarrow> 'q marking \<Rightarrow> (val list \<times> val list) \<times> 'q marking" where
  "weakEntries (k # ks) (v # vs) mw =
     (let live = IsPointer k \<and> (hIsRoot (valHandle k) \<or> markedNow (fst mw) (valHandle k))
      in if live then
           (case weakEntries ks vs (markHandles (valRefs [v]) mw) of
              ((nk, nv), mw') \<Rightarrow> ((k # nk, v # nv), mw'))
         else weakEntries ks vs mw)"
| "weakEntries _ _ mw = (([], []), mw)"

fun weakPhase :: "nat list \<Rightarrow> 'q marking \<Rightarrow> 'q marking" where
  "weakPhase [] mw = mw"
| "weakPhase (i # is) (hp, work) =
     (case objs hp ! i of
        None \<Rightarrow> weakPhase is (hp, work)
      | Some o' \<Rightarrow>
          if \<not> marked o' \<or> okind o' \<noteq> KindWeakMap \<or> omap o' = None then weakPhase is (hp, work)
          else
            (case weakEntries (mapKeys (the (omap o'))) (mapValues (the (omap o'))) (hp, work) of
               ((nk, nv), (hp', work')) \<Rightarrow>
                 weakPhase is
                   (updObj i (\<lambda>x. x\<lparr>omap := Some \<lparr>mapKeys = nk, mapValues = nv\<rparr>\<rparr>) hp', work')))"

definition freedBytes :: "(nat \<Rightarrow> nat) \<Rightarrow> object \<Rightarrow> int" where
  "freedBytes textLen o' =
     96 + int (length (obytes o')) + int (length (elements o') * 8) + int (length (slots o') * 104)
     + (if okind o' = KindString then (case otext o' of None \<Rightarrow> 0 | Some s \<Rightarrow> int (textLen s)) else 0)"

fun sweep :: "'q tracker \<Rightarrow> (nat \<Rightarrow> nat) \<Rightarrow> nat list \<Rightarrow> 'q heap \<Rightarrow> 'q heap" where
  "sweep tr textLen [] hp = hp"
| "sweep tr textLen (i # is) hp =
     (case objs hp ! i of
        None \<Rightarrow> sweep tr textLen is hp
      | Some o' \<Rightarrow>
          if marked o' then sweep tr textLen is hp
          else sweep tr textLen is
            ((TrackFree tr (freedBytes textLen o') hp)
               \<lparr>objs := (objs hp)[i := None], gens := (gens hp)[i := nextGen (gens hp ! i)],
                freeSlots := i # freeSlots hp, Swept := Swept hp + 1\<rparr>))"

text \<open>\<open>textLen\<close> is the length of a string the heap points to.\<close>

definition markPhase :: "'q heap \<Rightarrow> 'q heap" where
  "markPhase hp =
     (let h1 = (unmarkAll hp)\<lparr>Collections := Collections hp + 1\<rparr>
      in case markHandles (rootRefs h1) (h1, []) of (h2, work) \<Rightarrow> drain refs1 h2 work)"

definition CollectHeap :: "'q tracker \<Rightarrow> (nat \<Rightarrow> nat) \<Rightarrow> 'q heap \<Rightarrow> 'q heap" where
  "CollectHeap tr textLen hp =
     (if sealedRoot hp then hp
      else
        let h1 = markPhase hp
        in (case weakPhase [1 ..< length (objs h1)] (h1, []) of
              (h2, work) \<Rightarrow>
                let h3 = drain refs2 h2 work
                in sweep tr textLen [1 ..< length (objs h3)] h3))"

section \<open>Allocation\<close>

text \<open>The loop over the free list drops the slots whose generations are used up.\<close>

fun popFree :: "u16 list \<Rightarrow> nat list \<Rightarrow> nat option \<times> nat list" where
  "popFree gs [] = (None, [])"
| "popFree gs (i # is) =
     (if i < length gs \<and> gs ! i \<ge> maxLocalGen then popFree gs is else (Some i, is))"

definition padRetired :: "object option list \<Rightarrow> u16 list \<Rightarrow> object option list" where
  "padRetired os gs =
     os @ replicate (length (takeWhile (\<lambda>g. g \<ge> maxLocalGen) (drop (length os) gs))) None"

definition beforeAlloc :: "'q tracker \<Rightarrow> (nat \<Rightarrow> nat) \<Rightarrow> 'q heap \<Rightarrow> 'q heap" where
  "beforeAlloc tr textLen hp =
     (if stress hp then CollectHeap tr textLen hp
      else
        let h1 = hp\<lparr>allocs := allocs hp + 1\<rparr>
        in if allocs h1 \<ge> threshold h1 then
             let h2 = (CollectHeap tr textLen h1)\<lparr>allocs := 0\<rparr>
             in if Live h2 * 2 > int (threshold h2)
                then h2\<lparr>threshold := nat (Live h2 * 2)\<rparr> else h2
           else h1)"

definition install :: "object \<Rightarrow> 'q heap \<Rightarrow> handle \<times> 'q heap" where
  "install o' hp =
     (case popFree (gens hp) (freeSlots hp) of
        (Some i, rest) \<Rightarrow>
          (makeHandle (word_of_nat i) (gens hp ! i),
           hp\<lparr>freeSlots := rest, objs := (objs hp)[i := Some o']\<rparr>)
      | (None, rest) \<Rightarrow>
          let os = padRetired (objs hp) (gens hp);
              i = length os;
              gen = (if buildingRoot hp then rootGenBit
                     else if i < length (gens hp) then gens hp ! i else 0);
              gs = (if i < length (gens hp) then (gens hp)[i := gen] else gens hp @ [gen])
          in (makeHandle (word_of_nat i) gen, hp\<lparr>freeSlots := rest, objs := os @ [Some o'], gens := gs\<rparr>))"

definition alloc :: "'q tracker \<Rightarrow> (nat \<Rightarrow> nat) \<Rightarrow> object \<Rightarrow> 'q heap \<Rightarrow> (handle \<times> 'q heap) option" where
  "alloc tr textLen o' hp =
     do { h1 \<leftarrow> TrackAlloc tr 96 hp; Some (install o' (beforeAlloc tr textLen h1)) }"

end
