(* ===== verification/HeapMark.thy ===== *)
theory HeapMark
  imports HeapGC
begin

text \<open>
  Correctness of marking: what the marking loop marks is exactly what is reachable from its
  roots.  The locale \<open>ref_lists\<close> is what the loop needs of the function that lists the
  references of an object; both loops of the collector are instances.
\<close>

section \<open>Marked slots and references\<close>

definition slotRef :: "'q heap \<Rightarrow> handle \<Rightarrow> nat option" where
  "slotRef hp h = (case localForMark hp h of (l, Some _) \<Rightarrow> Some (slotOf l) | _ \<Rightarrow> None)"

definition markedSet :: "'q heap \<Rightarrow> nat set" where
  "markedSet hp = {i. i < length (objs hp) \<and> (\<exists>o'. objs hp ! i = Some o' \<and> marked o')}"

definition pointsTo :: "(object \<Rightarrow> handle list) \<Rightarrow> 'q heap \<Rightarrow> (nat \<times> nat) set" where
  "pointsTo refs hp = {(i, j). i < length (objs hp) \<and>
     (\<exists>o'. objs hp ! i = Some o' \<and> (\<exists>h \<in> set (refs o'). slotRef hp h = Some j))}"

text \<open>Two heaps that differ in mark bits only.\<close>

definition sameBut :: "'q heap \<Rightarrow> 'q heap \<Rightarrow> bool" where
  "sameBut hp hp' \<longleftrightarrow> unmarkAll hp' = unmarkAll hp"

definition unmarkObj :: "object \<Rightarrow> object" where
  "unmarkObj o' = o'\<lparr>marked := False\<rparr>"

lemma sameBut_refl [simp]: "sameBut hp hp"
  by (simp add: sameBut_def)

lemma sameBut_trans: "sameBut hp h1 \<Longrightarrow> sameBut h1 h2 \<Longrightarrow> sameBut hp h2"
  by (simp add: sameBut_def)

lemma sameBut_sym: "sameBut hp h1 \<Longrightarrow> sameBut h1 hp"
  by (simp add: sameBut_def)

lemma sameBut_objs:
  assumes "sameBut hp hp'"
  shows "length (objs hp') = length (objs hp)"
    "i < length (objs hp) \<Longrightarrow> map_option unmarkObj (objs hp' ! i) = map_option unmarkObj (objs hp ! i)"
proof -
  have "objs (unmarkAll hp') = objs (unmarkAll hp)" using assms by (simp add: sameBut_def)
  then have eq: "map (map_option unmarkObj) (objs hp') = map (map_option unmarkObj) (objs hp)"
    by (simp add: unmarkAll_def unmarkObj_def [abs_def])
  then show len: "length (objs hp') = length (objs hp)" by (rule map_eq_imp_length_eq)
  show "map_option unmarkObj (objs hp' ! i) = map_option unmarkObj (objs hp ! i)"
    if "i < length (objs hp)"
    using arg_cong [OF eq, of "\<lambda>l. l ! i"] that len by simp
qed

lemma sameBut_fields:
  assumes "sameBut hp hp'"
  shows "gens hp' = gens hp" "cowMap hp' = cowMap hp" "sealedRoot hp' = sealedRoot hp"
    "buildingRoot hp' = buildingRoot hp" "freeSlots hp' = freeSlots hp" "rootRefs hp' = rootRefs hp"
    "realmOf hp' = realmOf hp" "Swept hp' = Swept hp" "quota hp' = quota hp" "vstack hp' = vstack hp"
proof -
  have eq: "unmarkAll hp' = unmarkAll hp" using assms by (simp add: sameBut_def)
  show "gens hp' = gens hp" "cowMap hp' = cowMap hp" "sealedRoot hp' = sealedRoot hp"
    "buildingRoot hp' = buildingRoot hp" "freeSlots hp' = freeSlots hp" "realmOf hp' = realmOf hp"
    "Swept hp' = Swept hp" "quota hp' = quota hp" "vstack hp' = vstack hp"
    using arg_cong [OF eq, of gens] arg_cong [OF eq, of cowMap] arg_cong [OF eq, of sealedRoot]
      arg_cong [OF eq, of buildingRoot] arg_cong [OF eq, of freeSlots] arg_cong [OF eq, of realmOf]
      arg_cong [OF eq, of Swept] arg_cong [OF eq, of quota] arg_cong [OF eq, of vstack]
    by (simp_all add: unmarkAll_def)
  have "rootRefs (unmarkAll h) = rootRefs h" for h :: "'q heap"
    by (simp add: rootRefs_def unmarkAll_def)
  then show "rootRefs hp' = rootRefs hp" using eq by metis
qed

lemma slotAt_unmark:
  assumes "length os' = length os"
    and "\<And>i. i < length os \<Longrightarrow> map_option unmarkObj (os' ! i) = map_option unmarkObj (os ! i)"
  shows "map_option unmarkObj (slotAt os' gs b h) = map_option unmarkObj (slotAt os gs b h)"
  using assms by (simp add: slotAt_def Let_def)

lemma getLocal_sameBut:
  assumes "sameBut hp hp'"
  shows "map_option unmarkObj (getLocal hp' h) = map_option unmarkObj (getLocal hp h)"
  using slotAt_unmark [OF sameBut_objs(1) [OF assms] sameBut_objs(2) [OF assms]]
  by (simp add: getLocal_def Let_def sameBut_fields [OF assms])

lemma localForMark_sameBut:
  assumes "sameBut hp hp'"
  shows "fst (localForMark hp' h) = fst (localForMark hp h)"
    "map_option unmarkObj (snd (localForMark hp' h)) = map_option unmarkObj (snd (localForMark hp h))"
  using getLocal_sameBut [OF assms]
  by (auto simp: localForMark_def sameBut_fields [OF assms] split: option.splits)

lemma slotRef_sameBut: "sameBut hp hp' \<Longrightarrow> slotRef hp' h = slotRef hp h"
proof -
  assume same: "sameBut hp hp'"
  obtain l x l' x' where lx: "localForMark hp h = (l, x)" "localForMark hp' h = (l', x')"
    by (cases "localForMark hp h"; cases "localForMark hp' h")
  then have "l' = l" "map_option unmarkObj x' = map_option unmarkObj x"
    using localForMark_sameBut [OF same, of h] by auto
  then show ?thesis using lx by (cases x; cases x') (auto simp: slotRef_def)
qed

lemma slotRef_slot:
  "slotRef hp h = Some i \<Longrightarrow> i < length (objs hp) \<and> objs hp ! i \<noteq> None"
  by (auto simp: slotRef_def split: prod.splits option.splits dest: localForMark_slot)

lemma setMark_sameBut: "sameBut hp (setMark h hp)"
proof -
  have "map (map_option unmarkObj) ((objs hp)[i := map_option (\<lambda>o'. o'\<lparr>marked := True\<rparr>) (objs hp ! i)])
      = map (map_option unmarkObj) (objs hp)" for i
  proof (rule nth_equalityI)
    fix k assume "k < length (map (map_option unmarkObj)
        ((objs hp)[i := map_option (\<lambda>o'. o'\<lparr>marked := True\<rparr>) (objs hp ! i)]))"
    then have k: "k < length (objs hp)" by simp
    have "map_option unmarkObj (map_option (\<lambda>o'. o'\<lparr>marked := True\<rparr>) x) = map_option unmarkObj x" for x
      by (cases x) (simp_all add: unmarkObj_def)
    with k show "map (map_option unmarkObj) ((objs hp)[i := map_option (\<lambda>o'. o'\<lparr>marked := True\<rparr>) (objs hp ! i)]) ! k
        = map (map_option unmarkObj) (objs hp) ! k"
      by (cases "k = i") simp_all
  qed simp
  then show ?thesis
    by (simp add: sameBut_def unmarkAll_def setMark_def updObj_def unmarkObj_def [abs_def])
qed

lemma markedSet_setMark:
  "slotOf h < length (objs hp) \<Longrightarrow> objs hp ! slotOf h = Some o' \<Longrightarrow>
   markedSet (setMark h hp) = insert (slotOf h) (markedSet hp)"
  by (auto simp: markedSet_def setMark_def updObj_def nth_list_update)

section \<open>One push\<close>

text \<open>The handles of the work list name marked objects.\<close>

definition workOk :: "'q heap \<Rightarrow> handle list \<Rightarrow> bool" where
  "workOk hp work \<longleftrightarrow> (\<forall>h \<in> set work. slotOf h \<in> markedSet hp \<and> getLocal hp h \<noteq> None)"

lemma getLocal_Get: "getLocal hp h = Some o' \<Longrightarrow> Get hp h = Some o'"
  by (auto simp: Get_def getLocal_def Let_def split: if_splits)

lemma getLocal_sameBut_None: "sameBut hp hp' \<Longrightarrow> getLocal hp' h = None \<longleftrightarrow> getLocal hp h = None"
  using getLocal_sameBut [of hp hp' h] by (cases "getLocal hp h"; cases "getLocal hp' h") auto

lemma markHandle_spec:
  assumes "markHandle h (hp, work) = (hp', work')" and ok: "workOk hp work"
  shows "sameBut hp hp' \<and> markedSet hp' = markedSet hp \<union> set_option (slotRef hp h)
    \<and> workOk hp' work' \<and> set work \<subseteq> set work'
    \<and> set_option (slotRef hp h) \<subseteq> markedSet hp \<union> slotOf ` set work'"
proof -
  obtain l x where lx: "localForMark hp h = (l, x)" by (cases "localForMark hp h")
  show ?thesis
  proof (cases x)
    case None
    with assms lx show ?thesis by (simp add: markHandle_def slotRef_def)
  next
    case (Some o')
    then have s: "slotOf l < length (objs hp)" "objs hp ! slotOf l = Some o'" "slotRef hp h = Some (slotOf l)"
      using lx localForMark_slot by (auto simp: slotRef_def)
    show ?thesis
    proof (cases "marked o'")
      case True
      then have "slotOf l \<in> markedSet hp" using s by (simp add: markedSet_def)
      with True Some assms lx s show ?thesis by (auto simp: markHandle_def)
    next
      case False
      then have h': "hp' = setMark l hp" "work' = l # work"
        using Some assms lx by (auto simp: markHandle_def)
      have "getLocal hp l = Some o'"
        using lx Some by (auto simp: localForMark_def split: if_splits option.splits)
      then have "getLocal hp' l \<noteq> None" using h' setMark_sameBut getLocal_sameBut_None by (metis option.distinct(1))
      moreover have "markedSet hp' = insert (slotOf l) (markedSet hp)"
        unfolding h'(1) using s(1,2) by (rule markedSet_setMark)
      moreover have "getLocal hp' k \<noteq> None" if "k \<in> set work" for k
        using ok that h' setMark_sameBut getLocal_sameBut_None unfolding workOk_def by metis
      ultimately show ?thesis
        using h' s(3) ok setMark_sameBut by (auto simp: workOk_def)
    qed
  qed
qed

lemma markHandles_spec:
  assumes "markHandles hs (hp, work) = (hp', work')" "workOk hp work"
  shows "sameBut hp hp' \<and> markedSet hp' = markedSet hp \<union> {j. \<exists>h \<in> set hs. slotRef hp h = Some j}
    \<and> workOk hp' work' \<and> set work \<subseteq> set work'
    \<and> markedSet hp' \<subseteq> markedSet hp \<union> slotOf ` set work'"
  using assms
proof (induction hs arbitrary: hp work)
  case Nil
  then show ?case by (simp add: markHandles_def)
next
  case (Cons h hs)
  obtain h1 w1 where 1: "markHandle h (hp, work) = (h1, w1)" by (cases "markHandle h (hp, work)")
  note s1 = markHandle_spec [OF 1 Cons.prems(2)]
  have "markHandles hs (h1, w1) = (hp', work')" using Cons.prems(1) 1 by (simp add: markHandles_def)
  note s2 = Cons.IH [OF this conjunct1 [OF conjunct2 [OF conjunct2 [OF s1]]]]
  have ref: "slotRef h1 g = slotRef hp g" for g using s1 slotRef_sameBut by blast
  have opt: "set_option (slotRef hp h) = {j. slotRef hp h = Some j}" by (cases "slotRef hp h") auto
  have new: "markedSet hp' = markedSet hp \<union> {j. \<exists>g \<in> set (h # hs). slotRef hp g = Some j}"
    using s1 s2 unfolding ref opt by auto
  have chain: "A \<subseteq> B \<union> V \<Longrightarrow> B \<subseteq> C \<union> W \<Longrightarrow> W \<subseteq> V \<Longrightarrow> A \<subseteq> C \<union> V"
    for A B C V W :: "nat set" by blast
  have "markedSet h1 \<subseteq> markedSet hp \<union> slotOf ` set w1" using s1 by blast
  moreover have "slotOf ` set w1 \<subseteq> slotOf ` set work'" using s2 by (intro image_mono) blast
  moreover have "markedSet hp' \<subseteq> markedSet h1 \<union> slotOf ` set work'" using s2 by blast
  ultimately have sub: "markedSet hp' \<subseteq> markedSet hp \<union> slotOf ` set work'" using chain by blast
  have "sameBut hp hp'" using s1 s2 sameBut_trans by blast
  moreover have "set work \<subseteq> set work'" using s1 s2 by (meson order_trans)
  ultimately show ?case using s2 new sub by (intro conjI) simp_all
qed

section \<open>The marking loop\<close>

locale ref_lists =
  fixes refs :: "object \<Rightarrow> handle list"
  assumes refs_mark: "refs (o'\<lparr>marked := b\<rparr>) = refs o'"
begin

lemma pointsTo_sameBut:
  assumes same: "sameBut hp hp'"
  shows "pointsTo refs hp' = pointsTo refs hp"
proof -
  have u: "refs (unmarkObj x) = refs x" for x by (simp add: unmarkObj_def refs_mark)
  have r: "refs x = refs y" if "unmarkObj x = unmarkObj y" for x y
    using u [of x] u [of y] that by simp
  have R: "map_option refs x = map_option refs y"
    if "map_option unmarkObj x = map_option unmarkObj y" for x y
    using that by (cases x; cases y) (auto intro: r)
  have alt: "pointsTo refs h = {(i, j). i < length (objs h) \<and>
      (\<exists>rs. map_option refs (objs h ! i) = Some rs \<and> (\<exists>k \<in> set rs. slotRef h k = Some j))}"
    for h :: "'b heap"
    unfolding pointsTo_def by auto
  have "map_option refs (objs hp' ! i) = map_option refs (objs hp ! i)" if "i < length (objs hp)" for i
    by (rule R) (rule sameBut_objs(2) [OF same that])
  then show ?thesis
    unfolding alt sameBut_objs(1) [OF same] slotRef_sameBut [OF same] by (simp only: cong: conj_cong)
qed

text \<open>
  The loop keeps the marks, marks only what the marked slots reach, and at its end every
  reference out of a marked slot leads to a marked slot.
\<close>

lemma drain_spec:
  assumes "workOk hp work"
    and "\<And>i j. i \<in> markedSet hp \<Longrightarrow> (i, j) \<in> pointsTo refs hp \<Longrightarrow>
      j \<in> markedSet hp \<or> i \<in> slotOf ` set work"
  shows "sameBut hp (drain refs hp work)
    \<and> markedSet hp \<subseteq> markedSet (drain refs hp work)
    \<and> markedSet (drain refs hp work) \<subseteq> (pointsTo refs hp)\<^sup>* `` markedSet hp
    \<and> (\<forall>i j. i \<in> markedSet (drain refs hp work) \<longrightarrow> (i, j) \<in> pointsTo refs hp \<longrightarrow>
         j \<in> markedSet (drain refs hp work))"
proof -
  have "r = refs \<Longrightarrow> ?thesis" for r
    using assms
  proof (induction r hp work rule: drain.induct)
    case (1 r hp)
    then show ?case by auto
  next
    case (2 r hp h work)
    have g: "slotOf h \<in> markedSet hp" "getLocal hp h \<noteq> None" using 2(4) by (auto simp: workOk_def)
    then obtain o' where o': "getLocal hp h = Some o'" by auto
    then have G: "Get hp h = Some o'" "objs hp ! slotOf h = Some o'" "slotOf h < length (objs hp)"
      using getLocal_Get getLocal_slot by blast+
    obtain h1 w1 where m: "markHandles (refs o') (hp, work) = (h1, w1)"
      by (cases "markHandles (refs o') (hp, work)")
    have "workOk hp work" using 2(4) by (simp add: workOk_def)
    note sp = markHandles_spec [OF m this]
    have same: "sameBut hp h1" using sp by blast
    have P: "pointsTo refs h1 = pointsTo refs hp" using pointsTo_sameBut [OF same] .
    have new: "{j. \<exists>k \<in> set (refs o'). slotRef hp k = Some j} = {j. (slotOf h, j) \<in> pointsTo refs hp}"
      using G by (auto simp: pointsTo_def)
    have M: "markedSet h1 = markedSet hp \<union> {j. (slotOf h, j) \<in> pointsTo refs hp}"
      using sp new by blast
    have D: "drain refs hp (h # work) = drain refs h1 w1" using G m by simp
    have IH: "sameBut h1 (drain refs h1 w1) \<and> markedSet h1 \<subseteq> markedSet (drain refs h1 w1)
      \<and> markedSet (drain refs h1 w1) \<subseteq> (pointsTo refs h1)\<^sup>* `` markedSet h1
      \<and> (\<forall>i j. i \<in> markedSet (drain refs h1 w1) \<longrightarrow> (i, j) \<in> pointsTo refs h1 \<longrightarrow>
           j \<in> markedSet (drain refs h1 w1))"
    proof (rule "2.IH"(2) [OF G(1)])
      show "(h1, w1) = markHandles (r o') (hp, work)" using m 2(3) by simp
      show "workOk h1 w1" using sp by blast
      show "j \<in> markedSet h1 \<or> i \<in> slotOf ` set w1"
        if i: "i \<in> markedSet h1" "(i, j) \<in> pointsTo refs h1" for i j
      proof (cases "i \<in> markedSet hp")
        case True
        then consider "j \<in> markedSet hp" | "i \<in> slotOf ` set work" | "i = slotOf h"
          using 2(5) [of i j] i(2) P by auto
        then show ?thesis using M i(2) P sp by cases auto
      next
        case False
        then show ?thesis using sp i(1) by blast
      qed
    qed (use 2(3) in auto)
    have "(pointsTo refs h1)\<^sup>* `` markedSet h1 \<subseteq> (pointsTo refs hp)\<^sup>* `` markedSet hp"
      unfolding P M using g(1) by (auto intro: converse_rtrancl_into_rtrancl)
    then show ?case unfolding D using IH same M P sameBut_trans by (metis (no_types, lifting) Un_upper1 order_trans)
  qed
  then show ?thesis by simp
qed

end

interpretation refs1: ref_lists refs1
  by unfold_locales (simp add: refs1_def cong: option.case_cong)

interpretation refs2: ref_lists refs2
  by unfold_locales (simp add: refs2_def cong: option.case_cong)

end
