(* ===== verification/HeapCollect.thy ===== *)
theory HeapCollect
  imports HeapMark
begin

text \<open>
  What a whole collection does: every object that is reachable without going through an entry of
  a weak map stays in its slot with its generation and its contents (weak maps may lose entries),
  and, when no weak map is reachable, exactly the unreachable objects are freed.
\<close>

section \<open>Reachability\<close>

definition rootSlots :: "'q heap \<Rightarrow> nat set" where
  "rootSlots hp = {j. \<exists>h \<in> set (rootRefs hp). slotRef hp h = Some j}"

definition reachable :: "'q heap \<Rightarrow> nat set" where
  "reachable hp = (pointsTo refs1 hp)\<^sup>* `` rootSlots hp"

lemma unmark_sameBut: "sameBut hp (unmarkAll hp)"
  by (simp add: sameBut_def unmarkAll_def option.map_comp comp_def)

lemma Collections_irrelevant [simp]:
  "slotRef (hp\<lparr>Collections := c\<rparr>) = slotRef hp"
  "pointsTo refs (hp\<lparr>Collections := c\<rparr>) = pointsTo refs hp"
  "rootRefs (hp\<lparr>Collections := c\<rparr>) = rootRefs hp"
  "markedSet (hp\<lparr>Collections := c\<rparr>) = markedSet hp"
proof -
  have l: "getLocal (hp\<lparr>Collections := c\<rparr>) = getLocal hp"
    by (simp add: fun_eq_iff getLocal_def Let_def)
  have "localForMark (hp\<lparr>Collections := c\<rparr>) = localForMark hp"
    unfolding fun_eq_iff localForMark_def l by simp
  then show s: "slotRef (hp\<lparr>Collections := c\<rparr>) = slotRef hp"
    by (simp add: fun_eq_iff slotRef_def)
  show "pointsTo refs (hp\<lparr>Collections := c\<rparr>) = pointsTo refs hp"
    by (simp add: pointsTo_def s)
qed (simp_all add: rootRefs_def markedSet_def)

lemma markPhase_spec:
  "sameBut (hp\<lparr>Collections := Collections hp + 1\<rparr>) (markPhase hp) \<and> markedSet (markPhase hp) = reachable hp"
proof -
  define h1 where "h1 = (unmarkAll hp)\<lparr>Collections := Collections hp + 1\<rparr>"
  have same1: "sameBut (hp\<lparr>Collections := Collections hp + 1\<rparr>) h1"
    by (simp add: h1_def sameBut_def unmarkAll_def option.map_comp comp_def)
  have none: "markedSet h1 = {}" by (auto simp: h1_def markedSet_def unmarkAll_def)
  have P: "pointsTo refs1 h1 = pointsTo refs1 hp" "rootSlots h1 = rootSlots hp"
    using refs1.pointsTo_sameBut [OF same1] slotRef_sameBut [OF same1] sameBut_fields(6) [OF same1]
    by (auto simp: rootSlots_def)
  obtain h2 work where m: "markHandles (rootRefs h1) (h1, []) = (h2, work)"
    by (cases "markHandles (rootRefs h1) (h1, [])")
  have "workOk h1 []" by (simp add: workOk_def)
  note sp = markHandles_spec [OF m this]
  have M: "markedSet h2 = rootSlots hp" "markedSet h2 \<subseteq> slotOf ` set work" "workOk h2 work"
      "sameBut h1 h2"
    using sp none P(2) by (auto simp: rootSlots_def)
  have P2: "pointsTo refs1 h2 = pointsTo refs1 hp"
    using refs1.pointsTo_sameBut [OF M(4)] P(1) by simp
  have D: "sameBut h2 (drain refs1 h2 work)
    \<and> rootSlots hp \<subseteq> markedSet (drain refs1 h2 work)
    \<and> markedSet (drain refs1 h2 work) \<subseteq> (pointsTo refs1 hp)\<^sup>* `` rootSlots hp
    \<and> (\<forall>i j. i \<in> markedSet (drain refs1 h2 work) \<longrightarrow> (i, j) \<in> pointsTo refs1 hp \<longrightarrow>
         j \<in> markedSet (drain refs1 h2 work))"
    unfolding M(1) [symmetric] P2 [symmetric]
    by (rule refs1.drain_spec [OF M(3)]) (use M(2) in blast)
  have "markPhase hp = drain refs1 h2 work"
    using m by (simp add: markPhase_def h1_def)
  moreover have "markedSet (drain refs1 h2 work) = reachable hp"
  proof
    show "markedSet (drain refs1 h2 work) \<subseteq> reachable hp"
      using D unfolding reachable_def by blast
    have "i \<in> rootSlots hp \<Longrightarrow> (i, j) \<in> (pointsTo refs1 hp)\<^sup>* \<Longrightarrow> j \<in> markedSet (drain refs1 h2 work)" for i j
    proof -
      assume i: "i \<in> rootSlots hp" and ij: "(i, j) \<in> (pointsTo refs1 hp)\<^sup>*"
      from ij show ?thesis
      proof (induction rule: rtrancl_induct)
        case base
        then show ?case using D i by blast
      next
        case (step y z)
        then show ?case using D by blast
      qed
    qed
    then show "reachable hp \<subseteq> markedSet (drain refs1 h2 work)"
      unfolding reachable_def by blast
  qed
  moreover have "sameBut h2 (drain refs1 h2 work)" using D by blast
  ultimately show ?thesis using same1 M(4) sameBut_trans by metis
qed

section \<open>The weak-map phase\<close>

text \<open>Heaps whose objects agree up to marks and up to the entries of weak maps.\<close>

definition sameObj :: "object \<Rightarrow> object \<Rightarrow> bool" where
  "sameObj x y \<longleftrightarrow> (\<exists>m d. y = x\<lparr>marked := m, omap := d\<rparr> \<and> (okind x \<noteq> KindWeakMap \<longrightarrow> d = omap x))"

definition similar :: "'q heap \<Rightarrow> 'q heap \<Rightarrow> bool" where
  "similar hp hp' \<longleftrightarrow> hp' = hp\<lparr>objs := objs hp'\<rparr> \<and> list_all2 (rel_option sameObj) (objs hp) (objs hp')"

lemma sameObj_refl: "sameObj x x"
  unfolding sameObj_def by (intro exI [of _ "marked x"] exI [of _ "omap x"]) simp

lemma sameObj_trans: "sameObj x y \<Longrightarrow> sameObj y z \<Longrightarrow> sameObj x z"
  unfolding sameObj_def by (elim exE conjE) (hypsubst, simp, blast)

lemma similar_refl [simp]: "similar hp hp"
  by (simp add: similar_def list.rel_refl option.rel_refl sameObj_refl)

lemma similar_trans:
  assumes "similar hp h1" "similar h1 h2"
  shows "similar hp h2"
proof -
  have "h2 = hp\<lparr>objs := objs h2\<rparr>"
  proof -
    have "h2 = h1\<lparr>objs := objs h2\<rparr>" "h1 = hp\<lparr>objs := objs h1\<rparr>" using assms by (auto simp: similar_def)
    then have "h2 = (hp\<lparr>objs := objs h1\<rparr>)\<lparr>objs := objs h2\<rparr>" by metis
    then show ?thesis by simp
  qed
  moreover have "list_all2 (rel_option sameObj) (objs hp) (objs h2)"
  proof (rule list_all2_trans [of "rel_option sameObj" "rel_option sameObj"])
    show "rel_option sameObj x y \<Longrightarrow> rel_option sameObj y z \<Longrightarrow> rel_option sameObj x z" for x y z
      by (cases x; cases y; cases z) (auto intro: sameObj_trans)
  qed (use assms in \<open>auto simp: similar_def\<close>)
  ultimately show ?thesis by (simp add: similar_def)
qed

lemma sameBut_similar:
  assumes "sameBut hp hp'"
  shows "similar hp hp'"
proof -
  have eq: "unmarkAll hp' = unmarkAll hp" using assms by (simp add: sameBut_def)
  have "hp' = (unmarkAll hp')\<lparr>objs := objs hp'\<rparr>" by (simp add: unmarkAll_def)
  also have "\<dots> = hp\<lparr>objs := objs hp'\<rparr>" unfolding eq by (simp add: unmarkAll_def)
  finally have 1: "hp' = hp\<lparr>objs := objs hp'\<rparr>" .
  have s: "sameObj x y" if "unmarkObj y = unmarkObj x" for x y
  proof -
    have "y = x\<lparr>marked := marked y, omap := omap x\<rparr>"
      using that by (cases x; cases y) (simp add: unmarkObj_def)
    then show ?thesis unfolding sameObj_def by blast
  qed
  have "rel_option sameObj (objs hp ! i) (objs hp' ! i)" if "i < length (objs hp)" for i
    using sameBut_objs(2) [OF assms that] by (cases "objs hp ! i"; cases "objs hp' ! i") (auto intro: s)
  then have "list_all2 (rel_option sameObj) (objs hp) (objs hp')"
    using sameBut_objs(1) [OF assms] by (simp add: list_all2_conv_all_nth)
  with 1 show ?thesis by (simp add: similar_def)
qed

lemma similar_fields:
  assumes "similar hp hp'"
  shows "length (objs hp') = length (objs hp)" "gens hp' = gens hp" "freeSlots hp' = freeSlots hp"
    "cowMap hp' = cowMap hp" "sealedRoot hp' = sealedRoot hp" "buildingRoot hp' = buildingRoot hp"
    "i < length (objs hp) \<Longrightarrow> rel_option sameObj (objs hp ! i) (objs hp' ! i)"
proof -
  have "hp' = hp\<lparr>objs := objs hp'\<rparr>" using assms by (simp add: similar_def)
  from arg_cong [OF this, of gens] arg_cong [OF this, of freeSlots] arg_cong [OF this, of cowMap]
    arg_cong [OF this, of sealedRoot] arg_cong [OF this, of buildingRoot]
  show "gens hp' = gens hp" "freeSlots hp' = freeSlots hp" "cowMap hp' = cowMap hp"
    "sealedRoot hp' = sealedRoot hp" "buildingRoot hp' = buildingRoot hp" by simp_all
  show "length (objs hp') = length (objs hp)"
    "i < length (objs hp) \<Longrightarrow> rel_option sameObj (objs hp ! i) (objs hp' ! i)"
    using assms by (auto simp: similar_def list_all2_conv_all_nth)
qed

lemma updObj_omap_similar:
  assumes "objs hp ! i = Some o'" "okind o' = KindWeakMap"
  shows "similar hp (updObj i (\<lambda>x. x\<lparr>omap := d\<rparr>) hp)"
proof -
  have "rel_option sameObj (objs hp ! k) ((objs hp)[i := Some (o'\<lparr>omap := d\<rparr>)] ! k)"
    if "k < length (objs hp)" for k
  proof (cases "k = i")
    case True
    have "sameObj o' (o'\<lparr>omap := d\<rparr>)"
      unfolding sameObj_def using assms(2) by (intro exI [of _ "marked o'"] exI [of _ d]) simp
    with True that assms show ?thesis by simp
  qed (use that in \<open>simp add: option.rel_refl sameObj_refl\<close>)
  then show ?thesis
    using assms(1) by (simp add: similar_def updObj_def list_all2_conv_all_nth)
qed

lemma updObj_omap_marked:
  "i < length (objs hp) \<Longrightarrow> markedSet (updObj i (\<lambda>x. x\<lparr>omap := d\<rparr>) hp) = markedSet hp"
  by (auto simp: markedSet_def updObj_def nth_list_update)

lemma getLocal_similar: "similar hp hp' \<Longrightarrow> getLocal hp' h = None \<longleftrightarrow> getLocal hp h = None"
proof -
  assume s: "similar hp hp'"
  have "objs hp' ! i = None \<longleftrightarrow> objs hp ! i = None" if "i < length (objs hp)" for i
    using similar_fields(7) [OF s that] by (cases "objs hp ! i"; cases "objs hp' ! i") auto
  then have "slotAt (objs hp') gs b k = None \<longleftrightarrow> slotAt (objs hp) gs b k = None" for gs b k
    using similar_fields(1) [OF s] by (auto simp: slotAt_def Let_def)
  then show ?thesis
    by (simp add: getLocal_def Let_def similar_fields [OF s])
qed

lemma weakEntries_spec:
  assumes "weakEntries ks vs (hp, work) = (r, (hp', work'))" "workOk hp work"
  shows "sameBut hp hp' \<and> markedSet hp \<subseteq> markedSet hp' \<and> workOk hp' work'"
  using assms
proof (induction ks arbitrary: vs hp work r)
  case (Cons k ks)
  show ?case
  proof (cases vs)
    case Nil
    then show ?thesis using Cons.prems by simp
  next
    case vs: (Cons v vs')
    show ?thesis
    proof (cases "IsPointer k \<and> (hIsRoot (valHandle k) \<or> markedNow hp (valHandle k))")
      case True
      obtain h1 w1 where m: "markHandles (valRefs [v]) (hp, work) = (h1, w1)"
        by (cases "markHandles (valRefs [v]) (hp, work)")
      note sp = markHandles_spec [OF m Cons.prems(2)]
      obtain r' where r': "weakEntries ks vs' (h1, w1) = (r', (hp', work'))"
        using Cons.prems(1) True m vs by (auto simp: Let_def split: prod.splits)
      have "sameBut h1 hp' \<and> markedSet h1 \<subseteq> markedSet hp' \<and> workOk hp' work'"
        using sp by (intro Cons.IH [OF r']) blast
      moreover have "sameBut hp h1" "markedSet hp \<subseteq> markedSet h1" using sp by blast+
      ultimately show ?thesis using sameBut_trans by (meson order_trans)
    next
      case False
      then have "weakEntries ks vs' (hp, work) = (r, (hp', work'))"
        using Cons.prems(1) vs by (auto simp: Let_def split: if_splits)
      then show ?thesis using Cons.prems(2) by (rule Cons.IH)
    qed
  qed
qed simp

lemma weakPhase_spec:
  assumes "weakPhase is (hp, work) = (hp', work')" "workOk hp work" "set is \<subseteq> {..< length (objs hp)}"
  shows "similar hp hp' \<and> markedSet hp \<subseteq> markedSet hp' \<and> workOk hp' work'"
  using assms
proof (induction "is" arbitrary: hp work)
  case (Cons i "is")
  show ?case
  proof (cases "\<exists>o'. objs hp ! i = Some o' \<and> marked o' \<and> okind o' = KindWeakMap \<and> omap o' \<noteq> None")
    case False
    then have "weakPhase is (hp, work) = (hp', work')"
      using Cons.prems(1) by (auto split: option.splits if_splits)
    then show ?thesis using Cons.prems(2,3) by (intro Cons.IH) auto
  next
    case True
    then obtain o' d where o': "objs hp ! i = Some o'" "marked o'" "okind o' = KindWeakMap" "omap o' = Some d"
      by auto
    obtain nk nv h1 w1 where e: "weakEntries (mapKeys d) (mapValues d) (hp, work) = ((nk, nv), (h1, w1))"
      by (metis surj_pair)
    note sp = weakEntries_spec [OF e Cons.prems(2)]
    define h2 where "h2 = updObj i (\<lambda>x. x\<lparr>omap := Some \<lparr>mapKeys = nk, mapValues = nv\<rparr>\<rparr>) h1"
    have w: "weakPhase is (h2, w1) = (hp', work')"
      using Cons.prems(1) o' e by (simp add: h2_def)
    have sim1: "similar hp h1" using sp by (blast intro: sameBut_similar)
    have len: "i < length (objs h1)" using Cons.prems(3) similar_fields(1) [OF sim1] by simp
    obtain o1 where o1: "objs h1 ! i = Some o1" "okind o1 = KindWeakMap"
      using similar_fields(7) [OF sim1, of i] o' Cons.prems(3)
      by (auto simp: sameObj_def rel_option_iff split: option.splits)
    have sim2: "similar h1 h2" unfolding h2_def using o1 by (rule updObj_omap_similar)
    have M2: "markedSet h2 = markedSet h1" unfolding h2_def using len by (rule updObj_omap_marked)
    have "workOk h2 w1" using sp getLocal_similar [OF sim2] M2 by (simp add: workOk_def)
    moreover have "set is \<subseteq> {..< length (objs h2)}"
      using Cons.prems(3) similar_fields(1) [OF sim1] similar_fields(1) [OF sim2] by simp
    ultimately have "similar h2 hp' \<and> markedSet h2 \<subseteq> markedSet hp' \<and> workOk hp' work'"
      by (rule Cons.IH [OF w])
    then show ?thesis using sim1 sim2 similar_trans M2 sp by (metis (no_types, lifting) order_trans)
  qed
qed simp

lemma drain2_keeps:
  assumes "workOk hp work"
  shows "sameBut hp (drain refs2 hp work) \<and> markedSet hp \<subseteq> markedSet (drain refs2 hp work)"
proof -
  have "r = refs2 \<Longrightarrow> workOk hp work \<Longrightarrow>
      sameBut hp (drain refs2 hp work) \<and> markedSet hp \<subseteq> markedSet (drain refs2 hp work)" for r
  proof (induction r hp work rule: drain.induct)
    case (2 r hp h work)
    then obtain o' where o': "getLocal hp h = Some o'" by (auto simp: workOk_def)
    obtain h1 w1 where m: "markHandles (refs2 o') (hp, work) = (h1, w1)"
      by (cases "markHandles (refs2 o') (hp, work)")
    have "workOk hp work" using 2(4) by (simp add: workOk_def)
    note sp = markHandles_spec [OF m this]
    have D: "drain refs2 hp (h # work) = drain refs2 h1 w1"
      using getLocal_Get [OF o'] m by simp
    have "sameBut h1 (drain refs2 h1 w1) \<and> markedSet h1 \<subseteq> markedSet (drain refs2 h1 w1)"
      by (rule "2.IH"(2) [OF getLocal_Get [OF o']]) (use m 2(3) sp in auto)
    then show ?case unfolding D using sp sameBut_trans by blast
  qed simp
  then show ?thesis using assms by blast
qed

section \<open>The sweep\<close>

lemma TrackFree_fields [frame_simps]:
  "objs (TrackFree tr n hp) = objs hp" "gens (TrackFree tr n hp) = gens hp"
  "freeSlots (TrackFree tr n hp) = freeSlots hp" "cowMap (TrackFree tr n hp) = cowMap hp"
  "sealedRoot (TrackFree tr n hp) = sealedRoot hp" "buildingRoot (TrackFree tr n hp) = buildingRoot hp"
  "rootShape (TrackFree tr n hp) = rootShape hp" "rootRefs (TrackFree tr n hp) = rootRefs hp"
  by (simp_all add: TrackFree_def rootRefs_def)

definition sweepable :: "'q heap \<Rightarrow> nat \<Rightarrow> bool" where
  "sweepable hp i \<longleftrightarrow> objs hp ! i \<noteq> None \<and> i \<notin> markedSet hp"

definition sweepOne :: "'q tracker \<Rightarrow> (nat \<Rightarrow> nat) \<Rightarrow> nat \<Rightarrow> 'q heap \<Rightarrow> 'q heap" where
  "sweepOne tr ln i hp =
     (TrackFree tr (freedBytes ln (the (objs hp ! i))) hp)
       \<lparr>objs := (objs hp)[i := None], gens := (gens hp)[i := nextGen (gens hp ! i)],
        freeSlots := i # freeSlots hp, Swept := Swept hp + 1\<rparr>"

lemma sweep_Cons:
  assumes "i < length (objs hp)"
  shows "sweep tr ln (i # is) hp =
    sweep tr ln is (if sweepable hp i then sweepOne tr ln i hp else hp)"
  using assms by (cases "objs hp ! i") (auto simp: sweepable_def markedSet_def sweepOne_def)

lemma sweepOne_fields:
  "objs (sweepOne tr ln i hp) = (objs hp)[i := None]"
  "gens (sweepOne tr ln i hp) = (gens hp)[i := nextGen (gens hp ! i)]"
  "freeSlots (sweepOne tr ln i hp) = i # freeSlots hp"
  "cowMap (sweepOne tr ln i hp) = cowMap hp" "sealedRoot (sweepOne tr ln i hp) = sealedRoot hp"
  "buildingRoot (sweepOne tr ln i hp) = buildingRoot hp" "rootRefs (sweepOne tr ln i hp) = rootRefs hp"
  by (simp_all add: sweepOne_def frame_simps rootRefs_def TrackFree_def)

lemma sweepable_sweepOne: "k \<noteq> i \<Longrightarrow> sweepable (sweepOne tr ln i hp) k = sweepable hp k"
  by (simp add: sweepable_def markedSet_def sweepOne_fields)

definition sweptTo :: "nat list \<Rightarrow> 'q heap \<Rightarrow> 'q heap \<Rightarrow> bool" where
  "sweptTo is hp hp' \<longleftrightarrow> length (objs hp') = length (objs hp) \<and> length (gens hp') = length (gens hp)
     \<and> (\<forall>k < length (objs hp). objs hp' ! k = (if k \<in> set is \<and> sweepable hp k then None else objs hp ! k))
     \<and> (\<forall>k < length (gens hp). gens hp' ! k =
          (if k \<in> set is \<and> sweepable hp k then nextGen (gens hp ! k) else gens hp ! k))
     \<and> freeSlots hp' = rev (filter (sweepable hp) is) @ freeSlots hp
     \<and> cowMap hp' = cowMap hp \<and> sealedRoot hp' = sealedRoot hp \<and> buildingRoot hp' = buildingRoot hp
     \<and> rootRefs hp' = rootRefs hp"

lemma sweep_spec:
  assumes "distinct is" "set is \<subseteq> {..< length (objs hp)}" "length (objs hp) \<le> length (gens hp)"
  shows "sweptTo is hp (sweep tr ln is hp)"
  using assms
proof (induction "is" arbitrary: hp)
  case Nil
  then show ?case by (simp add: sweptTo_def)
next
  case (Cons i "is")
  then have i: "i < length (objs hp)" "i \<notin> set is" "i < length (gens hp)" by auto
  show ?case
  proof (cases "sweepable hp i")
    case False
    have "sweptTo is hp (sweep tr ln is hp)" using Cons by auto
    with False show ?thesis unfolding sweep_Cons [OF i(1)] by (auto simp: sweptTo_def)
  next
    case True
    let ?h = "sweepOne tr ln i hp"
    have IH: "sweptTo is ?h (sweep tr ln is ?h)"
      using Cons by (intro Cons.IH) (auto simp: sweepOne_fields)
    have f: "filter (sweepable ?h) is = filter (sweepable hp) is"
    proof (rule filter_cong)
      fix x assume "x \<in> set is"
      then have "x \<noteq> i" using i(2) by blast
      then show "sweepable ?h x = sweepable hp x" by (rule sweepable_sweepOne)
    qed simp
    have eq: "k \<in> set is \<and> sweepable ?h k \<longleftrightarrow> k \<in> set is \<and> sweepable hp k" for k
      using i(2) sweepable_sweepOne [of k i tr ln hp] by (cases "k = i") auto
    have "objs (sweep tr ln is ?h) ! k = (if k \<in> set (i # is) \<and> sweepable hp k then None else objs hp ! k)"
      if "k < length (objs hp)" for k
      using IH that True i eq unfolding sweptTo_def sweepOne_fields by (cases "k = i") auto
    moreover have "gens (sweep tr ln is ?h) ! k =
        (if k \<in> set (i # is) \<and> sweepable hp k then nextGen (gens hp ! k) else gens hp ! k)"
      if "k < length (gens hp)" for k
      using IH that True i eq unfolding sweptTo_def sweepOne_fields by (cases "k = i") auto
    ultimately show ?thesis
      unfolding sweep_Cons [OF i(1)] if_P [OF True] using IH True f
      unfolding sweptTo_def sweepOne_fields by simp
  qed
qed

section \<open>A whole collection\<close>

text \<open>Every slot has a generation.\<close>

definition gens_ok :: "'q heap \<Rightarrow> bool" where
  "gens_ok hp \<longleftrightarrow> length (objs hp) \<le> length (gens hp)"

text \<open>The heap just before the sweep.\<close>

lemma Collect_swept:
  assumes "\<not> sealedRoot hp" "gens_ok hp"
  obtains h3 where "similar (hp\<lparr>Collections := Collections hp + 1\<rparr>) h3" "reachable hp \<subseteq> markedSet h3"
    "sweptTo [1 ..< length (objs hp)] h3 (CollectHeap tr ln hp)"
    "CollectHeap tr ln hp = sweep tr ln [1 ..< length (objs hp)] h3"
    "(\<And>i o'. i \<in> reachable hp \<Longrightarrow> objs hp ! i = Some o' \<Longrightarrow> okind o' \<noteq> KindWeakMap) \<Longrightarrow>
      markedSet h3 = reachable hp"
proof -
  let ?hp = "hp\<lparr>Collections := Collections hp + 1\<rparr>"
  define h1 where "h1 = markPhase hp"
  have 1: "sameBut ?hp h1" "markedSet h1 = reachable hp" using markPhase_spec by (auto simp: h1_def)
  have len1: "length (objs h1) = length (objs hp)" using sameBut_objs(1) [OF 1(1)] by simp
  obtain h2 w2 where w: "weakPhase [1 ..< length (objs h1)] (h1, []) = (h2, w2)"
    by (metis surj_pair)
  have 2: "similar h1 h2 \<and> markedSet h1 \<subseteq> markedSet h2 \<and> workOk h2 w2"
    by (rule weakPhase_spec [OF w]) (auto simp: workOk_def)
  define h3 where "h3 = drain refs2 h2 w2"
  have 3: "sameBut h2 h3 \<and> markedSet h2 \<subseteq> markedSet h3"
    unfolding h3_def using 2 by (intro drain2_keeps) blast
  have sim: "similar ?hp h3"
    using sameBut_similar [OF 1(1)] 2 3 sameBut_similar similar_trans by blast
  have len: "length (objs h3) = length (objs hp)" "gens h3 = gens hp"
    using similar_fields(1,2) [OF sim] by simp_all
  have C: "CollectHeap tr ln hp = sweep tr ln [1 ..< length (objs hp)] h3"
    using assms(1) w len by (simp add: CollectHeap_def Let_def h1_def [symmetric] h3_def [symmetric])
  have "sweptTo [1 ..< length (objs hp)] h3 (CollectHeap tr ln hp)"
    unfolding C using assms(2) len by (intro sweep_spec) (auto simp: gens_ok_def)
  moreover have "markedSet h3 = reachable hp"
    if none: "\<And>i o'. i \<in> reachable hp \<Longrightarrow> objs hp ! i = Some o' \<Longrightarrow> okind o' \<noteq> KindWeakMap"
  proof -
    have "weakPhase is (h1, []) = (h1, [])" if "set is \<subseteq> {..< length (objs h1)}" for "is"
      using that
    proof (induction "is")
      case (Cons i "is")
      have "\<not> (\<exists>o'. objs h1 ! i = Some o' \<and> marked o' \<and> okind o' = KindWeakMap)"
      proof
        assume "\<exists>o'. objs h1 ! i = Some o' \<and> marked o' \<and> okind o' = KindWeakMap"
        then obtain o' where o': "objs h1 ! i = Some o'" "marked o'" "okind o' = KindWeakMap" by auto
        then have i: "i \<in> reachable hp" using 1(2) Cons.prems by (auto simp: markedSet_def)
        obtain x where x: "objs hp ! i = Some x" "unmarkObj o' = unmarkObj x"
          using sameBut_objs(2) [OF 1(1), of i] o'(1) Cons.prems len1 by (cases "objs hp ! i") auto
        have "okind o' = okind x" using arg_cong [OF x(2), of okind] by (simp add: unmarkObj_def)
        with none [OF i x(1)] o'(3) show False by simp
      qed
      then show ?case using Cons by (auto split: option.splits)
    qed simp
    from this [of "[1 ..< length (objs h1)]"] have "(h1, []) = (h2, w2)" using w by fastforce
    then have "h2 = h1" "w2 = []" by auto
    then show ?thesis using 1(2) by (simp add: h3_def)
  qed
  moreover have "reachable hp \<subseteq> markedSet h3" using 1(2) 2 3 by blast
  ultimately show ?thesis using sim C that by blast
qed


lemma reachable_slot: "i \<in> reachable hp \<Longrightarrow> i < length (objs hp) \<and> objs hp ! i \<noteq> None"
proof -
  assume "i \<in> reachable hp"
  then have "i \<in> rootSlots hp \<or> (\<exists>k. (k, i) \<in> pointsTo refs1 hp)"
    unfolding reachable_def by (auto elim: rtranclE)
  then show ?thesis by (auto simp: rootSlots_def pointsTo_def dest: slotRef_slot)
qed

lemma marked_slot: "i \<in> markedSet hp \<Longrightarrow> \<not> sweepable hp i"
  by (simp add: sweepable_def)

lemma getLocal_fields:
  "objs h1 = objs h2 \<Longrightarrow> gens h1 = gens h2 \<Longrightarrow> sealedRoot h1 = sealedRoot h2 \<Longrightarrow>
   buildingRoot h1 = buildingRoot h2 \<Longrightarrow> getLocal h1 h = getLocal h2 h"
  by (simp add: getLocal_def Let_def)

lemma slot_zero: "getLocal hp h = Some o' \<Longrightarrow> 0 < slotOf h"
  by (auto simp: getLocal_def slotAt_def Let_def slotOf_def stripRoot_def split: if_splits)

text \<open>The slot of a surviving handle keeps its generation, so the handle still resolves.\<close>

lemma getLocal_survives:
  fixes hp hp' :: "'q heap"
  assumes "getLocal hp h = Some o'" "length (objs hp') = length (objs hp)"
    and "gens hp' ! slotOf h = gens hp ! slotOf h" "objs hp' ! slotOf h = Some x"
    and "sealedRoot hp' = sealedRoot hp" "buildingRoot hp' = buildingRoot hp"
  shows "getLocal hp' h = Some x"
proof -
  define k where "k = (if hIsRoot h then stripRoot h else h)"
  have k: "unat (hIndex k) = slotOf h"
    using assms(1) slotOf_stripRoot [of h] by (auto simp: k_def slotOf_def hIsRoot_def)
  have g: "getLocal y h = (if h = NoHandle \<or> (hIsRoot h \<and> \<not> (sealedRoot y \<or> buildingRoot y)) then None
      else slotAt (objs y) (gens y) (sealedRoot y \<or> buildingRoot y) k)" for y :: "'q heap"
    by (simp add: getLocal_def Let_def k_def)
  show ?thesis
    using assms unfolding g by (auto simp: slotAt_def Let_def k split: if_splits)
qed

lemma Collect_keeps:
  assumes "\<not> sealedRoot hp" "gens_ok hp" "i \<in> reachable hp" "objs hp ! i = Some o'"
  shows "\<exists>x. objs (CollectHeap tr ln hp) ! i = Some x \<and> sameObj o' x
    \<and> gens (CollectHeap tr ln hp) ! i = gens hp ! i"
proof -
  obtain h3 where h3: "similar (hp\<lparr>Collections := Collections hp + 1\<rparr>) h3" "reachable hp \<subseteq> markedSet h3"
    "sweptTo [1 ..< length (objs hp)] h3 (CollectHeap tr ln hp)"
    using Collect_swept [OF assms(1,2)] by metis
  have i: "i < length (objs hp)" using assms(3) reachable_slot by blast
  have ns: "\<not> sweepable h3 i" using assms(3) h3(2) by (blast dest: marked_slot)
  have f: "length (objs h3) = length (objs hp)" "gens h3 = gens hp"
    using similar_fields(1,2) [OF h3(1)] by simp_all
  have "rel_option sameObj (objs hp ! i) (objs h3 ! i)"
    using similar_fields(7) [OF h3(1), of i] i by simp
  then obtain x where "objs h3 ! i = Some x" "sameObj o' x"
    using assms(4) by (cases "objs h3 ! i") auto
  moreover have "objs (CollectHeap tr ln hp) ! i = objs h3 ! i" "gens (CollectHeap tr ln hp) ! i = gens h3 ! i"
    using h3(3) ns i f assms(2) by (auto simp: sweptTo_def gens_ok_def)
  ultimately show ?thesis using f by simp
qed

lemma Collect_fields:
  assumes "gens_ok hp"
  shows "length (objs (CollectHeap tr ln hp)) = length (objs hp)"
    "length (gens (CollectHeap tr ln hp)) = length (gens hp)"
    "sealedRoot (CollectHeap tr ln hp) = sealedRoot hp" "buildingRoot (CollectHeap tr ln hp) = buildingRoot hp"
    "cowMap (CollectHeap tr ln hp) = cowMap hp"
proof -
  have "length (objs (CollectHeap tr ln hp)) = length (objs hp) \<and>
    length (gens (CollectHeap tr ln hp)) = length (gens hp) \<and>
    sealedRoot (CollectHeap tr ln hp) = sealedRoot hp \<and> buildingRoot (CollectHeap tr ln hp) = buildingRoot hp \<and>
    cowMap (CollectHeap tr ln hp) = cowMap hp"
  proof (cases "sealedRoot hp")
    case True
    then show ?thesis by (simp add: CollectHeap_def)
  next
    case False
    obtain h3 where h3: "similar (hp\<lparr>Collections := Collections hp + 1\<rparr>) h3"
      "sweptTo [1 ..< length (objs hp)] h3 (CollectHeap tr ln hp)"
      using Collect_swept [OF False assms] by metis
    show ?thesis using h3(2) similar_fields [OF h3(1)] by (simp add: sweptTo_def)
  qed
  then show "length (objs (CollectHeap tr ln hp)) = length (objs hp)"
    "length (gens (CollectHeap tr ln hp)) = length (gens hp)"
    "sealedRoot (CollectHeap tr ln hp) = sealedRoot hp" "buildingRoot (CollectHeap tr ln hp) = buildingRoot hp"
    "cowMap (CollectHeap tr ln hp) = cowMap hp" by simp_all
qed

lemma Collect_slotRef:
  assumes "\<not> sealedRoot hp" "gens_ok hp" "slotRef hp h = Some j" "j \<in> reachable hp"
  shows "slotRef (CollectHeap tr ln hp) h = Some j"
proof -
  obtain l x where lx: "localForMark hp h = (l, Some x)" "slotOf l = j"
    using assms(3) by (auto simp: slotRef_def split: prod.splits option.splits)
  have g: "getLocal hp l = Some x"
    using lx(1) by (auto simp: localForMark_def split: if_splits option.splits)
  have "objs hp ! j = Some x" using localForMark_slot [OF lx(1)] lx(2) by simp
  then obtain y where y: "objs (CollectHeap tr ln hp) ! j = Some y" "gens (CollectHeap tr ln hp) ! j = gens hp ! j"
    using Collect_keeps [OF assms(1,2,4)] by blast
  have "getLocal (CollectHeap tr ln hp) l = Some y"
    by (rule getLocal_survives [OF g]) (use y lx(2) Collect_fields [OF assms(2)] in auto)
  then have "localForMark (CollectHeap tr ln hp) h = (l, Some y)"
    using lx(1) by (auto simp: localForMark_def Collect_fields [OF assms(2)] split: if_splits option.splits)
  then show ?thesis using lx(2) by (simp add: slotRef_def)
qed

section \<open>Properties\<close>

section \<open>Liveness, independently of the collector\<close>

text \<open>
  What keeps objects alive, as sets: the values an object holds (the entries of a weak map
  aside), its prototype and its environment, and the values the heap holds as roots.
\<close>

definition objVals :: "object \<Rightarrow> val set" where
  "objVals o' = set (slots o') \<union> set (elements o') \<union> {prim o'}
     \<union> {ObjectValue h |h. h = homeObject o' \<and> h \<noteq> NoHandle}
     \<union> {v. \<exists>m. omap o' = Some m \<and> okind o' \<noteq> KindWeakMap \<and> v \<in> set (mapKeys m) \<union> set (mapValues m)}
     \<union> {v. \<exists>s. oset o' = Some s \<and> v \<in> set s}
     \<union> {v. \<exists>p. opromise o' = Some p \<and> (v = promiseResult p \<or>
          (\<exists>r \<in> set (promiseReactions p). v \<in> {onFulfilled r, onRejected r, reactionChild r}))}
     \<union> {v. \<exists>t d. oproxy o' = Some (t, d) \<and> v \<in> {t, d}}
     \<union> {v. \<exists>g. ogen o' = Some g \<and> v \<in> {genThis g, genDelegate g, genSent g} \<union> set (genStack g)}"

definition handlesOf :: "val set \<Rightarrow> handle set" where
  "handlesOf S = {valHandle v |v. v \<in> S \<and> IsPointer v}"

definition objRefs :: "object \<Rightarrow> handle set" where
  "objRefs o' = handlesOf (objVals o') \<union> ({proto o', oenv o'} - {NoHandle})"

definition rootVals :: "'q heap \<Rightarrow> val set" where
  "rootVals hp = hostCell hp ` set (roots hp) \<union> set (vstack hp) \<union> set (extRoots hp)
     \<union> (ObjectValue \<circ> snd) ` set (cowMap hp)
     \<union> {ObjectValue h |h. h \<in> {objectProto hp, arrayProto hp, functionProto hp} \<and> h \<noteq> NoHandle}"

definition rootHandles :: "'q heap \<Rightarrow> handle set" where
  "rootHandles hp = handlesOf (rootVals hp)"

text \<open>A slot is live when a root names it, or a live object does.\<close>

inductive_set liveSlots :: "'q heap \<Rightarrow> nat set" for hp :: "'q heap" where
  root: "h \<in> rootHandles hp \<Longrightarrow> slotRef hp h = Some j \<Longrightarrow> j \<in> liveSlots hp"
| ref: "i \<in> liveSlots hp \<Longrightarrow> i < length (objs hp) \<Longrightarrow> objs hp ! i = Some o' \<Longrightarrow> h \<in> objRefs o' \<Longrightarrow>
    slotRef hp h = Some j \<Longrightarrow> j \<in> liveSlots hp"

lemma set_valRefs: "set (valRefs vs) = handlesOf (set vs)"
  by (auto simp: valRefs_def handlesOf_def)

lemma handlesOf_Un: "handlesOf (A \<union> B) = handlesOf A \<union> handlesOf B"
  by (auto simp: handlesOf_def)

lemma handlesOf_empty [simp]: "handlesOf {} = {}"
  by (simp add: handlesOf_def)

lemma handlesOf_UN: "handlesOf (\<Union>x \<in> A. B x) = (\<Union>x \<in> A. handlesOf (B x))"
  by (auto simp: handlesOf_def)

lemma set_refs1: "set (refs1 o') = objRefs o'"
proof -
  have h: "set (if homeObject o' \<noteq> NoHandle then valRefs [ObjectValue (homeObject o')] else [])
      = handlesOf {ObjectValue h |h. h = homeObject o' \<and> h \<noteq> NoHandle}"
    by (auto simp: set_valRefs handlesOf_def)
  have m: "set (case omap o' of None \<Rightarrow> []
        | Some m \<Rightarrow> if okind o' \<noteq> KindWeakMap then valRefs (mapKeys m) @ valRefs (mapValues m) else [])
      = handlesOf {v. \<exists>m. omap o' = Some m \<and> okind o' \<noteq> KindWeakMap \<and> v \<in> set (mapKeys m) \<union> set (mapValues m)}"
    by (cases "omap o'") (auto simp: set_valRefs handlesOf_def)
  have s: "set (case oset o' of None \<Rightarrow> [] | Some s \<Rightarrow> valRefs s) = handlesOf {v. \<exists>s. oset o' = Some s \<and> v \<in> set s}"
    by (cases "oset o'") (auto simp: set_valRefs)
  have p: "set (case opromise o' of None \<Rightarrow> [] | Some p \<Rightarrow> valRefs [promiseResult p]
        @ concat (map (\<lambda>r. valRefs [onFulfilled r, onRejected r, reactionChild r]) (promiseReactions p)))
      = handlesOf {v. \<exists>p. opromise o' = Some p \<and> (v = promiseResult p \<or>
          (\<exists>r \<in> set (promiseReactions p). v \<in> {onFulfilled r, onRejected r, reactionChild r}))}"
    by (cases "opromise o'") (auto simp: set_valRefs handlesOf_def)
  have x: "set (case oproxy o' of None \<Rightarrow> [] | Some (target, handler) \<Rightarrow> valRefs [target, handler])
      = handlesOf {v. \<exists>t d. oproxy o' = Some (t, d) \<and> v \<in> {t, d}}"
    by (cases "oproxy o'") (auto simp: set_valRefs handlesOf_def)
  have g: "set (case ogen o' of None \<Rightarrow> []
        | Some g \<Rightarrow> valRefs [genThis g, genDelegate g, genSent g] @ valRefs (genStack g))
      = handlesOf {v. \<exists>g. ogen o' = Some g \<and> v \<in> {genThis g, genDelegate g, genSent g} \<union> set (genStack g)}"
    by (cases "ogen o'") (auto simp: set_valRefs handlesOf_def)
  have f: "set (fieldRef (proto o')) \<union> set (fieldRef (oenv o')) = {proto o', oenv o'} - {NoHandle}"
    by (auto simp: fieldRef_def)
  show ?thesis
    unfolding refs1_def objRefs_def objVals_def set_append h m s p x g set_valRefs handlesOf_Un f [symmetric]
    by (simp add: Un_ac)
qed

lemma set_rootRefs: "set (rootRefs hp) = rootHandles hp"
proof -
  have p: "set (if h \<noteq> NoHandle then valRefs [ObjectValue h] else []) = handlesOf {ObjectValue k |k. k = h \<and> k \<noteq> NoHandle}" for h
    by (auto simp: set_valRefs handlesOf_def)
  have "{ObjectValue h |h. h \<in> {objectProto hp, arrayProto hp, functionProto hp} \<and> h \<noteq> NoHandle}
      = {ObjectValue k |k. k = objectProto hp \<and> k \<noteq> NoHandle}
        \<union> {ObjectValue k |k. k = arrayProto hp \<and> k \<noteq> NoHandle}
        \<union> {ObjectValue k |k. k = functionProto hp \<and> k \<noteq> NoHandle}" by blast
  then show ?thesis
    unfolding rootRefs_def rootHandles_def rootVals_def set_append p set_valRefs handlesOf_Un set_map
    by (simp add: Un_assoc handlesOf_Un)
qed

lemma liveSlots_reachable: "liveSlots hp = reachable hp"
proof
  show "liveSlots hp \<subseteq> reachable hp"
  proof
    fix j assume "j \<in> liveSlots hp"
    then show "j \<in> reachable hp"
    proof induction
      case (root h j)
      then show ?case unfolding reachable_def rootSlots_def set_rootRefs by blast
    next
      case (ref i o' h j)
      have "(i, j) \<in> pointsTo refs1 hp" using ref.hyps unfolding pointsTo_def set_refs1 by blast
      then show ?case using ref.IH unfolding reachable_def by (auto intro: rtrancl_into_rtrancl)
    qed
  qed
  show "reachable hp \<subseteq> liveSlots hp"
  proof
    fix j assume "j \<in> reachable hp"
    then obtain i where i: "i \<in> rootSlots hp" "(i, j) \<in> (pointsTo refs1 hp)\<^sup>*"
      unfolding reachable_def by blast
    from i(2) show "j \<in> liveSlots hp"
    proof induction
      case base
      then show ?case using i(1) unfolding rootSlots_def set_rootRefs by (auto intro: liveSlots.root)
    next
      case (step y z)
      then show ?case unfolding pointsTo_def set_refs1 by (auto intro: liveSlots.ref)
    qed
  qed
qed

text \<open>
  C1. A collection keeps every object that is reachable from the roots without going through the
  entries of weak maps (the references \<open>objRefs\<close>): it stays in its slot, under its generation and
  with its contents, except that a weak map may lose entries.  Those references of a reachable
  object, and those of a root, that resolved before still resolve, to the same slot.
\<close>

theorem Collect_keeps_reachable:
  assumes "\<not> sealedRoot hp" "gens_ok hp" "i \<in> liveSlots hp"
  shows "(\<exists>o' x. objs hp ! i = Some o' \<and> objs (CollectHeap tr ln hp) ! i = Some x \<and> sameObj o' x
      \<and> gens (CollectHeap tr ln hp) ! i = gens hp ! i
      \<and> (\<forall>h \<in> objRefs o'. \<forall>j. slotRef hp h = Some j \<longrightarrow> slotRef (CollectHeap tr ln hp) h = Some j))
    \<and> (\<forall>h \<in> rootHandles hp. \<forall>j. slotRef hp h = Some j \<longrightarrow> slotRef (CollectHeap tr ln hp) h = Some j)"
proof -
  note live = assms(3) [unfolded liveSlots_reachable]
  obtain o' where o': "objs hp ! i = Some o'" "i < length (objs hp)"
    using reachable_slot [OF live] by auto
  have "j \<in> reachable hp" if "h \<in> objRefs o'" "slotRef hp h = Some j" for h j
  proof -
    have "(i, j) \<in> pointsTo refs1 hp" using that o' unfolding pointsTo_def set_refs1 by blast
    then show ?thesis using live unfolding reachable_def
      by (auto intro: rtrancl_into_rtrancl)
  qed
  moreover have "j \<in> reachable hp" if "h \<in> rootHandles hp" "slotRef hp h = Some j" for h j
    using that unfolding reachable_def rootSlots_def set_rootRefs by blast
  ultimately have refs: "\<forall>h \<in> objRefs o'. \<forall>j. slotRef hp h = Some j \<longrightarrow> slotRef (CollectHeap tr ln hp) h = Some j"
      "\<forall>h \<in> rootHandles hp. \<forall>j. slotRef hp h = Some j \<longrightarrow> slotRef (CollectHeap tr ln hp) h = Some j"
    using Collect_slotRef [OF assms(1,2)] by blast+
  obtain x where x: "objs (CollectHeap tr ln hp) ! i = Some x" "sameObj o' x"
      "gens (CollectHeap tr ln hp) ! i = gens hp ! i"
    using Collect_keeps [OF assms(1,2) live o'(1), of tr ln] by blast
  show ?thesis
    by (rule conjI [OF _ refs(2)]) (intro exI [of _ o'] exI [of _ x] conjI o'(1) x refs(1))
qed

text \<open>
  C4. When no reachable object is a weak map, a collection frees exactly the unreachable
  objects, and the generation of each freed slot moves on while the others keep theirs.
\<close>

theorem Collect_exact:
  assumes "\<not> sealedRoot hp" "gens_ok hp" "0 < i" "i < length (objs hp)" "objs hp ! i \<noteq> None"
    and "\<And>k o'. k \<in> liveSlots hp \<Longrightarrow> objs hp ! k = Some o' \<Longrightarrow> okind o' \<noteq> KindWeakMap"
  shows "(objs (CollectHeap tr ln hp) ! i \<noteq> None \<longleftrightarrow> i \<in> liveSlots hp)
    \<and> gens (CollectHeap tr ln hp) ! i = (if i \<in> liveSlots hp then gens hp ! i else nextGen (gens hp ! i))"
proof -
  obtain h3 where h3: "similar (hp\<lparr>Collections := Collections hp + 1\<rparr>) h3"
    "sweptTo [1 ..< length (objs hp)] h3 (CollectHeap tr ln hp)" "markedSet h3 = liveSlots hp"
    using Collect_swept [OF assms(1,2)] assms(6) unfolding liveSlots_reachable by metis
  have "rel_option sameObj (objs hp ! i) (objs h3 ! i)"
    using similar_fields(7) [OF h3(1), of i] assms(4) by simp
  then have "sweepable h3 i \<longleftrightarrow> i \<notin> liveSlots hp" "objs h3 ! i \<noteq> None"
    using assms(5) h3(3) by (auto simp: sweepable_def rel_option_iff split: option.splits)
  then show ?thesis
    using h3(2) assms(2-4) similar_fields(1,2) [OF h3(1)] by (auto simp: sweptTo_def gens_ok_def)
qed

text \<open>
  An input for both: slot 1 is on the value stack and refers to slot 2, and nothing refers to
  slot 3.
\<close>

definition demoHeap :: "unit heap" where
  "demoHeap = (NewHeap ())\<lparr>
     objs := [None, Some (zeroObject\<lparr>slots := [ObjectValue (makeHandle 2 0)]\<rparr>), Some zeroObject, Some zeroObject],
     gens := [0, 0, 0, 0], vstack := [ObjectValue (makeHandle 1 0)]\<rparr>"

lemma demo_reachable: "2 \<in> liveSlots demoHeap"
proof -
  have "slotRef demoHeap (makeHandle 1 0) = Some 1" "makeHandle 1 0 \<in> set (rootRefs demoHeap)"
    by code_simp+
  then have "1 \<in> rootSlots demoHeap" unfolding rootSlots_def by blast
  moreover have "slotRef demoHeap (makeHandle 2 0) = Some 2" by code_simp
  moreover have "makeHandle 2 0 \<in> set (refs1 (the (objs demoHeap ! 1)))" "1 < length (objs demoHeap)"
      "objs demoHeap ! 1 \<noteq> None" by code_simp+
  ultimately have "1 \<in> rootSlots demoHeap" "(1, 2) \<in> pointsTo refs1 demoHeap"
    by (auto simp: pointsTo_def)
  then show ?thesis unfolding liveSlots_reachable reachable_def by blast
qed

lemma Collect_keeps_reachable_witness:
  "\<exists>x. objs (CollectHeap (\<lambda>n q. (q, True)) (\<lambda>_. 0) demoHeap) ! 2 = Some x"
  using Collect_keeps_reachable [of demoHeap 2 "\<lambda>n q. (q, True)" "\<lambda>_. 0"] demo_reachable
  by (auto simp: gens_ok_def demoHeap_def NewHeap_def)

lemma Collect_exact_witness:
  "objs (CollectHeap (\<lambda>n q. (q, True)) (\<lambda>_. 0) demoHeap) ! 2 \<noteq> None"
proof -
  have "okind o' \<noteq> KindWeakMap" if "k \<in> liveSlots demoHeap" "objs demoHeap ! k = Some o'" for k o'
    using reachable_slot [OF that(1) [unfolded liveSlots_reachable]] that(2)
    by (auto simp: demoHeap_def NewHeap_def zeroObject_def less_Suc_eq numeral_eq_Suc)
  then show ?thesis
    using Collect_exact [of demoHeap 2 "\<lambda>n q. (q, True)" "\<lambda>_. 0"] demo_reachable
    by (auto simp: gens_ok_def demoHeap_def NewHeap_def)
qed

text \<open>
  With a weak map, what its values refer to is followed by the second loop only, which leaves
  the entries of maps and sets (and promises, proxies and generators) out: slot 1 is a weak map
  whose live key is slot 2 and whose value, slot 3, is a map that holds slot 4.  The collection
  keeps slot 3, and frees slot 4 under it.
\<close>

definition weakHeap :: "unit heap" where
  "weakHeap = (NewHeap ())\<lparr>
     objs := [None,
       Some (zeroObject\<lparr>okind := KindWeakMap, omap := Some \<lparr>mapKeys = [ObjectValue (makeHandle 2 0)],
         mapValues = [ObjectValue (makeHandle 3 0)]\<rparr>\<rparr>),
       Some zeroObject,
       Some (zeroObject\<lparr>okind := KindMap, omap := Some \<lparr>mapKeys = [IntV 0],
         mapValues = [ObjectValue (makeHandle 4 0)]\<rparr>\<rparr>),
       Some zeroObject],
     gens := [0, 0, 0, 0, 0],
     vstack := [ObjectValue (makeHandle 1 0), ObjectValue (makeHandle 2 0)]\<rparr>"

text \<open>
  What \<open>Collect_exact\<close> says of the heap above: the second marking loop leaves the map of slot 3
  out, so that slot 4 is freed, which only the live entry of the weak map leads to.
\<close>

lemma weak_value_example:
  "map (\<lambda>x. x = None) (objs (CollectHeap (\<lambda>n q. (q, True)) (\<lambda>_. 0) weakHeap))
     = [True, False, False, False, True]"
  by code_simp

end
