(* ===== verification/HeapSafety.thy ===== *)
theory HeapSafety
  imports HeapCollect
begin

text \<open>
  Handle safety of a local heap over its whole life: an inductive step relation of the
  operations that allocate, collect, recycle or write, its invariant, and the two facts
  generations are for: a handle is issued once, and a stale handle stays stale.
\<close>

section \<open>Steps\<close>

text \<open>
  A step returns the handle it issued, if any.  \<open>write\<close> is any change of the contents of one
  object, \<open>frame\<close> any change of the fields that no slot depends on (the value stack, roots,
  counters, the copy-on-write map, the quota); \<open>2 ^ 32\<close> is the number of slot indices.
\<close>

definition sameSlots :: "'q heap \<Rightarrow> 'q heap \<Rightarrow> bool" where
  "sameSlots hp hp' \<longleftrightarrow> objs hp' = objs hp \<and> gens hp' = gens hp \<and> freeSlots hp' = freeSlots hp
     \<and> sealedRoot hp' = sealedRoot hp \<and> buildingRoot hp' = buildingRoot hp"

inductive hstep :: "'q tracker \<Rightarrow> (nat \<Rightarrow> nat) \<Rightarrow> 'q heap \<Rightarrow> handle option \<Rightarrow> 'q heap \<Rightarrow> bool"
  for tr :: "'q tracker" and ln :: "nat \<Rightarrow> nat" where
  alloc: "alloc tr ln o' hp = Some (h, hp') \<Longrightarrow> length (gens hp') < 2 ^ 32 \<Longrightarrow> hstep tr ln hp (Some h) hp'"
| collect: "hstep tr ln hp None (CollectHeap tr ln hp)"
| reset: "hstep tr ln hp None (ResetLocal g hp)"
| "write": "hstep tr ln hp None (updObj i f hp)"
| frame: "sameSlots hp hp' \<Longrightarrow> hstep tr ln hp None hp'"

text \<open>A run from a state, with the set of handles issued since.\<close>

inductive hrun :: "'q tracker \<Rightarrow> (nat \<Rightarrow> nat) \<Rightarrow> 'q heap \<Rightarrow> handle set \<Rightarrow> 'q heap \<Rightarrow> bool"
  for tr :: "'q tracker" and ln :: "nat \<Rightarrow> nat" and h0 :: "'q heap" where
  start: "hrun tr ln h0 {} h0"
| step: "hrun tr ln h0 S hp \<Longrightarrow> hstep tr ln hp x hp' \<Longrightarrow> hrun tr ln h0 (S \<union> set_option x) hp'"

inductive_cases hstep_allocE: "hstep tr ln hp (Some h) hp'"

section \<open>The invariant\<close>

definition heap_inv :: "'q heap \<Rightarrow> bool" where
  "heap_inv hp \<longleftrightarrow> gens_ok hp \<and> objs hp \<noteq> [] \<and> \<not> sealedRoot hp \<and> \<not> buildingRoot hp
     \<and> distinct (freeSlots hp)
     \<and> (\<forall>i \<in> set (freeSlots hp). 0 < i \<and> i < length (objs hp) \<and> objs hp ! i = None)
     \<and> (\<forall>i < length (gens hp). gens hp ! i \<le> maxLocalGen)
     \<and> length (gens hp) < 2 ^ 32"

text \<open>A handle that was issued has at most its slot's generation, and less if the slot is empty.\<close>

definition issued_ok :: "'q heap \<Rightarrow> handle \<Rightarrow> bool" where
  "issued_ok hp h \<longleftrightarrow> (\<exists>i g. h = makeHandle (word_of_nat i) g \<and> 0 < i \<and> i < length (gens hp)
     \<and> g < maxLocalGen \<and> g \<le> gens hp ! i
     \<and> (g = gens hp ! i \<longrightarrow> i < length (objs hp) \<and> objs hp ! i \<noteq> None))"

text \<open>How slots may change: a generation never decreases, and it moves on where an object leaves.\<close>

definition advances :: "'q heap \<Rightarrow> 'q heap \<Rightarrow> bool" where
  "advances hp hp' \<longleftrightarrow> length (gens hp) \<le> length (gens hp')
     \<and> (\<forall>i < length (gens hp). gens hp ! i \<le> gens hp' ! i
          \<and> (gens hp ! i < maxLocalGen \<longrightarrow> i < length (objs hp) \<longrightarrow> objs hp ! i \<noteq> None \<longrightarrow>
               (i < length (objs hp') \<and> objs hp' ! i \<noteq> None) \<or> gens hp ! i < gens hp' ! i))"

lemma advances_issued: "advances hp hp' \<Longrightarrow> issued_ok hp h \<Longrightarrow> issued_ok hp' h"
  unfolding issued_ok_def advances_def
  by (elim exE conjE, intro exI conjI) (assumption | force)+

lemma advances_refl: "objs hp' = objs hp \<Longrightarrow> gens hp' = gens hp \<Longrightarrow> advances hp hp'"
  by (simp add: advances_def)

lemma nextGen_ge: "g \<le> maxLocalGen \<Longrightarrow> g \<le> nextGen g"
  using nextGen_less [of g] nextGen_saturated [of g] by (cases "g < maxLocalGen") auto

lemma advances_trans:
  assumes "advances h0 h1" "advances h1 h2"
  shows "advances h0 h2"
proof -
  have "(i < length (objs h2) \<and> objs h2 ! i \<noteq> None) \<or> gens h0 ! i < gens h2 ! i"
    if i: "i < length (gens h0)" "gens h0 ! i < maxLocalGen" "i < length (objs h0)" "objs h0 ! i \<noteq> None" for i
  proof -
    have len: "i < length (gens h1)" using assms(1) i(1) by (simp add: advances_def)
    have mono: "gens h0 ! i \<le> gens h1 ! i" "gens h1 ! i \<le> gens h2 ! i"
      using assms i(1) len by (simp_all add: advances_def)
    have s1: "(i < length (objs h1) \<and> objs h1 ! i \<noteq> None) \<or> gens h0 ! i < gens h1 ! i"
      using assms(1) i by (simp add: advances_def)
    have s2: "(i < length (objs h2) \<and> objs h2 ! i \<noteq> None) \<or> gens h1 ! i < gens h2 ! i"
      if "gens h1 ! i < maxLocalGen" "i < length (objs h1)" "objs h1 ! i \<noteq> None"
      using assms(2) len that by (simp add: advances_def)
    show ?thesis
    proof (cases "gens h0 ! i < gens h1 ! i")
      case True
      then show ?thesis using mono(2) by auto
    next
      case False
      then have "gens h1 ! i = gens h0 ! i" using mono(1) by simp
      with s1 s2 i(2) False show ?thesis by auto
    qed
  qed
  moreover have "length (gens h0) \<le> length (gens h2)"
    using assms by (auto simp: advances_def)
  moreover have "gens h0 ! i \<le> gens h2 ! i" if "i < length (gens h0)" for i
  proof -
    have "gens h0 ! i \<le> gens h1 ! i" "gens h1 ! i \<le> gens h2 ! i"
      using assms that by (auto simp: advances_def)
    then show ?thesis by (rule order_trans)
  qed
  ultimately show ?thesis by (simp add: advances_def)
qed

section \<open>Each operation keeps the invariant\<close>

lemma Collect_inv:
  assumes inv: "heap_inv hp"
  shows "heap_inv (CollectHeap tr ln hp)" "advances hp (CollectHeap tr ln hp)"
proof -
  have g: "gens_ok hp" "\<not> sealedRoot hp" using inv by (auto simp: heap_inv_def)
  obtain h3 where h3: "similar (hp\<lparr>Collections := Collections hp + 1\<rparr>) h3"
    "sweptTo [1 ..< length (objs hp)] h3 (CollectHeap tr ln hp)"
    using Collect_swept [OF g(2,1)] by metis
  let ?h = "CollectHeap tr ln hp"
  have f: "length (objs h3) = length (objs hp)" "gens h3 = gens hp" "freeSlots h3 = freeSlots hp"
    using similar_fields [OF h3(1)] by simp_all
  have none: "objs h3 ! i = None \<longleftrightarrow> objs hp ! i = None" if "i < length (objs hp)" for i
    using similar_fields(7) [OF h3(1), of i] that by (cases "objs hp ! i"; cases "objs h3 ! i") auto
  have lens: "length (objs ?h) = length (objs hp)" "length (gens ?h) = length (gens hp)"
    using Collect_fields [OF g(1)] by auto
  have o: "objs ?h ! i = (if 0 < i \<and> sweepable h3 i then None else objs h3 ! i)" if "i < length (objs hp)" for i
    using h3(2) that f by (auto simp: sweptTo_def)
  have gn: "gens ?h ! i = (if 0 < i \<and> i < length (objs hp) \<and> sweepable h3 i then nextGen (gens hp ! i)
      else gens hp ! i)" if "i < length (gens hp)" for i
    using h3(2) that f by (auto simp: sweptTo_def)
  have fr: "freeSlots ?h = rev (filter (sweepable h3) [1 ..< length (objs hp)]) @ freeSlots hp"
    using h3(2) f by (simp add: sweptTo_def)
  have le: "gens hp ! i \<le> maxLocalGen" if "i < length (gens hp)" for i
    using inv that by (simp add: heap_inv_def)
  have old: "0 < i \<and> i < length (objs hp) \<and> objs hp ! i = None" if "i \<in> set (freeSlots hp)" for i
    using inv that by (simp add: heap_inv_def)
  have "distinct (freeSlots ?h)"
  proof -
    have "objs h3 ! x = None" if "x \<in> set (freeSlots hp)" for x using old [OF that] none by blast
    then show ?thesis unfolding fr using inv by (auto simp: heap_inv_def sweepable_def)
  qed
  moreover have "0 < i \<and> i < length (objs ?h) \<and> objs ?h ! i = None" if "i \<in> set (freeSlots ?h)" for i
    using that old o none lens unfolding fr by auto
  moreover have "gens ?h ! i \<le> maxLocalGen" if "i < length (gens ?h)" for i
    using that gn le nextGen_le lens by auto
  ultimately show "heap_inv ?h"
    using inv lens Collect_fields [OF g(1), of tr ln] by (auto simp: heap_inv_def gens_ok_def)
  have "gens hp ! i \<le> gens ?h ! i" if "i < length (gens hp)" for i
    using gn [OF that] nextGen_ge [OF le [OF that]] by simp
  moreover have "(i < length (objs ?h) \<and> objs ?h ! i \<noteq> None) \<or> gens hp ! i < gens ?h ! i"
    if "i < length (gens hp)" "gens hp ! i < maxLocalGen" "i < length (objs hp)" "objs hp ! i \<noteq> None" for i
    using that gn [OF that(1)] o [OF that(3)] none [OF that(3)] nextGen_less [OF that(2)] lens by auto
  ultimately show "advances hp ?h" using lens by (simp add: advances_def)
qed

lemma sameSlots_inv:
  assumes "sameSlots hp hp'" "heap_inv hp"
  shows "heap_inv hp'" "advances hp hp'"
  using assms by (auto simp: heap_inv_def gens_ok_def sameSlots_def intro: advances_refl)

lemma beforeAlloc_inv:
  assumes inv: "heap_inv hp"
  shows "heap_inv (beforeAlloc tr ln hp)" "advances hp (beforeAlloc tr ln hp)"
proof -
  have 1: "heap_inv (hp\<lparr>allocs := a\<rparr>)" "advances hp (hp\<lparr>allocs := a\<rparr>)" for a
    using sameSlots_inv [OF _ inv, of "hp\<lparr>allocs := a\<rparr>"] by (auto simp: sameSlots_def)
  have 2: "heap_inv (CollectHeap tr ln (hp\<lparr>allocs := a\<rparr>))" "advances hp (CollectHeap tr ln (hp\<lparr>allocs := a\<rparr>))" for a
  proof -
    show c: "heap_inv (CollectHeap tr ln (hp\<lparr>allocs := a\<rparr>))" using Collect_inv(1) [OF 1(1)] .
    show "advances hp (CollectHeap tr ln (hp\<lparr>allocs := a\<rparr>))"
      by (rule advances_trans [OF 1(2) Collect_inv(2) [OF 1(1)]])
  qed
  have 3: "heap_inv (h\<lparr>allocs := a\<rparr>) = heap_inv h" "advances hp (h\<lparr>allocs := a\<rparr>) = advances hp h"
    "heap_inv (h\<lparr>allocs := a, threshold := t\<rparr>) = heap_inv h"
    "advances hp (h\<lparr>allocs := a, threshold := t\<rparr>) = advances hp h" for h :: "'a heap" and a t
    by (simp_all add: heap_inv_def gens_ok_def advances_def)
  show "heap_inv (beforeAlloc tr ln hp)" "advances hp (beforeAlloc tr ln hp)"
    using 1 2 Collect_inv [OF inv] by (auto simp: beforeAlloc_def Let_def 3)
qed


lemma popFree_spec:
  assumes "popFree gs fs = (r, rest)"
  shows "(\<exists>dropped. fs = dropped @ (case r of None \<Rightarrow> [] | Some i \<Rightarrow> [i]) @ rest)"
    "r = Some i \<Longrightarrow> i < length gs \<longrightarrow> gs ! i < maxLocalGen"
    "r = None \<Longrightarrow> rest = []"
  using assms
proof (induction fs)
  case Nil
  { case 1 then show ?case by auto next case 2 then show ?case by auto next case 3 then show ?case by auto }
next
  case (Cons x fs)
  { case 1
    then show ?case using Cons.IH(1) by (auto split: if_splits)
  next
    case 2
    then show ?case using Cons.IH(2) by (auto split: if_splits)
  next
    case 3
    then show ?case using Cons.IH(3) by (auto split: if_splits) }
qed

lemma padRetired_spec:
  "length os \<le> length gs \<Longrightarrow> length (padRetired os gs) \<le> length gs"
  "length os \<le> length gs \<Longrightarrow> length (padRetired os gs) < length gs \<Longrightarrow>
    gs ! length (padRetired os gs) < maxLocalGen"
  "i < length os \<Longrightarrow> padRetired os gs ! i = os ! i"
  "length os \<le> i \<Longrightarrow> i < length (padRetired os gs) \<Longrightarrow> padRetired os gs ! i = None"
  "length os \<le> length (padRetired os gs)"
proof -
  let ?t = "takeWhile (\<lambda>g. g \<ge> maxLocalGen) (drop (length os) gs)"
  have l: "length (padRetired os gs) = length os + length ?t" by (simp add: padRetired_def)
  have t: "length ?t \<le> length gs - length os"
    using length_takeWhile_le [of "\<lambda>g. g \<ge> maxLocalGen" "drop (length os) gs"] by simp
  show "length os \<le> length gs \<Longrightarrow> length (padRetired os gs) \<le> length gs" using l t by simp
  show "length os \<le> length gs \<Longrightarrow> length (padRetired os gs) < length gs \<Longrightarrow>
      gs ! length (padRetired os gs) < maxLocalGen"
  proof -
    assume a: "length os \<le> length gs" "length (padRetired os gs) < length gs"
    then have "length ?t < length (drop (length os) gs)" using l by simp
    from nth_length_takeWhile [OF this] have "\<not> maxLocalGen \<le> drop (length os) gs ! length ?t" .
    then show ?thesis using a l by (simp add: not_le)
  qed
qed (simp_all add: padRetired_def nth_append)

text \<open>Installing an object: the new handle's slot was empty and its generation is below the cap.\<close>

lemma install_inv:
  assumes inv: "heap_inv hp" and ins: "install o' hp = (h, hp')" and small: "length (gens hp') < 2 ^ 32"
  shows "heap_inv hp' \<and> advances hp hp'
    \<and> (\<exists>i g. h = makeHandle (word_of_nat i) g \<and> 0 < i \<and> i < length (gens hp') \<and> g < maxLocalGen
        \<and> gens hp' ! i = g \<and> i < length (objs hp') \<and> objs hp' ! i = Some o'
        \<and> (i < length (gens hp) \<longrightarrow> gens hp ! i = g)
        \<and> (i < length (objs hp) \<longrightarrow> objs hp ! i = None))"
proof -
  obtain r rest where p: "popFree (gens hp) (freeSlots hp) = (r, rest)"
    by (cases "popFree (gens hp) (freeSlots hp)")
  note pop = popFree_spec [OF p]
  obtain dropped where fs: "freeSlots hp = dropped @ (case r of None \<Rightarrow> [] | Some i \<Rightarrow> [i]) @ rest"
    using pop(1) by blast
  have old: "0 < i \<and> i < length (objs hp) \<and> objs hp ! i = None" if "i \<in> set (freeSlots hp)" for i
    using inv that by (simp add: heap_inv_def)
  have len: "length (objs hp) \<le> length (gens hp)" using inv by (simp add: heap_inv_def gens_ok_def)
  show ?thesis
  proof (cases r)
    case (Some i)
    have h': "h = makeHandle (word_of_nat i) (gens hp ! i)"
        "hp' = hp\<lparr>freeSlots := rest, objs := (objs hp)[i := Some o']\<rparr>"
      using ins p Some by (auto simp: install_def)
    have i: "0 < i" "i < length (objs hp)" "objs hp ! i = None" "i \<notin> set rest"
      using old [of i] fs Some inv by (auto simp: heap_inv_def)
    have "gens hp ! i < maxLocalGen" using pop(2) [OF Some] i(2) len by simp
    moreover have "heap_inv hp'"
      using inv h' fs Some i old len by (auto simp: heap_inv_def gens_ok_def nth_list_update)
    moreover have "advances hp hp'" using h' i by (simp add: advances_def nth_list_update)
    ultimately show ?thesis using h' i len by auto
  next
    case None
    define os where "os = padRetired (objs hp) (gens hp)"
    define g where "g = (if length os < length (gens hp) then gens hp ! length os else 0)"
    have nb: "\<not> buildingRoot hp" using inv by (simp add: heap_inv_def)
    have h': "h = makeHandle (word_of_nat (length os)) g"
        "hp' = hp\<lparr>freeSlots := [], objs := os @ [Some o'],
           gens := (if length os < length (gens hp) then (gens hp)[length os := g] else gens hp @ [g])\<rparr>"
      using ins p None pop(3) nb by (auto simp: install_def Let_def os_def g_def)
    note pad = padRetired_spec [where os = "objs hp" and gs = "gens hp", folded os_def]
    have g: "g < maxLocalGen" using pad(2) len by (auto simp: g_def maxLocalGen_def rootGenBit_def)
    have ne: "0 < length os" using pad(5) inv by (cases "objs hp") (auto simp: heap_inv_def)
    have gs: "gens hp' = (if length os < length (gens hp) then gens hp else gens hp @ [g])"
      using h' by (simp add: g_def)
    have "heap_inv hp'"
      using inv h' gs g pad(1) len small by (auto simp: heap_inv_def gens_ok_def nth_append less_Suc_eq)
    moreover have "advances hp hp'"
      unfolding advances_def gs using h' pad(3,5) by (auto simp: nth_append)
    moreover have "gens hp' ! length os = g" "length os < length (gens hp')"
      using gs pad(1) len by (auto simp: g_def nth_append)
    ultimately show ?thesis using h' ne g pad(4,5) gs
      by (intro conjI exI [of _ "length os"] exI [of _ g]) (auto simp: nth_append g_def)
  qed
qed

lemma updObj_inv:
  assumes inv: "heap_inv hp"
  shows "heap_inv (updObj i f hp)" "advances hp (updObj i f hp)"
proof -
  have "objs (updObj i f hp) ! j = None \<longleftrightarrow> objs hp ! j = None" if "j < length (objs hp)" for j
    using that by (cases "j = i") (auto simp: updObj_def)
  moreover have "length (objs (updObj i f hp)) = length (objs hp)" "gens (updObj i f hp) = gens hp"
    "freeSlots (updObj i f hp) = freeSlots hp" "sealedRoot (updObj i f hp) = sealedRoot hp"
    "buildingRoot (updObj i f hp) = buildingRoot hp"
    by (simp_all add: updObj_def)
  ultimately show "heap_inv (updObj i f hp)" "advances hp (updObj i f hp)"
    using inv by (auto simp: heap_inv_def gens_ok_def advances_def)
qed

lemma resetSlots_spec:
  fixes hp :: "'q heap" and gIdx :: nat and g :: handle
  assumes "\<forall>i \<in> set is. i < length (objs hp)" "length (objs hp) \<le> length (gens hp)" "distinct is"
  defines "h' \<equiv> resetSlots gIdx g is hp"
  shows "length (objs h') = length (objs hp) \<and> length (gens h') = length (gens hp)
    \<and> freeSlots h' = freeSlots hp \<and> sealedRoot h' = sealedRoot hp \<and> buildingRoot h' = buildingRoot hp
    \<and> (\<forall>i < length (gens hp). gens h' ! i = (if i \<in> set is \<and> i \<noteq> gIdx then nextGen (gens hp ! i) else gens hp ! i))
    \<and> (\<forall>i < length (objs hp). objs h' ! i = None \<longleftrightarrow> (i \<in> set is \<and> i \<noteq> gIdx) \<or> objs hp ! i = None)"
  using assms(1-3) unfolding h'_def
proof (induction "is" arbitrary: hp)
  case (Cons i "is")
  show ?case
  proof (cases "i = gIdx")
    case True
    define h1 where "h1 = ResetGlobalShell g hp"
    have f: "length (objs h1) = length (objs hp)" "gens h1 = gens hp" "freeSlots h1 = freeSlots hp"
      "sealedRoot h1 = sealedRoot hp" "buildingRoot h1 = buildingRoot hp"
      by (auto simp: h1_def ResetGlobalShell_def updObj_def)
    have n: "objs h1 ! j = None \<longleftrightarrow> objs hp ! j = None" if "j < length (objs hp)" for j
      using that by (cases "j = slotOf g") (auto simp: h1_def ResetGlobalShell_def updObj_def)
    have e: "resetSlots gIdx g (i # is) hp = resetSlots gIdx g is h1" using True by (simp add: h1_def)
    have "i \<notin> set is" using Cons.prems by simp
    then show ?thesis unfolding e using Cons.IH [of h1] Cons.prems f n True by auto
  next
    case False
    define h1 where "h1 = hp\<lparr>gens := (if i < length (gens hp) then (gens hp)[i := nextGen (gens hp ! i)] else gens hp),
      objs := (objs hp)[i := None]\<rparr>"
    have f: "length (objs h1) = length (objs hp)" "gens h1 = (gens hp)[i := nextGen (gens hp ! i)]" "freeSlots h1 = freeSlots hp"
      "sealedRoot h1 = sealedRoot hp" "buildingRoot h1 = buildingRoot hp" "objs h1 = (objs hp)[i := None]"
      using Cons.prems by (auto simp: h1_def)
    have e: "resetSlots gIdx g (i # is) hp = resetSlots gIdx g is h1" using False by (simp add: h1_def)
    have ni: "i \<notin> set is" "i < length (objs hp)" "i < length (gens hp)" using Cons.prems by auto
    have IH: "length (objs (resetSlots gIdx g is h1)) = length (objs h1)
      \<and> length (gens (resetSlots gIdx g is h1)) = length (gens h1)
      \<and> freeSlots (resetSlots gIdx g is h1) = freeSlots h1
      \<and> sealedRoot (resetSlots gIdx g is h1) = sealedRoot h1
      \<and> buildingRoot (resetSlots gIdx g is h1) = buildingRoot h1
      \<and> (\<forall>i < length (gens h1). gens (resetSlots gIdx g is h1) ! i
            = (if i \<in> set is \<and> i \<noteq> gIdx then nextGen (gens h1 ! i) else gens h1 ! i))
      \<and> (\<forall>i < length (objs h1). objs (resetSlots gIdx g is h1) ! i = None
            \<longleftrightarrow> (i \<in> set is \<and> i \<noteq> gIdx) \<or> objs h1 ! i = None)"
      by (rule Cons.IH) (use Cons.prems f in auto)
    show ?thesis unfolding e using IH f(1-5) ni False
      by (auto simp: nth_list_update f(6))
  qed
qed simp

lemma ResetLocal_inv:
  assumes inv: "heap_inv hp"
  shows "heap_inv (ResetLocal g hp)" "advances hp (ResetLocal g hp)"
proof -
  define h1 where "h1 = (DiscardCow (TruncateStack 0 hp))\<lparr>roots := [], freeSlots := []\<rparr>"
  define h2 where "h2 = resetSlots (slotOf g) g [1 ..< length (objs hp)] h1"
  have f1: "objs h1 = objs hp" "gens h1 = gens hp" "freeSlots h1 = []" "sealedRoot h1 = sealedRoot hp"
    "buildingRoot h1 = buildingRoot hp"
    by (simp_all add: h1_def DiscardCow_def TruncateStack_def)
  have len: "length (objs hp) \<le> length (gens hp)" "objs hp \<noteq> []" and le: "i < length (gens hp) \<Longrightarrow> gens hp ! i \<le> maxLocalGen" for i
    using inv by (auto simp: heap_inv_def gens_ok_def)
  have s: "length (objs h2) = length (objs hp) \<and> length (gens h2) = length (gens hp)
    \<and> freeSlots h2 = [] \<and> sealedRoot h2 = sealedRoot hp \<and> buildingRoot h2 = buildingRoot hp
    \<and> (\<forall>i < length (gens hp). gens h2 ! i
         = (if i \<in> set [1 ..< length (objs hp)] \<and> i \<noteq> slotOf g then nextGen (gens hp ! i) else gens hp ! i))
    \<and> (\<forall>i < length (objs hp). objs h2 ! i = None
          \<longleftrightarrow> (i \<in> set [1 ..< length (objs hp)] \<and> i \<noteq> slotOf g) \<or> objs hp ! i = None)"
    unfolding h2_def f1(1,2) [symmetric] f1(3) [symmetric] f1(4) [symmetric] f1(5) [symmetric]
    by (rule resetSlots_spec) (use f1 len in auto)
  have e: "ResetLocal g hp = (if slotOf g < length (objs h2) then h2\<lparr>objs := take (slotOf g + 1) (objs h2)\<rparr> else h2)\<lparr>allocs := 0\<rparr>"
    unfolding ResetLocal_def Let_def by (simp add: h1_def [symmetric] f1 h2_def)
  have o: "objs (ResetLocal g hp) = (if slotOf g < length (objs hp) then take (slotOf g + 1) (objs h2) else objs h2)"
    "gens (ResetLocal g hp) = gens h2" "freeSlots (ResetLocal g hp) = []"
    "sealedRoot (ResetLocal g hp) = sealedRoot hp" "buildingRoot (ResetLocal g hp) = buildingRoot hp"
    using s by (auto simp: e)
  have "gens h2 ! i \<le> maxLocalGen" if "i < length (gens hp)" for i
    using s that le nextGen_le by simp
  then show "heap_inv (ResetLocal g hp)"
    using inv s o len by (auto simp: heap_inv_def gens_ok_def)
  have "gens hp ! i \<le> gens h2 ! i" if "i < length (gens hp)" for i
    using s that nextGen_ge [OF le [OF that]] by simp
  moreover have "(i < length (objs (ResetLocal g hp)) \<and> objs (ResetLocal g hp) ! i \<noteq> None) \<or> gens hp ! i < gens h2 ! i"
    if i: "i < length (gens hp)" "gens hp ! i < maxLocalGen" "i < length (objs hp)" "objs hp ! i \<noteq> None" for i
  proof (cases "0 < i \<and> i \<noteq> slotOf g")
    case True
    then show ?thesis using s i nextGen_less [OF i(2)] by auto
  next
    case False
    then have "objs h2 ! i \<noteq> None" "i < slotOf g + 1" using s i by auto
    then show ?thesis using o i s by auto
  qed
  ultimately show "advances hp (ResetLocal g hp)"
    using s o by (simp add: advances_def)
qed

section \<open>Runs\<close>

lemma index_handle: "i < 2 ^ 32 \<Longrightarrow> unat (hIndex (makeHandle (word_of_nat i) g)) = i"
  by (simp add: unat_of_nat)

lemma local_handle:
  assumes "g < maxLocalGen" "i < 2 ^ 32" "0 < i"
  shows "\<not> hIsRoot (makeHandle (word_of_nat i) g)" "makeHandle (word_of_nat i) g \<noteq> NoHandle"
proof -
  show "\<not> hIsRoot (makeHandle (word_of_nat i) g)"
    using small_gen_no_root [of g] assms(1) by (simp add: hIsRoot_makeHandle)
  have "unat (word_of_nat i :: u32) = i" using assms(2) by (simp add: unat_of_nat)
  then have "(word_of_nat i :: u32) \<noteq> 0" using assms(3) by auto
  then show "makeHandle (word_of_nat i) g \<noteq> NoHandle" by (simp add: NoHandle_make)
qed

lemma alloc_step:
  assumes inv: "heap_inv hp" and al: "alloc tr ln o' hp = Some (h, hp')" and small: "length (gens hp') < 2 ^ 32"
  shows "heap_inv hp' \<and> advances hp hp' \<and> issued_ok hp' h \<and> \<not> issued_ok hp h \<and> getLocal hp' h = Some o'"
proof -
  obtain h1 where t: "TrackAlloc tr 96 hp = Some h1" and ins: "install o' (beforeAlloc tr ln h1) = (h, hp')"
    using al by (auto simp: alloc_def split: Option.bind_splits)
  have "sameSlots hp h1" using t by (auto simp: TrackAlloc_def sameSlots_def split: prod.splits if_splits)
  note 1 = sameSlots_inv [OF this inv]
  note 2 = beforeAlloc_inv [OF 1(1), of tr ln]
  note adv = advances_trans [OF 1(2) 2(2)]
  obtain i g where k: "heap_inv hp'" "advances (beforeAlloc tr ln h1) hp'"
      "h = makeHandle (word_of_nat i) g" "0 < i" "i < length (gens hp')" "g < maxLocalGen"
      "gens hp' ! i = g" "i < length (objs hp')" "objs hp' ! i = Some o'"
      "i < length (gens (beforeAlloc tr ln h1)) \<longrightarrow> gens (beforeAlloc tr ln h1) ! i = g"
      "i < length (objs (beforeAlloc tr ln h1)) \<longrightarrow> objs (beforeAlloc tr ln h1) ! i = None"
    using install_inv [OF 2(1) ins small] by blast
  have i: "i < 2 ^ 32" using k(5) small by simp
  have "\<not> issued_ok hp h"
  proof
    assume "issued_ok hp h"
    then have b: "issued_ok (beforeAlloc tr ln h1) h" by (rule advances_issued [OF adv])
    then obtain j g' where j: "h = makeHandle (word_of_nat j) g'" "j < length (gens (beforeAlloc tr ln h1))"
        "g' = gens (beforeAlloc tr ln h1) ! j \<longrightarrow>
           j < length (objs (beforeAlloc tr ln h1)) \<and> objs (beforeAlloc tr ln h1) ! j \<noteq> None"
      by (auto simp: issued_ok_def)
    have "j < 2 ^ 32" using j(2) 2(1) by (simp add: heap_inv_def)
    then have "j = i" "g' = g"
      using index_handle [OF i, of g] index_handle [of j g'] j(1) k(3) hGen_makeHandle by metis+
    then show False using j k(10,11) by auto
  qed
  moreover have "issued_ok hp' h"
    unfolding issued_ok_def using k(3-9) by (intro exI [of _ i] exI [of _ g]) auto
  moreover have "getLocal hp' h = Some o'"
    using local_handle [OF k(6) i k(4)] k i
    by (simp add: getLocal_def Let_def slotAt_def heap_inv_def unat_of_nat)
  ultimately show ?thesis using k(1) advances_trans [OF adv k(2)] by simp
qed

lemma hstep_inv:
  assumes "hstep tr ln hp x hp'" "heap_inv hp"
  shows "heap_inv hp' \<and> advances hp hp' \<and> (\<forall>h \<in> set_option x. issued_ok hp' h \<and> \<not> issued_ok hp h)"
  using assms
proof cases
  case (alloc o' h)
  then show ?thesis using alloc_step [OF assms(2) alloc(2,3)] by simp
qed (use assms(2) in \<open>auto intro: Collect_inv ResetLocal_inv updObj_inv dest: sameSlots_inv\<close>)

lemma hrun_inv:
  assumes "hrun tr ln h0 S hp" "heap_inv h0"
  shows "heap_inv hp \<and> advances h0 hp \<and> (\<forall>h \<in> S. issued_ok hp h)"
  using assms
proof induction
  case start
  then show ?case by (simp add: advances_refl)
next
  case (step S hp x hp')
  then have 1: "heap_inv hp" "advances h0 hp" "\<forall>h \<in> S. issued_ok hp h" by auto
  note 2 = hstep_inv [OF step.hyps(2) 1(1)]
  then show ?case using 1 advances_issued [of hp hp'] advances_trans [of h0 hp hp'] by auto
qed

lemma hrun_trans:
  assumes "hrun tr ln hp S' hp'" "hrun tr ln h0 S hp"
  shows "hrun tr ln h0 (S \<union> S') hp'"
  using assms
proof induction
  case start
  then show ?case by simp
next
  case (step S1 h1 x h2)
  then show ?case using hrun.step [of tr ln h0 "S \<union> S1" h1 x h2] by (simp add: Un_assoc)
qed

text \<open>An issued handle is stale exactly when its slot's generation has moved past its own.\<close>

lemma issued_stale:
  assumes inv: "heap_inv hp" and iss: "issued_ok hp h"
  shows "Get hp h = None \<longleftrightarrow> hGen h < gens hp ! slotOf h"
    "slotOf h < length (gens hp)" "hGen h \<le> gens hp ! slotOf h"
proof -
  obtain i g where k: "h = makeHandle (word_of_nat i) g" "0 < i" "i < length (gens hp)" "g < maxLocalGen"
    "g \<le> gens hp ! i" "g = gens hp ! i \<longrightarrow> i < length (objs hp) \<and> objs hp ! i \<noteq> None"
    using iss by (auto simp: issued_ok_def)
  have i: "i < 2 ^ 32" using k(3) inv by (simp add: heap_inv_def)
  note l = local_handle [OF k(4) i k(2)]
  have s: "slotOf h = i" "hGen h = g" using i k(1) by (simp_all add: slotOf_def unat_of_nat)
  have "Get hp h = slotAt (objs hp) (gens hp) False h"
    using l k(1) inv by (simp add: Get_def getLocal_def heap_inv_def)
  moreover have "slotAt (objs hp) (gens hp) False h = None \<longleftrightarrow> g < gens hp ! i"
  proof -
    have "slotAt (objs hp) (gens hp) False h
        = (if i = 0 \<or> i \<ge> length (objs hp) then None else if gens hp ! i \<noteq> g then None else objs hp ! i)"
      using s by (simp add: slotAt_def slotOf_def)
    moreover have "g < gens hp ! i \<longleftrightarrow> g \<noteq> gens hp ! i" using k(5) by auto
    ultimately show ?thesis using k(2,6) by auto
  qed
  ultimately show "Get hp h = None \<longleftrightarrow> hGen h < gens hp ! slotOf h" unfolding s by simp
  show "slotOf h < length (gens hp)" "hGen h \<le> gens hp ! slotOf h" using s k by auto
qed

text \<open>
  C3.  No handle is issued twice: whatever a local heap has been through since its start
  (allocations, collections, recycling, writes), a handle that an allocation returns is none of
  those returned before, and it resolves to the new object.
\<close>

theorem alloc_fresh:
  assumes "heap_inv h0" and "hrun tr ln h0 S hp"
    and "alloc tr ln o' hp = Some (h, hp')" and "length (gens hp') < 2 ^ 32"
  shows "h \<notin> S \<and> Get hp' h = Some o'"
proof -
  note inv = hrun_inv [OF assms(2,1)]
  note st = alloc_step [OF conjunct1 [OF inv] assms(3,4)]
  obtain i g where h: "h = makeHandle (word_of_nat i) g" "0 < i" "i < length (gens hp')" "g < maxLocalGen"
    using st unfolding issued_ok_def by blast
  have "i < 2 ^ 32" using h(3) assms(4) by simp
  note local_handle [OF h(4) this h(2)]
  then have "\<not> hIsRoot h" "h \<noteq> NoHandle" unfolding h(1) by simp_all
  then have "Get hp' h = getLocal hp' h" by (simp add: Get_def)
  moreover have "\<not> issued_ok hp h" "getLocal hp' h = Some o'" using st by blast+
  moreover have "h \<in> S \<Longrightarrow> issued_ok hp h" using inv by blast
  ultimately show ?thesis by metis
qed

text \<open>
  C2.  A stale handle stays stale: once a handle that was issued no longer resolves, no
  continuation of the run makes it resolve again, even when its slot is reused.
\<close>

theorem stale_stays_stale:
  assumes "heap_inv h0" and "hrun tr ln h0 S hp" and "h \<in> S" and "Get hp h = None"
    and "hrun tr ln hp S' hp'"
  shows "Get hp' h = None"
proof -
  note inv = hrun_inv [OF assms(2,1)]
  then have iss: "issued_ok hp h" using assms(3) by blast
  note run = hrun_inv [OF assms(5) conjunct1 [OF inv]]
  then have iss': "issued_ok hp' h" using iss advances_issued by blast
  have "hGen h < gens hp ! slotOf h" using issued_stale(1) [OF _ iss] inv assms(4) by simp
  moreover have "gens hp ! slotOf h \<le> gens hp' ! slotOf h"
    using run issued_stale(2) [OF _ iss] inv by (simp add: advances_def)
  ultimately show ?thesis using issued_stale(1) [OF _ iss'] run by simp
qed

text \<open>
  An input for both: an object is allocated, nothing refers to it, a collection frees it and a
  second allocation reuses its slot.
\<close>

definition noQuota :: "unit tracker" where "noQuota n q = (q, True)"

definition firstHeap :: "unit heap" where
  "firstHeap = snd (the (alloc noQuota (\<lambda>_. 0) zeroObject (NewHeap ())))"

definition collectedHeap :: "unit heap" where
  "collectedHeap = CollectHeap noQuota (\<lambda>_. 0) firstHeap"

definition reusedHeap :: "unit heap" where
  "reusedHeap = snd (the (alloc noQuota (\<lambda>_. 0) zeroObject collectedHeap))"

lemma NewHeap_inv: "heap_inv (NewHeap q)"
  by (simp add: heap_inv_def gens_ok_def NewHeap_def)

lemma alloc_demo:
  "alloc noQuota (\<lambda>_. 0) zeroObject (NewHeap ()) = Some (makeHandle 1 0, firstHeap)"
  "alloc noQuota (\<lambda>_. 0) zeroObject collectedHeap = Some (makeHandle 1 1, reusedHeap)"
proof -
  have "map_option fst (alloc noQuota (\<lambda>_. 0) zeroObject (NewHeap ())) = Some (makeHandle 1 0)"
    "map_option fst (alloc noQuota (\<lambda>_. 0) zeroObject collectedHeap) = Some (makeHandle 1 1)"
    by code_simp+
  then show "alloc noQuota (\<lambda>_. 0) zeroObject (NewHeap ()) = Some (makeHandle 1 0, firstHeap)"
    "alloc noQuota (\<lambda>_. 0) zeroObject collectedHeap = Some (makeHandle 1 1, reusedHeap)"
    unfolding firstHeap_def reusedHeap_def by auto
qed

lemma demo_gens: "length (gens firstHeap) = 2" "length (gens reusedHeap) = 2"
  by code_simp+

lemma demo_run:
  "hrun noQuota (\<lambda>_. 0) (NewHeap ()) {makeHandle 1 0} collectedHeap"
  "hrun noQuota (\<lambda>_. 0) collectedHeap {makeHandle 1 1} reusedHeap"
proof -
  have "hrun noQuota (\<lambda>_. 0) (NewHeap ()) ({} \<union> set_option (Some (makeHandle 1 0))) firstHeap"
    by (rule hrun.step [OF hrun.start hstep.alloc [OF alloc_demo(1)]]) (simp add: demo_gens)
  from hrun.step [OF this hstep.collect]
  show "hrun noQuota (\<lambda>_. 0) (NewHeap ()) {makeHandle 1 0} collectedHeap"
    by (simp add: collectedHeap_def)
  have "hrun noQuota (\<lambda>_. 0) collectedHeap ({} \<union> set_option (Some (makeHandle 1 1))) reusedHeap"
    by (rule hrun.step [OF hrun.start hstep.alloc [OF alloc_demo(2)]]) (simp add: demo_gens)
  then show "hrun noQuota (\<lambda>_. 0) collectedHeap {makeHandle 1 1} reusedHeap" by simp
qed

lemma alloc_fresh_witness: "makeHandle 1 1 \<notin> {makeHandle 1 0} \<and> Get reusedHeap (makeHandle 1 1) = Some zeroObject"
  using alloc_fresh [OF NewHeap_inv demo_run(1) alloc_demo(2)] by (simp add: demo_gens)

lemma stale_stays_stale_witness: "Get reusedHeap (makeHandle 1 0) = None"
proof -
  have "Get collectedHeap (makeHandle 1 0) = None" by code_simp
  then show ?thesis
    using stale_stays_stale [OF NewHeap_inv demo_run(1) _ _ demo_run(2)] by simp
qed

end
