(* ===== verification/ObjProps.thy ===== *)
theory ObjProps
  imports ObjShape HeapSafety
begin

text \<open>
  Objects as the engine uses them, \<open>pkg/js55/engine/heap.go\<close>: constructors, copy-on-write of
  root-realm objects, property and element access, attributes, the prototype chain and
  \<open>CheckHeap\<close>, with \<open>bindGlobal\<close> of \<open>vm.go\<close> and \<open>RootRealm.lookup\<close>.

  The state of an engine is the heap with the stores its pointers go into: shapes, interned
  strings and their table.  A panic (a refused charge, a dead handle where \<open>MustGet\<close> is used, an
  index out of range) is \<open>None\<close>.  Reading a key's text (\<open>GoString\<close>, \<open>EqualASCII\<close>, \<open>Equal\<close>) is
  reading its \<open>units\<close>; \<open>bill\<close> is what the intern table calls for new strings.
\<close>

section \<open>The state of an engine\<close>

record vmGlobals =
  gObj :: handle
  tdzTok :: val
  globals :: "(saddr \<times> val) list"
  realmGlobals :: "((saddr \<times> val) list \<times> itab) option"

record 'q eng =
  eheap :: "'q heap"
  eshapes :: "shape list"
  etab :: itab
  estr :: store
  eglob :: "vmGlobals option"

type_synonym 'q billing = "nat \<Rightarrow> 'q \<Rightarrow> 'q option"

definition internKey :: "'q billing \<Rightarrow> saddr \<Rightarrow> 'q eng \<Rightarrow> (saddr \<times> 'q eng) option" where
  "internKey bill key e =
     (case Intern bill (etab e) (estr e) (quota (eheap e)) (Some key) of
        Some (Some a, t, strs, q) \<Rightarrow>
          Some (a, e\<lparr>etab := t, estr := strs, eheap := (eheap e)\<lparr>quota := q\<rparr>\<rparr>)
      | _ \<Rightarrow> None)"

definition onHeap :: "('q heap \<Rightarrow> 'q heap) \<Rightarrow> 'q eng \<Rightarrow> 'q eng" where
  "onHeap f e = e\<lparr>eheap := f (eheap e)\<rparr>"

section \<open>Copy on write\<close>

definition cow :: "'q tracker \<Rightarrow> (nat \<Rightarrow> nat) \<Rightarrow> handle \<Rightarrow> 'q heap \<Rightarrow> (handle \<times> 'q heap) option" where
  "cow tr textLen hd' hp =
     (if \<not> hIsRoot hd' then Some (hd', hp)
      else
        (case realmOf hp of
           None \<Rightarrow> Some (hd', hp)
         | Some r \<Rightarrow>
             (case map_of (cowMap hp) (stripRoot hd') of
                Some local \<Rightarrow> Some (local, hp)
              | None \<Rightarrow>
                  (case realmGet r hd' of
                     None \<Rightarrow> Some (hd', hp)
                   | Some src \<Rightarrow> do {
                       h1 \<leftarrow> TrackAlloc tr (objectCharge src) hp;
                       (local, h2) \<leftarrow> alloc tr textLen (cloneObject src) h1;
                       Some (local, h2\<lparr>cowMap := (stripRoot hd', local) # cowMap h2\<rparr>) }))))"

definition prepareWrite :: "'q tracker \<Rightarrow> (nat \<Rightarrow> nat) \<Rightarrow> handle \<Rightarrow> 'q heap \<Rightarrow> (handle \<times> 'q heap) option" where
  "prepareWrite tr textLen hd' hp = (if hIsRoot hd' then cow tr textLen hd' hp else Some (hd', hp))"

definition Mutable :: "'q tracker \<Rightarrow> (nat \<Rightarrow> nat) \<Rightarrow> handle \<Rightarrow> 'q heap \<Rightarrow> (object option \<times> 'q heap) option" where
  "Mutable tr textLen hd' hp =
     do { (hd1, h1) \<leftarrow> (if hIsRoot hd' then cow tr textLen hd' hp else Some (hd', hp));
          Some (getLocal h1 hd1, h1) }"

definition prepare :: "'q tracker \<Rightarrow> (nat \<Rightarrow> nat) \<Rightarrow> handle \<Rightarrow> 'q eng \<Rightarrow> (handle \<times> 'q eng) option" where
  "prepare tr textLen obj e =
     do { (obj1, h1) \<leftarrow> prepareWrite tr textLen obj (eheap e); Some (obj1, e\<lparr>eheap := h1\<rparr>) }"

text \<open>A write through the pointer that \<open>Get\<close> returned, wherever the object lives.\<close>

definition updGet :: "handle \<Rightarrow> (object \<Rightarrow> object) \<Rightarrow> 'q heap \<Rightarrow> 'q heap" where
  "updGet h f hp =
     (if hIsRoot h \<and> \<not> sealedRoot hp \<and> \<not> buildingRoot hp then
        (case map_of (cowMap hp) (stripRoot h) of
           Some local \<Rightarrow> updObj (slotOf local) f hp
         | None \<Rightarrow>
             (case realmOf hp of
                None \<Rightarrow> hp
              | Some r \<Rightarrow>
                  hp\<lparr>realmOf := Some (r\<lparr>realmObjs :=
                    (realmObjs r)[slotOf h := map_option f (realmObjs r ! slotOf h)]\<rparr>)\<rparr>))
      else updObj (slotOf h) f hp)"

section \<open>Constructors\<close>

definition NewObject :: "'q tracker \<Rightarrow> (nat \<Rightarrow> nat) \<Rightarrow> 'q heap \<Rightarrow> (handle \<times> 'q heap) option" where
  "NewObject tr textLen hp =
     alloc tr textLen (zeroObject\<lparr>okind := KindOrdinary, oshape := Some (rootShape hp), proto := objectProto hp\<rparr>) hp"

definition maxInt :: int where "maxInt = 2 ^ 63 - 1"

definition valueSlotBytes :: "int \<Rightarrow> int \<times> bool" where
  "valueSlotBytes n = (if n \<le> 0 then (0, True) else if n > maxInt div 8 then (maxInt, False) else (n * 8, True))"

definition NewArray :: "'q tracker \<Rightarrow> (nat \<Rightarrow> nat) \<Rightarrow> int \<Rightarrow> 'q heap \<Rightarrow> (handle \<times> 'q heap) option" where
  "NewArray tr textLen n0 hp =
     (let n = (if n0 < 0 then 0 else n0); (bytes, ok) = valueSlotBytes n
      in do {
        h1 \<leftarrow> TrackAlloc tr bytes hp;
        (if \<not> ok then None
         else alloc tr textLen
           (zeroObject\<lparr>okind := KindArray, oshape := Some (rootShape h1), elements := replicate (nat n) Undefined,
              proto := arrayProto h1\<rparr>) h1) })"

definition NewStringObject :: "'q tracker \<Rightarrow> (nat \<Rightarrow> nat) \<Rightarrow> 'q billing \<Rightarrow> saddr \<Rightarrow> 'q eng \<Rightarrow> (handle \<times> 'q eng) option" where
  "NewStringObject tr textLen bill s e =
     do { (k, e1) \<leftarrow> internKey bill s e;
          (h, hp) \<leftarrow> alloc tr textLen
            (zeroObject\<lparr>okind := KindStringObject, oshape := Some (rootShape (eheap e1)), otext := Some k\<rparr>) (eheap e1);
          Some (h, e1\<lparr>eheap := hp\<rparr>) }"

definition NewFunction :: "'q tracker \<Rightarrow> (nat \<Rightarrow> nat) \<Rightarrow> nat option \<Rightarrow> handle \<Rightarrow> 'q heap \<Rightarrow> (handle \<times> 'q heap) option" where
  "NewFunction tr textLen fn env hp =
     alloc tr textLen
       (zeroObject\<lparr>okind := KindFunction, oshape := Some (rootShape hp), ofn := fn, oenv := env, proto := functionProto hp\<rparr>) hp"

definition NewString :: "'q tracker \<Rightarrow> (nat \<Rightarrow> nat) \<Rightarrow> saddr option \<Rightarrow> 'q heap \<Rightarrow> (handle \<times> 'q heap) option" where
  "NewString tr textLen s hp =
     do { h1 \<leftarrow> (case s of None \<Rightarrow> Some hp | Some a \<Rightarrow> TrackAlloc tr (int (textLen a)) hp);
          alloc tr textLen (zeroObject\<lparr>okind := KindString, oshape := Some (rootShape h1), otext := s\<rparr>) h1 }"

text \<open>
  \<open>NewEnv\<close> gives its slots back when the header is refused; the refusal itself goes on, so the
  value is \<open>Inl\<close> with the heap it leaves.
\<close>

definition NewEnv :: "'q tracker \<Rightarrow> (nat \<Rightarrow> nat) \<Rightarrow> nat \<Rightarrow> handle \<Rightarrow> 'q heap \<Rightarrow> 'q heap + handle \<times> 'q heap" where
  "NewEnv tr textLen n parent hp =
     (let bytes = int n * 8; (q, ok) = (if n > 0 then tr bytes (quota hp) else (quota hp, True));
          h1 = hp\<lparr>quota := q\<rparr>
      in if \<not> ok then Inl h1
         else
           (case alloc tr textLen
               (zeroObject\<lparr>okind := KindEnv, oshape := Some (rootShape h1), elements := replicate n Undefined, proto := parent\<rparr>) h1 of
              None \<Rightarrow> Inl (TrackFree tr bytes (h1\<lparr>quota := fst (tr 96 (quota h1))\<rparr>))
            | Some r \<Rightarrow> Inr r))"

section \<open>Keys that are indices\<close>

definition unitDigit :: "u16 \<Rightarrow> bool" where
  "unitDigit c \<longleftrightarrow> 0x30 \<le> c \<and> c \<le> 0x39"

definition digitsValue :: "u16 list \<Rightarrow> int" where
  "digitsValue ds = foldl (\<lambda>n c. n * 10 + (uint c - 0x30)) 0 ds"

text \<open>\<open>strconv.Atoi\<close>: an optional sign, at least one digit, a value that fits.\<close>

definition Atoi :: "u16 list \<Rightarrow> int option" where
  "Atoi s =
     (let neg = (s \<noteq> [] \<and> hd s = 0x2D);
          ds = (if s \<noteq> [] \<and> (hd s = 0x2D \<or> hd s = 0x2B) then drop 1 s else s);
          n = (if neg then - digitsValue ds else digitsValue ds)
      in if ds = [] \<or> \<not> list_all unitDigit ds then None
         else if - (2 ^ 63) \<le> n \<and> n \<le> maxInt then Some n else None)"

text \<open>\<open>strconv.Itoa\<close> of a natural number.\<close>

fun itoa :: "nat \<Rightarrow> u16 list" where
  "itoa n = (if n < 10 then [word_of_nat (0x30 + n)] else itoa (n div 10) @ [word_of_nat (0x30 + n mod 10)])"

declare itoa.simps [simp del]

fun indexFrom :: "int \<Rightarrow> u16 list \<Rightarrow> int option" where
  "indexFrom n [] = Some n"
| "indexFrom n (c # cs) =
     (if \<not> unitDigit c then None
      else let m = i64 (n * 10 + (uint c - 0x30)) in if m < 0 then None else indexFrom m cs)"

definition arrayIndexKey :: "u16 list \<Rightarrow> nat option" where
  "arrayIndexKey s =
     (if s = [] then None
      else (case indexFrom 0 s of
        None \<Rightarrow> None
      | Some n \<Rightarrow> if itoa (nat n) = s then Some (nat n) else None))"

definition maybeGrowArrayIndex :: "u16 list \<Rightarrow> object \<Rightarrow> object" where
  "maybeGrowArrayIndex k o' =
     (if okind o' \<noteq> KindArray then o'
      else (case Atoi k of
        None \<Rightarrow> o'
      | Some i \<Rightarrow>
          if i < 0 \<or> i \<ge> 10000 then o'
          else o'\<lparr>elements := elements o' @ replicate (nat i + 1 - length (elements o')) Undefined\<rparr>))"

definition argumentsIndex :: "u16 list \<Rightarrow> object \<Rightarrow> nat option" where
  "argumentsIndex k o' =
     (if okind o' \<noteq> KindArguments \<or> oenv o' = NoHandle then None
      else (case Atoi k of
        None \<Rightarrow> None
      | Some i \<Rightarrow> if i < 0 \<or> i \<ge> sint (ToInt (prim o')) then None else Some (nat i)))"

section \<open>Properties\<close>

definition isDeleted :: "store \<Rightarrow> object \<Rightarrow> saddr \<Rightarrow> bool" where
  "isDeleted strs o' k \<longleftrightarrow> (\<exists>d \<in> set (deleted o'). d = k \<or> units strs d = units strs k)"

definition undelete :: "saddr \<Rightarrow> object \<Rightarrow> object" where
  "undelete k o' = o'\<lparr>deleted := filter (\<lambda>d. d \<noteq> k) (deleted o')\<rparr>"

definition SetProto :: "'q tracker \<Rightarrow> (nat \<Rightarrow> nat) \<Rightarrow> handle \<Rightarrow> handle \<Rightarrow> 'q heap \<Rightarrow> 'q heap option" where
  "SetProto tr textLen obj p hp =
     do { (obj1, h1) \<leftarrow> prepareWrite tr textLen obj hp;
          Some (case getLocal h1 obj1 of
                  None \<Rightarrow> h1
                | Some o' \<Rightarrow> if isRoot o' then h1 else updObj (slotOf obj1) (\<lambda>o'. o'\<lparr>proto := p\<rparr>) h1) }"

definition lookupIn :: "'q eng \<Rightarrow> object \<Rightarrow> saddr \<Rightarrow> nat option" where
  "lookupIn e o' k = (case oshape o' of None \<Rightarrow> None | Some i \<Rightarrow> ShapeLookup (estr e) (eshapes e) i k)"

text \<open>Writing a value to a new slot: the charge, the transition, the slot.\<close>

definition addSlot :: "'q tracker \<Rightarrow> handle \<Rightarrow> saddr \<Rightarrow> val \<Rightarrow> object \<Rightarrow> 'q eng \<Rightarrow> 'q eng option" where
  "addSlot tr obj k v o' e =
     do { h1 \<leftarrow> TrackAlloc tr 104 (eheap e);
          i \<leftarrow> oshape o';
          (case transition (eshapes e) i (Some k) of
             (S, n) \<Rightarrow> Some (e\<lparr>eshapes := S,
                eheap := updGet obj (\<lambda>x. x\<lparr>oshape := Some n, slots := slots x @ [v]\<rparr>) h1\<rparr>)) }"

text \<open>The write of an arguments object to the parameter it mirrors.\<close>

definition writeParam :: "store \<Rightarrow> saddr \<Rightarrow> val \<Rightarrow> object \<Rightarrow> 'q heap \<Rightarrow> 'q heap" where
  "writeParam strs k v o' hp =
     (case argumentsIndex (units strs k) o' of
        None \<Rightarrow> hp
      | Some i \<Rightarrow>
          (case Get hp (oenv o') of
             None \<Rightarrow> hp
           | Some env \<Rightarrow>
               if i < length (elements env) then updGet (oenv o') (\<lambda>x. x\<lparr>elements := (elements x)[i := v]\<rparr>) hp
               else hp))"

text \<open>What \<open>SetProperty\<close> and \<open>DefineDataProperty\<close> do first.\<close>

definition openKey :: "'q tracker \<Rightarrow> (nat \<Rightarrow> nat) \<Rightarrow> 'q billing \<Rightarrow> handle \<Rightarrow> saddr \<Rightarrow> 'q eng \<Rightarrow>
    ((handle \<times> saddr) option \<times> 'q eng) option" where
  "openKey tr textLen bill obj0 key e0 =
     do { (obj, e) \<leftarrow> prepare tr textLen obj0 e0;
          o' \<leftarrow> Get (eheap e) obj;
          (if isRoot o' then Some (None, e)
           else do {
             (k, e1) \<leftarrow> internKey bill key e;
             Some (Some (obj, k),
               onHeap (updGet obj (\<lambda>x. maybeGrowArrayIndex (units (estr e1) k) (undelete k x))) e1) }) }"

definition SetProperty :: "'q tracker \<Rightarrow> (nat \<Rightarrow> nat) \<Rightarrow> 'q billing \<Rightarrow> handle \<Rightarrow> saddr \<Rightarrow> val \<Rightarrow> 'q eng \<Rightarrow> 'q eng option" where
  "SetProperty tr textLen bill obj0 key v e0 =
     do { (r, e) \<leftarrow> openKey tr textLen bill obj0 key e0;
          (case r of
             None \<Rightarrow> Some e
           | Some (obj, k) \<Rightarrow> do {
               o1 \<leftarrow> Get (eheap e) obj;
               let e1 = onHeap (writeParam (estr e) k v o1) e;
               o2 \<leftarrow> Get (eheap e1) obj;
               (case lookupIn e1 o2 k of
                  Some slot \<Rightarrow>
                    if slotAttr o2 slot AND attrWritable = 0 then Some e1
                    else if slot < length (slots o2) then
                      Some (onHeap (updGet obj (\<lambda>x. x\<lparr>slots := (slots x)[slot := v]\<rparr>)) e1)
                    else None
                | None \<Rightarrow> addSlot tr obj k v o2 e1) }) }"

text \<open>The attributes of a slot, after \<open>ensureAttrs\<close>.\<close>

definition putAttr :: "nat \<Rightarrow> byte \<Rightarrow> object \<Rightarrow> object" where
  "putAttr slot a o' = (let o1 = ensureAttrs o' in o1\<lparr>attrs := (attrs o1)[slot := a]\<rparr>)"

definition DefineDataProperty ::
  "'q tracker \<Rightarrow> (nat \<Rightarrow> nat) \<Rightarrow> 'q billing \<Rightarrow> handle \<Rightarrow> saddr \<Rightarrow> val \<Rightarrow> byte \<Rightarrow> 'q eng \<Rightarrow> 'q eng option" where
  "DefineDataProperty tr textLen bill obj0 key v a e0 =
     do { (r, e) \<leftarrow> openKey tr textLen bill obj0 key e0;
          (case r of
             None \<Rightarrow> Some e
           | Some (obj, k) \<Rightarrow> do {
               o1 \<leftarrow> Get (eheap e) obj;
               (case lookupIn e o1 k of
                  Some slot \<Rightarrow>
                    if slot < length (slots o1) then
                      Some (onHeap (updGet obj (\<lambda>x. putAttr slot a (x\<lparr>slots := (slots x)[slot := v]\<rparr>))) e)
                    else None
                | None \<Rightarrow> do {
                    e1 \<leftarrow> addSlot tr obj k v o1 e;
                    Some (onHeap (updGet obj (\<lambda>x. putAttr (length (slots x) - 1) a x)) e1) }) }) }"

definition SetPropertyAttrs ::
  "'q tracker \<Rightarrow> (nat \<Rightarrow> nat) \<Rightarrow> 'q billing \<Rightarrow> handle \<Rightarrow> saddr \<Rightarrow> byte \<Rightarrow> 'q eng \<Rightarrow> 'q eng option" where
  "SetPropertyAttrs tr textLen bill obj0 key a e0 =
     do { (obj, e) \<leftarrow> prepare tr textLen obj0 e0;
          (case getLocal (eheap e) obj of
             None \<Rightarrow> Some e
           | Some o' \<Rightarrow>
               if oshape o' = None \<or> isRoot o' then Some e
               else do {
                 (k, e1) \<leftarrow> internKey bill key e;
                 (case lookupIn e1 o' k of
                    None \<Rightarrow> Some e1
                  | Some slot \<Rightarrow> Some (onHeap (updObj (slotOf obj) (putAttr slot a)) e1)) }) }"

text \<open>The slots of every key with the content of \<open>k\<close> are cleared.\<close>

definition clearSlots :: "'q eng \<Rightarrow> saddr \<Rightarrow> object \<Rightarrow> object" where
  "clearSlots e k o' =
     (case oshape o' of
        None \<Rightarrow> o'
      | Some i \<Rightarrow>
          o'\<lparr>slots := fold (\<lambda>(c, slot) xs. if units (estr e) c = units (estr e) k \<and> slot < length xs then xs[slot := Undefined] else xs)
               (chainOf (eshapes e) i) (slots o')\<rparr>)"

definition clearElement :: "u16 list \<Rightarrow> object \<Rightarrow> object" where
  "clearElement k o' =
     (if okind o' \<noteq> KindArray then o'
      else (case Atoi k of
        None \<Rightarrow> o'
      | Some i \<Rightarrow> if 0 \<le> i \<and> i < int (length (elements o')) then o'\<lparr>elements := (elements o')[nat i := Undefined]\<rparr> else o'))"

definition DeleteProperty ::
  "'q tracker \<Rightarrow> (nat \<Rightarrow> nat) \<Rightarrow> 'q billing \<Rightarrow> handle \<Rightarrow> saddr \<Rightarrow> 'q eng \<Rightarrow> (bool \<times> 'q eng) option" where
  "DeleteProperty tr textLen bill obj0 key e0 =
     do { (obj, e) \<leftarrow> prepare tr textLen obj0 e0;
          (case getLocal (eheap e) obj of
             None \<Rightarrow> Some (False, e)
           | Some o' \<Rightarrow>
               if frozen o' \<or> isRoot o' then Some (False, e)
               else do {
                 (k, e1) \<leftarrow> internKey bill key e;
                 (if isDeleted (estr e1) o' k then Some (True, e1)
                  else if (case lookupIn e1 o' k of
                             None \<Rightarrow> False
                           | Some slot \<Rightarrow> slotAttr o' slot AND attrConfigurable = 0) then Some (False, e1)
                  else Some (True, onHeap (updObj (slotOf obj) (\<lambda>x.
                         clearElement (units (estr e1) k)
                           ((clearSlots e1 k x)\<lparr>deleted := deleted x @ [k]\<rparr>))) e1)) }) }"

section \<open>Reading\<close>

text \<open>\<open>RootRealm.lookup\<close>: through the realm's own table, then by content.\<close>

definition realmLookup :: "store \<Rightarrow> (saddr \<times> val) list \<times> itab \<Rightarrow> saddr \<Rightarrow> val option" where
  "realmLookup strs r key =
     (case r of (gs, t) \<Rightarrow>
       (case (case canon (byHash t) strs (units strs key) of None \<Rightarrow> None | Some rk \<Rightarrow> map_of gs rk) of
          Some v \<Rightarrow> Some v
        | None \<Rightarrow> map_option snd (find (\<lambda>(k, _). units strs k = units strs key) gs)))"

definition unitsOf :: "string \<Rightarrow> u16 list" where
  "unitsOf s = map (\<lambda>c. word_of_nat (of_char c)) s"

definition bindGlobal :: "store \<Rightarrow> vmGlobals \<Rightarrow> saddr \<Rightarrow> val option" where
  "bindGlobal strs g key =
     (let found = (case map_of (globals g) key of
            Some v \<Rightarrow> Some v
          | None \<Rightarrow> map_option snd (find (\<lambda>(k, _). units strs k = units strs key) (globals g)))
      in if units strs key = 0 # unitsOf ''tdz'' then Some (tdzTok g)
         else if units strs key = unitsOf ''globalThis'' \<and> gObj g \<noteq> NoHandle then Some (ObjectValue (gObj g))
         else (case found of
           Some v \<Rightarrow> if v = tagGlobalTombstone then None else Some v
         | None \<Rightarrow> (case realmGlobals g of None \<Rightarrow> None | Some r \<Rightarrow> realmLookup strs r key)))"

definition globalProp :: "'q eng \<Rightarrow> handle \<Rightarrow> saddr \<Rightarrow> val option" where
  "globalProp e obj k =
     (case eglob e of
        None \<Rightarrow> None
      | Some g \<Rightarrow> if obj = gObj g then bindGlobal (estr e) g k else None)"

text \<open>
  What an object holds for a key: its slot, or for an array its element.  The outer \<open>None\<close> is
  the panic of a slot out of range.
\<close>

definition slotOrElement :: "'q eng \<Rightarrow> object \<Rightarrow> saddr \<Rightarrow> val option option" where
  "slotOrElement e o' k =
     (case lookupIn e o' k of
        Some slot \<Rightarrow> if slot < length (slots o') then Some (Some (slots o' ! slot)) else None
      | None \<Rightarrow>
          Some (if okind o' = KindArray then
            (case arrayIndexKey (units (estr e) k) of
               Some i \<Rightarrow> if i < length (elements o') then Some (elements o' ! i) else None
             | None \<Rightarrow> None)
          else None))"

definition paramValue :: "'q eng \<Rightarrow> object \<Rightarrow> saddr \<Rightarrow> val option" where
  "paramValue e o' k =
     (case argumentsIndex (units (estr e) k) o' of
        None \<Rightarrow> None
      | Some i \<Rightarrow>
          (case Get (eheap e) (oenv o') of
             None \<Rightarrow> None
           | Some env \<Rightarrow> if i < length (elements env) then Some (elements env ! i) else None))"

definition ownValue :: "'q eng \<Rightarrow> handle \<Rightarrow> object \<Rightarrow> saddr \<Rightarrow> val option option" where
  "ownValue e obj o' k =
     (if isDeleted (estr e) o' k then Some None
      else do {
        r \<leftarrow> slotOrElement e o' k;
        Some (case r of Some v \<Rightarrow> Some v | None \<Rightarrow> globalProp e obj k) })"

definition GetOwnProperty :: "'q billing \<Rightarrow> handle \<Rightarrow> saddr \<Rightarrow> 'q eng \<Rightarrow> (val option \<times> 'q eng) option" where
  "GetOwnProperty bill obj key e0 =
     do { o' \<leftarrow> Get (eheap e0) obj;
          (k, e) \<leftarrow> internKey bill key e0;
          r \<leftarrow> (case paramValue e o' k of Some v \<Rightarrow> Some (Some v) | None \<Rightarrow> ownValue e obj o' k);
          Some (r, e) }"

text \<open>The walk up the prototypes, \<open>guard\<close> objects at most.\<close>

primrec protoWalk :: "'q eng \<Rightarrow> saddr \<Rightarrow> nat \<Rightarrow> handle \<Rightarrow> val option option" where
  "protoWalk e k 0 cur = Some None"
| "protoWalk e k (Suc guard) cur =
     (if cur = NoHandle then Some None
      else (case Get (eheap e) cur of
        None \<Rightarrow> Some None
      | Some o' \<Rightarrow> do {
          r \<leftarrow> ownValue e cur o' k;
          (case r of Some v \<Rightarrow> Some (Some v) | None \<Rightarrow> protoWalk e k guard (proto o')) }))"

definition protoGuard :: "'q heap \<Rightarrow> nat" where
  "protoGuard hp = length (objs hp) + 1 + (case realmOf hp of None \<Rightarrow> 0 | Some r \<Rightarrow> length (realmObjs r))"

definition GetProperty :: "'q billing \<Rightarrow> handle \<Rightarrow> saddr \<Rightarrow> 'q eng \<Rightarrow> (val option \<times> 'q eng) option" where
  "GetProperty bill obj key e0 =
     do { (k, e) \<leftarrow> internKey bill key e0;
          r \<leftarrow> protoWalk e k (protoGuard (eheap e)) obj;
          Some (r, e) }"

section \<open>Elements and buffers\<close>

definition SetElement :: "'q tracker \<Rightarrow> (nat \<Rightarrow> nat) \<Rightarrow> handle \<Rightarrow> int \<Rightarrow> val \<Rightarrow> 'q heap \<Rightarrow> 'q heap option" where
  "SetElement tr textLen obj0 i v h0 =
     do { (obj, hp) \<leftarrow> prepareWrite tr textLen obj0 h0;
          o' \<leftarrow> Get hp obj;
          (if isRoot o' \<or> i < 0 then Some hp
           else
             let old = int (length (elements o')); (bytes, ok) = valueSlotBytes (i + 1 - old)
             in if i = maxInt then None
                else do {
                  h1 \<leftarrow> (if i \<ge> old then TrackAlloc tr bytes hp else Some hp);
                  (if i \<ge> old \<and> \<not> ok then None
                   else Some (updGet obj (\<lambda>x.
                     x\<lparr>elements := (elements x @ replicate (nat i + 1 - length (elements x)) Undefined)[nat i := v]\<rparr>) h1)) }) }"

definition GetElement :: "handle \<Rightarrow> int \<Rightarrow> 'q heap \<Rightarrow> val option" where
  "GetElement obj i hp =
     do { o' \<leftarrow> Get hp obj;
          Some (if i < 0 \<or> i \<ge> int (length (elements o')) then Undefined else elements o' ! nat i) }"

definition ArrayBufferBytes :: "handle \<Rightarrow> 'q heap \<Rightarrow> byte list option" where
  "ArrayBufferBytes obj hp =
     (case Get hp obj of None \<Rightarrow> None | Some o' \<Rightarrow> if arrayBuffer o' then Some (obytes o') else None)"

definition ReplaceArrayBufferBytes :: "handle \<Rightarrow> byte list \<Rightarrow> 'q heap \<Rightarrow> bool \<times> 'q heap" where
  "ReplaceArrayBufferBytes obj src hp =
     (case Get hp obj of
        None \<Rightarrow> (False, hp)
      | Some o' \<Rightarrow>
          if \<not> arrayBuffer o' \<or> length src \<noteq> length (obytes o') then (False, hp)
          else (True, updGet obj (\<lambda>x. x\<lparr>obytes := src\<rparr>) hp))"

section \<open>The heap check\<close>

text \<open>The numbers of the kinds, in the order of the enumeration.\<close>

fun kindIndex :: "objKind \<Rightarrow> nat" where
  "kindIndex KindOrdinary = 0" | "kindIndex KindArray = 1" | "kindIndex KindFunction = 2"
| "kindIndex KindStringObject = 3" | "kindIndex KindError = 4" | "kindIndex KindString = 5"
| "kindIndex KindEnv = 6" | "kindIndex KindMap = 7" | "kindIndex KindSet = 8"
| "kindIndex KindRegExp = 9" | "kindIndex KindPromise = 10" | "kindIndex KindProxy = 11"
| "kindIndex KindBigInt = 12" | "kindIndex KindGenerator = 13" | "kindIndex KindAccessor = 14"
| "kindIndex KindWeakMap = 15" | "kindIndex KindSymbol = 16" | "kindIndex KindArguments = 17"

lemma kindIndex_inj: "kindIndex a = kindIndex b \<Longrightarrow> a = b"
  by (cases a; cases b) simp_all

instantiation objKind :: linorder
begin

definition less_eq_objKind :: "objKind \<Rightarrow> objKind \<Rightarrow> bool" where
  "less_eq_objKind a b \<longleftrightarrow> kindIndex a \<le> kindIndex b"

definition less_objKind :: "objKind \<Rightarrow> objKind \<Rightarrow> bool" where
  "less_objKind a b \<longleftrightarrow> kindIndex a < kindIndex b"

instance
  by intro_classes (auto simp: less_eq_objKind_def less_objKind_def intro: kindIndex_inj)

end

definition lastKind :: objKind where "lastKind = KindArguments"

definition liveVal :: "'q heap \<Rightarrow> val \<Rightarrow> bool" where
  "liveVal hp v \<longleftrightarrow> \<not> (IsPointer v \<and> Get hp (valHandle v) = None)"

definition checkObject :: "shape list \<Rightarrow> 'q heap \<Rightarrow> object \<Rightarrow> bool" where
  "checkObject S hp o' \<longleftrightarrow> okind o' \<le> lastKind
     \<and> (case oshape o' of None \<Rightarrow> False | Some i \<Rightarrow> length (slots o') = shCount (S ! i))
     \<and> (proto o' = NoHandle \<or> Get hp (proto o') \<noteq> None) \<and> (oenv o' = NoHandle \<or> Get hp (oenv o') \<noteq> None)
     \<and> list_all (liveVal hp) (slots o') \<and> list_all (liveVal hp) (elements o')"

definition CheckHeap :: "'q eng \<Rightarrow> bool" where
  "CheckHeap e \<longleftrightarrow>
     list_all (\<lambda>x. case x of None \<Rightarrow> True | Some o' \<Rightarrow> checkObject (eshapes e) (eheap e) o') (drop 1 (objs (eheap e)))
     \<and> list_all (\<lambda>r. liveVal (eheap e) (hostCell (eheap e) r)) (roots (eheap e))
     \<and> list_all (liveVal (eheap e)) (vstack (eheap e))"

end
