(* ===== verification/Promises.thy ===== *)
theory Promises
  imports ObjProps
begin

text \<open>
  Promises and microtasks: \<open>builtins_promise.go\<close> with the job queue of \<open>vm.go\<close>.

  A promise is an object of the heap; \<open>pvm\<close> adds the queue of the interpreter.  A job is the
  closure \<open>enqueueReaction\<close> builds, with the values it captures, or another closure (\<open>Later\<close>)
  known by a number and the values it holds.  \<open>call\<close> is \<open>CallFunction\<close>, arbitrary code that may
  do anything to the interpreter: it gives a value, or the text of an error.  A refused
  allocation is \<open>None\<close>.
\<close>

section \<open>State\<close>

datatype job =
    Reaction (jobCb: val) (jobValue: val) (jobChild: val) (jobReject: bool)
  | Later nat "val list"

fun hold :: "job \<Rightarrow> val list" where
  "hold (Reaction cb v child r) = [cb, v, child]"
| "hold (Later n vs) = vs"

record 'q pvm =
  peng :: "'q eng"
  jobs :: "job list"

definition pheap :: "'q pvm \<Rightarrow> 'q heap" where
  "pheap v = eheap (peng v)"

definition withHeap :: "'q heap \<Rightarrow> 'q pvm \<Rightarrow> 'q pvm" where
  "withHeap hp v = v\<lparr>peng := (peng v)\<lparr>eheap := hp\<rparr>\<rparr>"

lemma pvm_simps [simp]:
  "pheap (withHeap hp v) = hp" "jobs (withHeap hp v) = jobs v" "pheap (v\<lparr>jobs := js\<rparr>) = pheap v"
  "withHeap hp (v\<lparr>jobs := js\<rparr>) = (withHeap hp v)\<lparr>jobs := js\<rparr>"
  by (simp_all add: pheap_def withHeap_def)

definition EnqueueMicrotask :: "job \<Rightarrow> 'q pvm \<Rightarrow> 'q pvm" where
  "EnqueueMicrotask j v = v\<lparr>jobs := jobs v @ [j]\<rparr>"

definition isFunction :: "'q heap \<Rightarrow> val \<Rightarrow> bool" where
  "isFunction hp v \<longleftrightarrow> IsPointer v \<and>
     (case Get hp (valHandle v) of None \<Rightarrow> False | Some o' \<Rightarrow> okind o' = KindFunction \<and> ofn o' \<noteq> None)"

definition promiseOf :: "'q heap \<Rightarrow> val \<Rightarrow> promiseData option" where
  "promiseOf hp v =
     (if \<not> IsPointer v then None
      else (case Get hp (valHandle v) of
        None \<Rightarrow> None
      | Some o' \<Rightarrow> if okind o' \<noteq> KindPromise then None else opromise o'))"

definition pendingPromise :: promiseData where
  "pendingPromise = \<lparr>promiseSt = PromisePending, promiseResult = 0, promiseReactions = [], promiseSettled = False\<rparr>"

definition newPromise :: "'q tracker \<Rightarrow> (nat \<Rightarrow> nat) \<Rightarrow> handle \<Rightarrow> 'q heap \<Rightarrow> (handle \<times> 'q heap) option" where
  "newPromise tr ln pp hp =
     do { (h, h1) \<leftarrow> NewObject tr ln hp;
          Some (h, case Get h1 h of
                     None \<Rightarrow> h1
                   | Some _ \<Rightarrow> updGet h (\<lambda>x. x\<lparr>okind := KindPromise, opromise := Some pendingPromise, proto := pp\<rparr>) h1) }"

text \<open>
  What the constructor \<open>Promise\<close> does to its receiver before it calls the resolver: a new object, or
  whatever object the function was called on, which loses the promise data it had.
\<close>

definition initPromise :: "handle \<Rightarrow> handle \<Rightarrow> 'q heap \<Rightarrow> 'q heap" where
  "initPromise pp ph hp =
     (case Get hp ph of
        None \<Rightarrow> hp
      | Some _ \<Rightarrow>
          updGet ph (\<lambda>x. x\<lparr>okind := KindPromise, opromise := Some pendingPromise,
                             proto := (if proto x = NoHandle then pp else proto x)\<rparr>) hp)"

section \<open>Settling\<close>

definition enqueueReaction :: "val \<Rightarrow> val \<Rightarrow> val \<Rightarrow> bool \<Rightarrow> 'q pvm \<Rightarrow> 'q pvm" where
  "enqueueReaction cb x child isReject = EnqueueMicrotask (Reaction cb x child isReject)"

definition settlePromise :: "handle \<Rightarrow> promiseState \<Rightarrow> val \<Rightarrow> 'q pvm \<Rightarrow> 'q pvm" where
  "settlePromise ph st x v =
     (case Get (pheap v) ph of
        None \<Rightarrow> v
      | Some o' \<Rightarrow>
          (case opromise o' of
             None \<Rightarrow> v
           | Some pd \<Rightarrow>
               if promiseSettled pd then v
               else fold
                 (\<lambda>r. if st = PromiseFulfilled then enqueueReaction (onFulfilled r) x (reactionChild r) False
                      else enqueueReaction (onRejected r) x (reactionChild r) True)
                 (promiseReactions pd)
                 (withHeap (updGet ph
                      (\<lambda>y. y\<lparr>opromise := Some (pd\<lparr>promiseSettled := True, promiseSt := st, promiseResult := x,
                                                  promiseReactions := []\<rparr>)\<rparr>) (pheap v)) v)))"

text \<open>
  \<open>then\<close>.  The receiver is on the stack of receivers, hence a root, while the child is allocated;
  a write to a promise whose object is gone would not be observable.
\<close>

definition argOr :: "val list \<Rightarrow> nat \<Rightarrow> val" where
  "argOr args i = (if i < length args then args ! i else 0)"

definition addReaction :: "val \<Rightarrow> promiseReaction \<Rightarrow> 'q heap \<Rightarrow> 'q heap" where
  "addReaction this r hp =
     (case promiseOf hp this of
        None \<Rightarrow> hp
      | Some pd \<Rightarrow>
          updGet (valHandle this)
            (\<lambda>y. y\<lparr>opromise := Some (pd\<lparr>promiseReactions := promiseReactions pd @ [r]\<rparr>)\<rparr>) hp)"

datatype promiseError = NotAPromise

definition promiseThen :: "'q tracker \<Rightarrow> (nat \<Rightarrow> nat) \<Rightarrow> handle \<Rightarrow> val \<Rightarrow> val list \<Rightarrow> 'q pvm \<Rightarrow>
    ((promiseError + val) \<times> 'q pvm) option" where
  "promiseThen tr ln pp this args v =
     (case promiseOf (pheap v) this of
        None \<Rightarrow> Some (Inl NotAPromise, v)
      | Some pd \<Rightarrow> do {
          (child, h1) \<leftarrow> newPromise tr ln pp (pheap v);
          Some (Inr (ObjectValue child),
            (let f = argOr args 0; r = argOr args 1; childV = ObjectValue child; v1 = withHeap h1 v
             in case promiseSt pd of
                  PromiseFulfilled \<Rightarrow> enqueueReaction f (promiseResult pd) childV False v1
                | PromiseRejected \<Rightarrow> enqueueReaction r (promiseResult pd) childV True v1
                | PromisePending \<Rightarrow>
                    withHeap (addReaction this \<lparr>onFulfilled = f, onRejected = r, reactionChild = childV\<rparr> h1) v1)) })"

text \<open>\<open>Promise.resolve\<close> and \<open>Promise.reject\<close>.\<close>

definition argOrUndefined :: "val list \<Rightarrow> val" where
  "argOrUndefined args = (case args of [] \<Rightarrow> Undefined | x # _ \<Rightarrow> x)"

definition settledPromise :: "'q tracker \<Rightarrow> (nat \<Rightarrow> nat) \<Rightarrow> handle \<Rightarrow> promiseState \<Rightarrow> val \<Rightarrow> 'q pvm \<Rightarrow> (val \<times> 'q pvm) option" where
  "settledPromise tr ln pp st x v =
     do { (h, h1) \<leftarrow> newPromise tr ln pp (pheap v);
          Some (ObjectValue h, settlePromise h st x (withHeap h1 v)) }"

definition promiseResolve :: "'q tracker \<Rightarrow> (nat \<Rightarrow> nat) \<Rightarrow> handle \<Rightarrow> val list \<Rightarrow> 'q pvm \<Rightarrow> (val \<times> 'q pvm) option" where
  "promiseResolve tr ln pp args v =
     (let x = argOrUndefined args
      in if promiseOf (pheap v) x \<noteq> None then Some (x, v) else settledPromise tr ln pp PromiseFulfilled x v)"

definition promiseReject :: "'q tracker \<Rightarrow> (nat \<Rightarrow> nat) \<Rightarrow> handle \<Rightarrow> val list \<Rightarrow> 'q pvm \<Rightarrow> (val \<times> 'q pvm) option" where
  "promiseReject tr ln pp args v = settledPromise tr ln pp PromiseRejected (argOrUndefined args) v"

section \<open>Combinators\<close>

text \<open>
  The closures of \<open>promiseAll\<close>: what they share and what they capture.  The flags tell
  \<open>all\<close>, \<open>race\<close> and \<open>allSettled\<close> apart; the keys and the two status strings are made once.
\<close>

record allFixed =
  race :: bool
  settledMode :: bool
  out :: handle
  results :: handle
  statusKey :: saddr
  valueKey :: saddr
  reasonKey :: saddr
  fulfilledS :: val
  rejectedS :: val

record allState =
  remaining :: int
  finished :: bool

text \<open>The record that \<open>allSettled\<close> stores: a status and a value or a reason.\<close>

definition settledRecord :: "'q tracker \<Rightarrow> (nat \<Rightarrow> nat) \<Rightarrow> 'q billing \<Rightarrow> saddr \<Rightarrow> val \<Rightarrow> saddr \<Rightarrow> val \<Rightarrow> 'q eng \<Rightarrow> (val \<times> 'q eng) option" where
  "settledRecord tr ln bill skey status key x e =
     do { (h, hp) \<leftarrow> NewObject tr ln (eheap e);
          e1 \<leftarrow> SetProperty tr ln bill h skey status (e\<lparr>eheap := hp\<rparr>);
          e2 \<leftarrow> SetProperty tr ln bill h key x e1;
          Some (ObjectValue h, e2) }"

definition storeResult :: "'q tracker \<Rightarrow> (nat \<Rightarrow> nat) \<Rightarrow> handle \<Rightarrow> int \<Rightarrow> val \<Rightarrow> 'q pvm \<Rightarrow> 'q pvm option" where
  "storeResult tr ln rs i x v = map_option (\<lambda>hp. withHeap hp v) (SetElement tr ln rs i x (pheap v))"

text \<open>One fewer to wait for; the last one settles the promise with the array.\<close>

definition countDown :: "allFixed \<Rightarrow> allState \<times> 'q pvm \<Rightarrow> allState \<times> 'q pvm" where
  "countDown A sv = (case sv of (a, v) \<Rightarrow>
     (let n = remaining a - 1; a1 = a\<lparr>remaining := n\<rparr>
      in if n = 0 then (a1\<lparr>finished := True\<rparr>, settlePromise (out A) PromiseFulfilled (ObjectValue (results A)) v)
         else (a1, v)))"

definition allOnF :: "'q tracker \<Rightarrow> (nat \<Rightarrow> nat) \<Rightarrow> 'q billing \<Rightarrow> allFixed \<Rightarrow> int \<Rightarrow> val list \<Rightarrow> allState \<times> 'q pvm \<Rightarrow> (allState \<times> 'q pvm) option" where
  "allOnF tr ln bill A idx args sv = (case sv of (a, v) \<Rightarrow>
     (if finished a then Some (a, v)
      else let x = argOrUndefined args
      in if race A then Some (a\<lparr>finished := True\<rparr>, settlePromise (out A) PromiseFulfilled x v)
      else do {
        v1 \<leftarrow> (if settledMode A then do {
                  (r, e) \<leftarrow> settledRecord tr ln bill (statusKey A) (fulfilledS A) (valueKey A) x (peng v);
                  storeResult tr ln (results A) idx r (v\<lparr>peng := e\<rparr>) }
                else storeResult tr ln (results A) idx x v);
        Some (countDown A (a, v1)) }))"

definition allOnR :: "'q tracker \<Rightarrow> (nat \<Rightarrow> nat) \<Rightarrow> 'q billing \<Rightarrow> allFixed \<Rightarrow> int \<Rightarrow> val list \<Rightarrow> allState \<times> 'q pvm \<Rightarrow> (allState \<times> 'q pvm) option" where
  "allOnR tr ln bill A idx args sv = (case sv of (a, v) \<Rightarrow>
     (if finished a then Some (a, v)
      else let x = argOrUndefined args
      in if settledMode A then do {
           (r, e) \<leftarrow> settledRecord tr ln bill (statusKey A) (rejectedS A) (reasonKey A) x (peng v);
           v1 \<leftarrow> storeResult tr ln (results A) idx r (v\<lparr>peng := e\<rparr>);
           Some (countDown A (a, v1)) }
         else Some (a\<lparr>finished := True\<rparr>, settlePromise (out A) PromiseRejected x v)))"

section \<open>Jobs\<close>

type_synonym 'q caller = "val \<Rightarrow> val \<Rightarrow> 'q pvm \<Rightarrow> (saddr + val) \<times> 'q pvm"

definition runReaction :: "'q tracker \<Rightarrow> (nat \<Rightarrow> nat) \<Rightarrow> 'q caller \<Rightarrow> val \<Rightarrow> val \<Rightarrow> val \<Rightarrow> bool \<Rightarrow> 'q pvm \<Rightarrow> 'q pvm option" where
  "runReaction tr ln call cb x child isReject v =
     (if \<not> isFunction (pheap v) cb then
        Some (if IsPointer child
              then settlePromise (valHandle child) (if isReject then PromiseRejected else PromiseFulfilled) x v
              else v)
      else
        (case call cb x v of
           (res, v1) \<Rightarrow>
             if \<not> IsPointer child then Some v1
             else
               (case res of
                  Inl msg \<Rightarrow> do {
                    (s, h1) \<leftarrow> NewString tr ln (Some msg) (pheap v1);
                    Some (settlePromise (valHandle child) PromiseRejected (ObjectValue s) (withHeap h1 v1)) }
                | Inr y \<Rightarrow> Some (settlePromise (valHandle child) PromiseFulfilled y v1))))"

text \<open>A job that fails with an error gives \<open>Inl\<close>; reactions never do.\<close>

type_synonym ('e, 'q) runner = "job \<Rightarrow> 'q pvm \<Rightarrow> ('e option \<times> 'q pvm) option"

fun runJob :: "'q tracker \<Rightarrow> (nat \<Rightarrow> nat) \<Rightarrow> 'q caller \<Rightarrow> (nat \<Rightarrow> val list \<Rightarrow> 'q pvm \<Rightarrow> ('e option \<times> 'q pvm) option) \<Rightarrow> ('e, 'q) runner" where
  "runJob tr ln call later (Reaction cb x child r) v = map_option (Pair None) (runReaction tr ln call cb x child r v)"
| "runJob tr ln call later (Later n vs) v = later n vs v"

fun runBatch :: "('e, 'q) runner \<Rightarrow> job list \<Rightarrow> 'q pvm \<Rightarrow> ('e option \<times> 'q pvm) option" where
  "runBatch run [] v = Some (None, v)"
| "runBatch run (j # js) v =
     (case run j v of
        None \<Rightarrow> None
      | Some (Some e, v1) \<Rightarrow> Some (Some e, v1)
      | Some (None, v1) \<Rightarrow> runBatch run js v1)"

text \<open>The loop need not end; then its value is \<open>None\<close>.\<close>

partial_function (option) RunMicrotasks :: "('e, 'q) runner \<Rightarrow> 'q pvm \<Rightarrow> ('e option \<times> 'q pvm) option" where
  "RunMicrotasks run v =
     (if jobs v = [] then Some (None, v)
      else
        (case runBatch run (jobs v) (v\<lparr>jobs := []\<rparr>) of
           None \<Rightarrow> None
         | Some (Some e, v1) \<Rightarrow> Some (Some e, v1)
         | Some (None, v1) \<Rightarrow> RunMicrotasks run v1))"

end
