(* ===== verification/ObjMap.thy ===== *)
theory ObjMap
  imports ObjProps
begin

text \<open>
  Well-formed objects and what the property operations do to them.  An object is well-formed
  when its slots are parallel to its shape and its keys have distinct contents.  Every operation
  on properties keeps all objects of the engine well-formed, copies of root-realm objects and
  collections included (\<open>property_ops_keep_objects\<close>).
\<close>

section \<open>Well-formed objects\<close>

definition obj_ok :: "shape list \<Rightarrow> store \<Rightarrow> object \<Rightarrow> bool" where
  "obj_ok S strs o' \<longleftrightarrow> (\<exists>i. oshape o' = Some i \<and> i < length S \<and> length (slots o') = shCount (S ! i)
     \<and> distinct (map (units strs) (keyList S i)) \<and> set (keyList S i) \<subseteq> {..< length strs}
     \<and> set (deleted o') \<subseteq> {..< length strs})"

definition heap_ok :: "shape list \<Rightarrow> store \<Rightarrow> 'q heap \<Rightarrow> bool" where
  "heap_ok S strs hp \<longleftrightarrow> rootShape hp < length S \<and> shCount (S ! rootShape hp) = 0
     \<and> (\<forall>o'. Some o' \<in> set (objs hp) \<longrightarrow> obj_ok S strs o')
     \<and> (\<forall>r o'. realmOf hp = Some r \<longrightarrow> Some o' \<in> set (realmObjs r) \<longrightarrow> obj_ok S strs o')"

definition stores_ok :: "'q eng \<Rightarrow> bool" where
  "stores_ok e \<longleftrightarrow> store_ok (estr e) \<and> table_ok (etab e) (estr e) \<and> shapes_ok (eshapes e)"

abbreviation objects_ok :: "'q eng \<Rightarrow> bool" where
  "objects_ok e \<equiv> heap_ok (eshapes e) (estr e) (eheap e)"

lemma obj_ok_cong:
  "obj_ok S strs x \<Longrightarrow> oshape y = oshape x \<Longrightarrow> length (slots y) = length (slots x) \<Longrightarrow>
   set (deleted y) \<subseteq> set (deleted x) \<Longrightarrow> obj_ok S strs y"
  by (auto simp: obj_ok_def)

lemma obj_ok_grows:
  assumes "obj_ok S strs x" "shapes_ok S" "shapes_ok S'" "grows S S'"
  shows "obj_ok S' strs x"
proof -
  obtain i where i: "oshape x = Some i" "i < length S" using assms(1) by (auto simp: obj_ok_def)
  then show ?thesis using assms(1) grows_keyList [OF assms(4,2,3) i(2)] assms(4) by (auto simp: obj_ok_def grows_def)
qed

lemma obj_ok_extends:
  assumes "obj_ok S strs x" "extends strs strs'"
  shows "obj_ok S strs' x"
proof -
  obtain i where i: "oshape x = Some i" "i < length S" "length (slots x) = shCount (S ! i)"
      "distinct (map (units strs) (keyList S i))" "set (keyList S i) \<subseteq> {..< length strs}"
      "set (deleted x) \<subseteq> {..< length strs}"
    using assms(1) by (auto simp: obj_ok_def)
  have "map (units strs') (keyList S i) = map (units strs) (keyList S i)"
    using i(5) assms(2) by (auto simp: extends_def)
  then have "distinct (map (units strs') (keyList S i))" using i(4) by (simp only:)
  moreover have "{..< length strs} \<subseteq> {..< length strs'}" using assms(2) by (auto simp: extends_def)
  ultimately show ?thesis
    unfolding obj_ok_def using i order_trans [OF i(5)] order_trans [OF i(6)] by (intro exI [of _ i]) simp
qed

lemma heap_okD: "heap_ok S strs hp \<Longrightarrow> Some o' \<in> set (objs hp) \<Longrightarrow> obj_ok S strs o'"
  "heap_ok S strs hp \<Longrightarrow> realmOf hp = Some r \<Longrightarrow> Some o' \<in> set (realmObjs r) \<Longrightarrow> obj_ok S strs o'"
  by (auto simp: heap_ok_def)

lemma heap_ok_frame:
  "heap_ok S strs hp \<Longrightarrow> objs hp' = objs hp \<Longrightarrow> realmOf hp' = realmOf hp \<Longrightarrow> rootShape hp' = rootShape hp \<Longrightarrow>
   heap_ok S strs hp'"
  by (simp add: heap_ok_def)

lemma heap_ok_fields [simp]:
  "heap_ok S strs (hp\<lparr>allocs := n\<rparr>) = heap_ok S strs hp" "heap_ok S strs (hp\<lparr>threshold := n\<rparr>) = heap_ok S strs hp"
  "heap_ok S strs (hp\<lparr>quota := q\<rparr>) = heap_ok S strs hp" "heap_ok S strs (hp\<lparr>cowMap := c\<rparr>) = heap_ok S strs hp"
  by (simp_all add: heap_ok_def)

lemma heap_ok_mono:
  assumes "heap_ok S strs hp" "\<And>x. obj_ok S strs x \<Longrightarrow> obj_ok S' strs' x" "grows S S'"
  shows "heap_ok S' strs' hp"
  using assms unfolding heap_ok_def grows_def by fastforce

lemma nth_in: "i < length xs \<Longrightarrow> xs ! i = x \<Longrightarrow> x \<in> set xs"
  by (auto dest: nth_mem)

section \<open>Handles\<close>

lemma slotAt_index:
  assumes "slotAt os gs b h = Some o'"
  shows "0 < slotOf h \<and> slotOf h < length os \<and> os ! slotOf h = Some o' \<and> Some o' \<in> set os"
proof -
  have "0 < slotOf h \<and> slotOf h < length os \<and> os ! slotOf h = Some o'"
    using assms by (auto simp: slotOf_def slotAt_def Let_def split: if_splits)
  then show ?thesis by (auto intro: nth_in)
qed

declare slotOf_stripRoot [simp]

lemma getLocal_index: "getLocal hp h = Some o' \<Longrightarrow> 0 < slotOf h \<and> slotOf h < length (objs hp) \<and> objs hp ! slotOf h = Some o'
   \<and> Some o' \<in> set (objs hp)"
  by (auto simp: getLocal_def Let_def split: if_splits dest!: slotAt_index)

lemma realmGet_index: "realmGet r h = Some o' \<Longrightarrow> slotOf h < length (realmObjs r) \<and> realmObjs r ! slotOf h = Some o'
   \<and> Some o' \<in> set (realmObjs r)"
  by (auto simp: realmGet_def split: if_splits dest!: slotAt_index)

lemma Get_ok: "heap_ok S strs hp \<Longrightarrow> Get hp h = Some o' \<Longrightarrow> obj_ok S strs o'"
  by (auto simp: Get_def split: if_splits option.splits dest!: getLocal_index realmGet_index
      intro: heap_okD)

lemma set_update_Some: "Some x \<in> set (xs[i := Some y]) \<Longrightarrow> x = y \<or> Some x \<in> set xs"
  using set_update_subset_insert [of xs i "Some y"] by auto

text \<open>A write through a pointer changes the object that the handle reads.\<close>

lemma updObj_ok:
  assumes ok: "heap_ok S strs hp" and o': "getLocal hp h = Some o'" and f: "obj_ok S strs (f o')"
  shows "heap_ok S strs (updObj (slotOf h) f hp)"
proof -
  have "objs (updObj (slotOf h) f hp) = (objs hp)[slotOf h := Some (f o')]"
    using getLocal_index [OF o'] by (simp add: updObj_def)
  moreover have "realmOf (updObj (slotOf h) f hp) = realmOf hp" "rootShape (updObj (slotOf h) f hp) = rootShape hp"
    by (simp_all add: updObj_def)
  ultimately show ?thesis using ok f by (auto simp: heap_ok_def dest!: set_update_Some)
qed

lemma updGet_ok:
  assumes ok: "heap_ok S strs hp" and o': "Get hp h = Some o'" and f: "obj_ok S strs (f o')"
  shows "heap_ok S strs (updGet h f hp)"
proof (cases "hIsRoot h \<and> \<not> sealedRoot hp \<and> \<not> buildingRoot hp")
  case False
  then have "getLocal hp h = Some o'" using o' by (auto simp: Get_def split: if_splits)
  from updObj_ok [where f = f, OF ok this f] show ?thesis unfolding updGet_def if_not_P [OF False] .
next
  case True
  show ?thesis
  proof (cases "map_of (cowMap hp) (stripRoot h)")
    case (Some l)
    then have "getLocal hp l = Some o'" using o' True by (auto simp: Get_def split: if_splits)
    from updObj_ok [where f = f, OF ok this f] show ?thesis unfolding updGet_def if_P [OF True] Some by simp
  next
    case None
    then obtain r where r: "realmOf hp = Some r" "realmGet r h = Some o'"
      using o' True by (auto simp: Get_def split: if_splits option.splits)
    have upd: "updGet h f hp = hp\<lparr>realmOf := Some (r\<lparr>realmObjs := (realmObjs r)[slotOf h := Some (f o')]\<rparr>)\<rparr>"
      unfolding updGet_def if_P [OF True] None using r realmGet_index [OF r(2)] by simp
    show ?thesis
      unfolding upd using ok f r(1) by (auto simp: heap_ok_def dest!: set_update_Some)
  qed
qed

lemma slotAt_update:
  "slotAt os gs b h = Some x \<Longrightarrow> slotOf h' = slotOf h \<Longrightarrow> slotAt (os[slotOf h' := Some y]) gs b h = Some y"
  by (auto simp: slotOf_def slotAt_def Let_def split: if_splits)

lemma getLocal_updObj:
  assumes x: "getLocal hp h = Some x"
  shows "getLocal (updObj (slotOf h) f hp) h = Some (f x)"
proof -
  have h: "h \<noteq> NoHandle" using x by (auto simp: getLocal_def)
  let ?h = "if hIsRoot h then stripRoot h else h"
  have "slotAt (objs hp) (gens hp) (sealedRoot hp \<or> buildingRoot hp) ?h = Some x" "slotOf h = slotOf ?h"
    using x h by (auto simp: getLocal_def Let_def split: if_splits)
  from slotAt_update [OF this] show ?thesis
    using x h getLocal_index [OF x] by (auto simp: getLocal_def updObj_def Let_def split: if_splits)
qed

lemma Get_updGet:
  assumes x: "Get hp h = Some x"
  shows "Get (updGet h f hp) h = Some (f x)"
proof (cases "hIsRoot h \<and> \<not> sealedRoot hp \<and> \<not> buildingRoot hp")
  case False
  then have "getLocal hp h = Some x" using x by (auto simp: Get_def split: if_splits)
  then show ?thesis
    using False x getLocal_updObj [where f = f] by (auto simp: updGet_def Get_def updObj_def split: if_splits)
next
  case True
  show ?thesis
  proof (cases "map_of (cowMap hp) (stripRoot h)")
    case (Some l)
    then have "getLocal hp l = Some x" "h \<noteq> NoHandle" using x True by (auto simp: Get_def split: if_splits)
    then have "getLocal (updObj (slotOf l) f hp) l = Some (f x)" by (intro getLocal_updObj)
    then show ?thesis using True Some \<open>h \<noteq> NoHandle\<close> by (simp add: updGet_def Get_def updObj_def)
  next
    case None
    then obtain r where r: "realmOf hp = Some r" "realmGet r h = Some x" "h \<noteq> NoHandle"
      using x True by (auto simp: Get_def split: if_splits option.splits)
    have "realmGet (r\<lparr>realmObjs := (realmObjs r)[slotOf h := map_option f (realmObjs r ! slotOf h)]\<rparr>) h = Some (f x)"
      using r(2,3) realmGet_index [OF r(2)] slotOf_stripRoot [OF r(3)]
      by (auto simp: realmGet_def slotAt_def slotOf_def Let_def split: if_splits)
    then show ?thesis using True None r by (simp add: updGet_def Get_def)
  qed
qed

section \<open>Copies and collections\<close>

lemma sweep_realm [simp]: "realmOf (sweep tr ln is hp) = realmOf hp" "rootShape (sweep tr ln is hp) = rootShape hp"
  by (induction "is" arbitrary: hp) (auto simp: TrackFree_def split: option.splits)

lemma similar_realm: "similar hp hp' \<Longrightarrow> realmOf hp' = realmOf hp \<and> rootShape hp' = rootShape hp"
proof -
  assume "similar hp hp'"
  then have "hp' = hp\<lparr>objs := objs hp'\<rparr>" by (simp add: similar_def)
  from arg_cong [OF this, of realmOf] arg_cong [OF this, of rootShape] show ?thesis by simp
qed

lemma Collect_ok:
  assumes ok: "heap_ok S strs hp" and g: "gens_ok hp"
  shows "heap_ok S strs (CollectHeap tr ln hp)"
proof (cases "sealedRoot hp")
  case True
  then show ?thesis using ok by (simp add: CollectHeap_def)
next
  case False
  obtain h3 where h3: "similar (hp\<lparr>Collections := Collections hp + 1\<rparr>) h3"
    "sweptTo [1 ..< length (objs hp)] h3 (CollectHeap tr ln hp)"
    "CollectHeap tr ln hp = sweep tr ln [1 ..< length (objs hp)] h3"
    using Collect_swept [OF False g] by metis
  have len: "length (objs h3) = length (objs hp)" using similar_fields(1) [OF h3(1)] by simp
  have "obj_ok S strs o'" if mem: "Some o' \<in> set (objs (CollectHeap tr ln hp))" for o'
  proof -
    have "length (objs (CollectHeap tr ln hp)) = length (objs hp)" using h3(2) len by (simp add: sweptTo_def)
    then obtain k where k: "k < length (objs hp)" "objs (CollectHeap tr ln hp) ! k = Some o'"
      using mem unfolding in_set_conv_nth by metis
    then have "objs h3 ! k = Some o'" using h3(2) len by (auto simp: sweptTo_def split: if_splits)
    moreover have "rel_option sameObj (objs hp ! k) (objs h3 ! k)"
      using similar_fields(7) [OF h3(1)] k(1) by simp
    ultimately obtain x where x: "objs hp ! k = Some x" "sameObj x o'" by (cases "objs hp ! k") auto
    then have "obj_ok S strs x" using heap_okD(1) [OF ok] k(1) nth_mem by metis
    then show ?thesis by (rule obj_ok_cong) (use x(2) in \<open>auto simp: sameObj_def\<close>)
  qed
  moreover have "realmOf (CollectHeap tr ln hp) = realmOf hp \<and> rootShape (CollectHeap tr ln hp) = rootShape hp"
    unfolding h3(3) sweep_realm using similar_realm [OF h3(1)] by simp
  ultimately show ?thesis using ok by (simp add: heap_ok_def)
qed

text \<open>Allocation needs the invariant of handles, which the operations keep as well.\<close>

lemma TrackAlloc_quota: "TrackAlloc tr n hp = Some hp' \<Longrightarrow> \<exists>q. hp' = hp\<lparr>quota := q\<rparr>"
  by (cases hp) (auto simp: TrackAlloc_def split: if_splits prod.splits)

lemma getLocal_quota [simp]: "getLocal (hp\<lparr>quota := q\<rparr>) h = getLocal hp h"
  by (auto simp: getLocal_def Let_def split: option.splits)

lemma Get_quota [simp]: "Get (hp\<lparr>quota := q\<rparr>) h = Get hp h"
  by (auto simp: Get_def Let_def split: option.splits)

lemma TrackAlloc_Get: "TrackAlloc tr n hp = Some h1 \<Longrightarrow> Get h1 obj = Get hp obj"
  using TrackAlloc_quota [of tr n hp h1] by auto

lemma TrackAlloc_frame:
  "TrackAlloc tr n hp = Some hp' \<Longrightarrow> heap_inv hp' = heap_inv hp \<and> heap_ok S strs hp' = heap_ok S strs hp
     \<and> gens hp' = gens hp \<and> rootShape hp' = rootShape hp \<and> realmOf hp' = realmOf hp"
  by (auto simp: TrackAlloc_def heap_inv_def heap_ok_def gens_ok_def split: if_splits prod.splits)

lemma beforeAlloc_ok:
  assumes "heap_ok S strs hp" "heap_inv hp"
  shows "heap_ok S strs (beforeAlloc tr ln hp)"
proof -
  have g: "gens_ok hp" "gens_ok (hp\<lparr>allocs := n\<rparr>)" for n using assms(2) by (auto simp: heap_inv_def gens_ok_def)
  have f: "heap_ok S strs (hp\<lparr>allocs := n\<rparr>)" for n using assms(1) by simp
  show ?thesis
    unfolding beforeAlloc_def Let_def
    using Collect_ok [OF assms(1) g(1), of tr ln] Collect_ok [OF f g(2), of tr ln] assms(1) by simp
qed

lemma padRetired_set: "set (padRetired os gs) \<subseteq> insert None (set os)"
  by (auto simp: padRetired_def)

lemma install_ok:
  assumes "heap_ok S strs hp" "obj_ok S strs x" "install x hp = (h, hp')"
  shows "heap_ok S strs hp'"
  using assms padRetired_set [of "objs hp" "gens hp"]
  by (auto simp: install_def heap_ok_def Let_def split: prod.splits option.splits dest!: set_update_Some)

text \<open>Room for one more handle: what a step that may allocate needs.\<close>

definition roomy :: "'q heap \<Rightarrow> bool" where
  "roomy hp \<longleftrightarrow> heap_inv hp \<and> length (gens hp) + 1 < 2 ^ 32"

lemma install_gens: "install x hp = (h, hp') \<Longrightarrow> length (gens hp') \<le> length (gens hp) + 1"
  by (auto simp: install_def Let_def split: prod.splits option.splits)

lemma beforeAlloc_gens: "gens_ok hp \<Longrightarrow> length (gens (beforeAlloc tr ln hp)) = length (gens hp)"
  using Collect_fields(2) [of hp tr ln] Collect_fields(2) [of "hp\<lparr>allocs := allocs hp + 1\<rparr>" tr ln]
  by (simp add: beforeAlloc_def Let_def gens_ok_def)

lemma alloc_ok:
  assumes ok: "heap_ok S strs hp" and inv: "roomy hp" and x: "obj_ok S strs x"
    and al: "alloc tr ln x hp = Some (h, hp')"
  shows "heap_ok S strs hp' \<and> heap_inv hp' \<and> getLocal hp' h = Some x"
proof -
  obtain h1 where h1: "TrackAlloc tr 96 hp = Some h1" "install x (beforeAlloc tr ln h1) = (h, hp')"
    using al by (auto simp: alloc_def split: Option.bind_splits)
  note fr = TrackAlloc_frame [OF h1(1)]
  have inv1: "heap_inv h1" "gens_ok h1" "heap_ok S strs h1" "length (gens h1) + 1 < 2 ^ 32"
    using inv ok fr by (auto simp: roomy_def heap_inv_def)
  have "length (gens hp') < 2 ^ 32"
    using install_gens [OF h1(2)] beforeAlloc_gens [OF inv1(2), of tr ln] inv1(4) by simp
  moreover have "heap_inv hp" using inv by (simp add: roomy_def)
  ultimately show ?thesis
    using alloc_step [OF _ al] install_ok [OF beforeAlloc_ok [OF inv1(3,1)] x h1(2)] by blast
qed

lemma prepareWrite_ok:
  assumes ok: "heap_ok S strs hp" and inv: "roomy hp" and p: "prepareWrite tr ln obj hp = Some (obj', hp')"
  shows "heap_ok S strs hp' \<and> heap_inv hp'"
proof (cases "hIsRoot obj \<and> realmOf hp \<noteq> None \<and> map_of (cowMap hp) (stripRoot obj) = None
    \<and> realmGet (the (realmOf hp)) obj \<noteq> None")
  case False
  then have "hp' = hp" using p by (auto simp: prepareWrite_def cow_def split: if_splits option.splits)
  then show ?thesis using ok inv by (simp add: roomy_def)
next
  case True
  then obtain r src where r: "realmOf hp = Some r" "realmGet r obj = Some src" by auto
  obtain h1 h2 where h: "TrackAlloc tr (objectCharge src) hp = Some h1"
      "alloc tr ln (cloneObject src) h1 = Some (obj', h2)" "hp' = h2\<lparr>cowMap := (stripRoot obj, obj') # cowMap h2\<rparr>"
    using p True r by (auto simp: prepareWrite_def cow_def split: Option.bind_splits)
  note fr = TrackAlloc_frame [OF h(1)]
  have "obj_ok S strs src" using heap_okD(2) [OF ok r(1)] realmGet_index [OF r(2)] by blast
  then have src: "obj_ok S strs (cloneObject src)" by (rule obj_ok_cong) (simp_all add: cloneObject_def)
  have ok1: "heap_ok S strs h1" using ok fr by blast
  have "roomy h1" using inv fr by (simp add: roomy_def)
  from alloc_ok [OF ok1 this src h(2)] have "heap_ok S strs h2" "heap_inv h2" by blast+
  then show ?thesis unfolding h(3) by (auto simp: heap_inv_def gens_ok_def intro: heap_ok_frame)
qed

section \<open>Keys\<close>

lemma Intern_paid:
  assumes "store_ok h" "table_ok t h" "icount t < 2 ^ 29" "p < length h"
    and run: "Intern bill t h q (Some p) = Some (Some a, t', h', q')"
  shows "interned t h (units h p) a t' h'"
proof -
  let ?bill = "\<lambda>n x. case bill n x of None \<Rightarrow> Some x | Some y \<Rightarrow> Some y"
  have "Intern ?bill t h q (Some p) = Some (Some a, t', h', q')"
    using run unfolding Intern_def by (auto split: Option.bind_splits option.splits prod.splits)
  moreover have "\<exists>b t1 h1 q1. Intern ?bill t h q (Some p) = Some (Some b, t1, h1, q1) \<and> interned t h (units h p) b t1 h1"
    by (rule Intern_total [OF assms(1-4)]) (simp split: option.split)
  ultimately show ?thesis by auto
qed

definition keyed :: "'q eng \<Rightarrow> saddr \<Rightarrow> saddr \<Rightarrow> 'q eng \<Rightarrow> bool" where
  "keyed e key k e' \<longleftrightarrow> (\<exists>q. e' = e\<lparr>etab := etab e', estr := estr e', eheap := (eheap e)\<lparr>quota := q\<rparr>\<rparr>)
    \<and> interned (etab e) (estr e) (units (estr e) key) k (etab e') (estr e')"

lemma internKey_ok:
  assumes ok: "stores_ok e" and small: "icount (etab e) < 2 ^ 29" and key: "key < length (estr e)"
    and i: "internKey bill key e = Some (k, e')"
  shows "keyed e key k e'"
proof -
  obtain t h q where r: "Intern bill (etab e) (estr e) (quota (eheap e)) (Some key) = Some (Some k, t, h, q)"
    "e' = e\<lparr>etab := t, estr := h, eheap := (eheap e)\<lparr>quota := q\<rparr>\<rparr>"
    using i by (auto simp: internKey_def split: option.splits prod.splits)
  then show ?thesis
    using Intern_paid [OF _ _ small key r(1)] ok by (auto simp: keyed_def stores_ok_def)
qed

lemma internKey_total:
  assumes ok: "stores_ok e" and small: "icount (etab e) < 2 ^ 29" and key: "key < length (estr e)"
    and pays: "\<And>n q. bill n q \<noteq> None"
  shows "\<exists>k e'. internKey bill key e = Some (k, e')"
  using Intern_total [of "estr e" "etab e" key bill "quota (eheap e)"] ok small key pays
  by (fastforce simp: internKey_def stores_ok_def)

lemma keyedD:
  assumes "keyed e key k e'"
  shows "eshapes e' = eshapes e" "eglob e' = eglob e" "objs (eheap e') = objs (eheap e)"
    "realmOf (eheap e') = realmOf (eheap e)" "rootShape (eheap e') = rootShape (eheap e)"
    "heap_inv (eheap e') = heap_inv (eheap e)" "Get (eheap e') h = Get (eheap e) h"
    "getLocal (eheap e') h = getLocal (eheap e) h"
    "extends (estr e) (estr e')" "units (estr e') k = units (estr e) key" "k < length (estr e')"
    "stores_ok e \<Longrightarrow> stores_ok e'"
    "canon (byHash (etab e')) (estr e') = (canon (byHash (etab e)) (estr e))(units (estr e) key \<mapsto> k)"
    "canon (byHash (etab e)) (estr e) (units (estr e) key) \<in> {None, Some k}"
proof -
  obtain q where e': "e' = e\<lparr>etab := etab e', estr := estr e', eheap := (eheap e)\<lparr>quota := q\<rparr>\<rparr>"
    using assms by (auto simp: keyed_def)
  from arg_cong [OF this, of eheap] have h: "eheap e' = (eheap e)\<lparr>quota := q\<rparr>" by simp
  from arg_cong [OF e', of eshapes] show s: "eshapes e' = eshapes e" by simp
  from arg_cong [OF e', of eglob] show "eglob e' = eglob e" by simp
  show "objs (eheap e') = objs (eheap e)" "realmOf (eheap e') = realmOf (eheap e)"
    "rootShape (eheap e') = rootShape (eheap e)" "heap_inv (eheap e') = heap_inv (eheap e)"
    by (simp_all add: h heap_inv_def gens_ok_def)
  show gl: "getLocal (eheap e') h = getLocal (eheap e) h" for h
    by (simp add: h getLocal_def Let_def)
  show "Get (eheap e') h = Get (eheap e) h"
    using gl by (auto simp: h Get_def getLocal_def Let_def split: option.splits)
  show "extends (estr e) (estr e')" "units (estr e') k = units (estr e) key" "k < length (estr e')"
    "stores_ok e \<Longrightarrow> stores_ok e'"
    "canon (byHash (etab e')) (estr e') = (canon (byHash (etab e)) (estr e))(units (estr e) key \<mapsto> k)"
    "canon (byHash (etab e)) (estr e) (units (estr e) key) \<in> {None, Some k}"
    using assms s by (auto simp: keyed_def interned_def stores_ok_def)
qed

lemma keyed_objects: "keyed e key k e' \<Longrightarrow> stores_ok e \<Longrightarrow> objects_ok e \<Longrightarrow> objects_ok e'"
proof -
  assume k: "keyed e key k e'" and "stores_ok e" and ok: "objects_ok e"
  note d = keyedD [OF k]
  have "heap_ok (eshapes e) (estr e') (eheap e)"
    by (rule heap_ok_mono [OF ok]) (auto intro: obj_ok_extends d(9))
  then show "objects_ok e'" unfolding d(1) by (rule heap_ok_frame) (rule d)+
qed

section \<open>Single writes\<close>

lemma onHeap_simps [simp]:
  "eheap (onHeap f e) = f (eheap e)" "eshapes (onHeap f e) = eshapes e" "estr (onHeap f e) = estr e"
  "etab (onHeap f e) = etab e" "eglob (onHeap f e) = eglob e" "stores_ok (onHeap f e) = stores_ok e"
  by (simp_all add: onHeap_def stores_ok_def)

lemma updObj_inv': "heap_inv hp \<Longrightarrow> heap_inv (updObj i f hp)"
  using updObj_inv [of hp i f] by blast

lemma updGet_inv: "heap_inv hp \<Longrightarrow> heap_inv (updGet h f hp)"
  by (auto simp: updGet_def intro: updObj_inv' split: option.split) (simp add: heap_inv_def gens_ok_def)

lemma maybeGrow_ok: "obj_ok S strs x \<Longrightarrow> obj_ok S strs (maybeGrowArrayIndex k x)"
  by (erule obj_ok_cong) (auto simp: maybeGrowArrayIndex_def split: option.split)

lemma undelete_ok: "obj_ok S strs x \<Longrightarrow> obj_ok S strs (undelete k x)"
  by (erule obj_ok_cong) (auto simp: undelete_def)

lemma writeParam_ok:
  assumes "heap_ok S strs hp"
  shows "heap_ok S strs (writeParam strs k v x hp)"
proof -
  have "heap_ok S strs (updGet h (\<lambda>x. x\<lparr>elements := (elements x)[i := v]\<rparr>) hp)" if "Get hp h = Some env" for h env i
    by (rule updGet_ok [OF assms that]) (rule obj_ok_cong [OF Get_ok [OF assms that]], simp_all)
  then show ?thesis using assms by (auto simp: writeParam_def split: option.split)
qed

lemma writeParam_inv: "heap_inv hp \<Longrightarrow> heap_inv (writeParam strs k v x hp)"
  by (auto simp: writeParam_def intro: updGet_inv split: option.split)

lemma addSlot_obj:
  assumes S: "shapes_ok S" and x: "obj_ok S strs x" and i: "oshape x = Some i"
    and t: "transition S i (Some k) = (S', n)"
    and fresh: "ShapeLookup strs S i k = None" and k: "k < length strs"
  shows "obj_ok S' strs (x\<lparr>oshape := Some n, slots := slots x @ [v]\<rparr>)"
proof -
  have io: "i < length S" "length (slots x) = shCount (S ! i)" "distinct (map (units strs) (keyList S i))"
    "set (keyList S i) \<subseteq> {..< length strs}" "set (deleted x) \<subseteq> {..< length strs}"
    using x i by (auto simp: obj_ok_def)
  note tr = transition_ok [OF S io(1) t]
  have "units strs k \<notin> set (map (units strs) (keyList S i))" using fresh ShapeLookup_None [OF S io(1,3)] by blast
  moreover have "shCount (S' ! n) = Suc (shCount (S ! i))"
    using tr keyList_length [of S' n] keyList_length [OF S io(1)] by simp
  ultimately show ?thesis using tr io k by (auto simp: obj_ok_def)
qed

section \<open>The operations keep objects well-formed\<close>

lemma prepare_ok:
  assumes "stores_ok e" "objects_ok e" "roomy (eheap e)" "prepare tr ln obj e = Some (obj', e')"
  shows "stores_ok e' \<and> objects_ok e' \<and> heap_inv (eheap e') \<and> etab e' = etab e \<and> estr e' = estr e \<and> eshapes e' = eshapes e"
  using assms prepareWrite_ok [OF assms(2,3)] unfolding prepare_def stores_ok_def
  by (fastforce split: Option.bind_splits)

lemma openKey_ok:
  assumes ok: "stores_ok e0" "objects_ok e0" "roomy (eheap e0)" "icount (etab e0) < 2 ^ 29" "key < length (estr e0)"
    and op: "openKey tr ln bill obj0 key e0 = Some (r, e)"
  shows "stores_ok e \<and> objects_ok e \<and> heap_inv (eheap e) \<and> (\<forall>obj k. r = Some (obj, k) \<longrightarrow> k < length (estr e))"
proof -
  obtain obj e1 x where 1: "prepare tr ln obj0 e0 = Some (obj, e1)" "Get (eheap e1) obj = Some x"
    using op by (auto simp: openKey_def split: Option.bind_splits)
  note p = prepare_ok [OF ok(1-3) 1(1)]
  show ?thesis
  proof (cases "isRoot x")
    case True
    then show ?thesis using op 1 p by (auto simp: openKey_def)
  next
    case False
    obtain k e2 where 2: "internKey bill key e1 = Some (k, e2)"
        "r = Some (obj, k)" "e = onHeap (updGet obj (\<lambda>x. maybeGrowArrayIndex (units (estr e2) k) (undelete k x))) e2"
      using op 1 False by (auto simp: openKey_def split: Option.bind_splits)
    have k: "keyed e1 key k e2" by (rule internKey_ok [OF _ _ _ 2(1)]) (use p ok in auto)
    note d = keyedD [OF k]
    have o2: "objects_ok e2" "stores_ok e2" using keyed_objects [OF k] p d by auto
    have g: "Get (eheap e2) obj = Some x" using 1(2) d by simp
    have "objects_ok e"
      unfolding 2(3) onHeap_simps
      by (rule updGet_ok [OF o2(1) g]) (intro maybeGrow_ok undelete_ok Get_ok [OF o2(1) g])
    then show ?thesis using 2 d o2 p by (auto intro: updGet_inv)
  qed
qed

lemma addSlot_ok:
  assumes ok: "stores_ok e" "objects_ok e" and g: "Get (eheap e) obj = Some x"
    and fresh: "lookupIn e x k = None" and k: "k < length (estr e)" and a: "addSlot tr obj k v x e = Some e'"
  shows "stores_ok e' \<and> objects_ok e' \<and> etab e' = etab e \<and> estr e' = estr e
    \<and> (\<exists>n S h1. TrackAlloc tr 104 (eheap e) = Some h1 \<and> grows (eshapes e) S \<and>
        e' = e\<lparr>eshapes := S, eheap := updGet obj (\<lambda>x. x\<lparr>oshape := Some n, slots := slots x @ [v]\<rparr>) h1\<rparr>)"
proof -
  obtain h1 i S n where 1: "TrackAlloc tr 104 (eheap e) = Some h1" "oshape x = Some i"
      "transition (eshapes e) i (Some k) = (S, n)"
      "e' = e\<lparr>eshapes := S, eheap := updGet obj (\<lambda>x. x\<lparr>oshape := Some n, slots := slots x @ [v]\<rparr>) h1\<rparr>"
    using a by (auto simp: addSlot_def split: Option.bind_splits prod.splits)
  have x: "obj_ok (eshapes e) (estr e) x" by (rule Get_ok [OF ok(2) g])
  have sok: "shapes_ok (eshapes e)" using ok(1) by (simp add: stores_ok_def)
  have i: "i < length (eshapes e)" using x 1(2) by (auto simp: obj_ok_def)
  note tr = transition_ok [OF sok i 1(3)]
  have "ShapeLookup (estr e) (eshapes e) i k = None" using fresh 1(2) by (simp add: lookupIn_def)
  note new = addSlot_obj [OF sok x 1(2,3) this k]
  have h1: "heap_ok S (estr e) h1"
  proof (rule heap_ok_mono)
    show "heap_ok (eshapes e) (estr e) h1" using TrackAlloc_frame [OF 1(1)] ok(2) by blast
    show "obj_ok S (estr e) y" if "obj_ok (eshapes e) (estr e) y" for y
      by (rule obj_ok_grows [OF that sok]) (use tr in auto)
  qed (use tr in auto)
  have "Get h1 obj = Some x"
    using TrackAlloc_Get [OF 1(1)] g by simp
  then have "heap_ok S (estr e) (updGet obj (\<lambda>x. x\<lparr>oshape := Some n, slots := slots x @ [v]\<rparr>) h1)"
    by (rule updGet_ok [OF h1]) (rule new)
  then show ?thesis using 1 ok(1) tr by (auto simp: stores_ok_def)
qed

lemma addSlot_Get:
  assumes "Get (eheap e) obj = Some x" "addSlot tr obj k v x e = Some e'"
  shows "\<exists>n. Get (eheap e') obj = Some (x\<lparr>oshape := Some n, slots := slots x @ [v]\<rparr>)"
proof -
  obtain h1 i S n where 1: "TrackAlloc tr 104 (eheap e) = Some h1"
      "e' = e\<lparr>eshapes := S, eheap := updGet obj (\<lambda>x. x\<lparr>oshape := Some n, slots := slots x @ [v]\<rparr>) h1\<rparr>"
    using assms(2) by (auto simp: addSlot_def split: Option.bind_splits prod.splits)
  then show ?thesis using Get_updGet [of h1 obj x] TrackAlloc_Get [OF 1(1), of obj] assms(1) by auto
qed

lemma SetProperty_ok:
  assumes ok: "stores_ok e0" "objects_ok e0" "roomy (eheap e0)" "icount (etab e0) < 2 ^ 29" "key < length (estr e0)"
    and op: "SetProperty tr ln bill obj0 key v e0 = Some e'"
  shows "stores_ok e' \<and> objects_ok e'"
proof -
  obtain r e where 1: "openKey tr ln bill obj0 key e0 = Some (r, e)"
    using op by (auto simp: SetProperty_def split: Option.bind_splits)
  note o1 = openKey_ok [OF ok 1]
  show ?thesis
  proof (cases r)
    case None
    then show ?thesis using op 1 o1 by (simp add: SetProperty_def)
  next
    case (Some ok')
    obtain obj k where r: "r = Some (obj, k)" using Some by (cases ok') auto
    obtain x where x: "Get (eheap e) obj = Some x" using op 1 r by (auto simp: SetProperty_def split: Option.bind_splits)
    let ?e1 = "onHeap (writeParam (estr e) k v x) e"
    have o2: "objects_ok ?e1" "stores_ok ?e1" using o1 by (auto intro: writeParam_ok)
    obtain y where y: "Get (eheap ?e1) obj = Some y"
      using op 1 r x by (auto simp: SetProperty_def Let_def split: Option.bind_splits)
    show ?thesis
    proof (cases "lookupIn ?e1 y k")
      case None
      then have a: "addSlot tr obj k v y ?e1 = Some e'" using op 1 r x y by (simp add: SetProperty_def Let_def)
      have "k < length (estr ?e1)" using o1 r by simp
      from addSlot_ok [OF o2(2,1) y None this a] show ?thesis by blast
    next
      case (Some slot)
      have w: "objects_ok (onHeap (updGet obj (\<lambda>x. x\<lparr>slots := (slots x)[slot := v]\<rparr>)) ?e1)"
        unfolding onHeap_simps(1-3) using o2(1) y
        by (intro updGet_ok [where o' = y]) (auto intro: obj_ok_cong [OF Get_ok])
      then show ?thesis
        using op 1 r x y Some o2 by (auto simp: SetProperty_def Let_def split: if_splits)
    qed
  qed
qed

lemma putAttr_ok: "obj_ok S strs x \<Longrightarrow> obj_ok S strs (putAttr slot a x)"
  by (erule obj_ok_cong) (auto simp: putAttr_def ensureAttrs_def Let_def)

lemma putAttr_write:
  assumes "heap_ok S strs hp" "Get hp obj = Some x" "\<And>y. obj_ok S strs y \<Longrightarrow> obj_ok S strs (f y)"
  shows "heap_ok S strs (updGet obj f hp)"
  by (rule updGet_ok [OF assms(1,2)]) (intro assms(3) Get_ok [OF assms(1,2)])

lemma DefineDataProperty_ok:
  assumes ok: "stores_ok e0" "objects_ok e0" "roomy (eheap e0)" "icount (etab e0) < 2 ^ 29" "key < length (estr e0)"
    and op: "DefineDataProperty tr ln bill obj0 key v a e0 = Some e'"
  shows "stores_ok e' \<and> objects_ok e'"
proof -
  obtain r e where 1: "openKey tr ln bill obj0 key e0 = Some (r, e)"
    using op by (auto simp: DefineDataProperty_def split: Option.bind_splits)
  note o1 = openKey_ok [OF ok 1]
  show ?thesis
  proof (cases r)
    case None
    then show ?thesis using op 1 o1 by (simp add: DefineDataProperty_def)
  next
    case (Some ok')
    obtain obj k where r: "r = Some (obj, k)" using Some by (cases ok') auto
    obtain x where x: "Get (eheap e) obj = Some x"
      using op 1 r by (auto simp: DefineDataProperty_def split: Option.bind_splits)
    show ?thesis
    proof (cases "lookupIn e x k")
      case None
      then obtain e1 where e1: "addSlot tr obj k v x e = Some e1"
          "e' = onHeap (updGet obj (\<lambda>x. putAttr (length (slots x) - 1) a x)) e1"
        using op 1 r x by (auto simp: DefineDataProperty_def split: Option.bind_splits)
      note add = addSlot_ok [OF _ _ x None _ e1(1)]
      have add: "stores_ok e1" "objects_ok e1" using add o1 r by auto
      obtain y where "Get (eheap e1) obj = Some y" using addSlot_Get [OF x e1(1)] by blast
      then show ?thesis using add e1(2) by (auto intro: putAttr_write putAttr_ok)
    next
      case (Some slot)
      have "objects_ok (onHeap (updGet obj (\<lambda>x. putAttr slot a (x\<lparr>slots := (slots x)[slot := v]\<rparr>))) e)"
        unfolding onHeap_simps(1-3) using o1 x
        by (intro putAttr_write) (auto intro!: putAttr_ok elim: obj_ok_cong)
      then show ?thesis
        using op 1 r x Some o1 by (auto simp: DefineDataProperty_def split: if_splits)
    qed
  qed
qed

lemma SetPropertyAttrs_ok:
  assumes ok: "stores_ok e0" "objects_ok e0" "roomy (eheap e0)" "icount (etab e0) < 2 ^ 29" "key < length (estr e0)"
    and op: "SetPropertyAttrs tr ln bill obj0 key a e0 = Some e'"
  shows "stores_ok e' \<and> objects_ok e'"
proof -
  obtain obj e1 where 1: "prepare tr ln obj0 e0 = Some (obj, e1)"
    using op by (auto simp: SetPropertyAttrs_def split: Option.bind_splits)
  note p = prepare_ok [OF ok(1-3) 1]
  show ?thesis
  proof (cases "case getLocal (eheap e1) obj of None \<Rightarrow> True | Some x \<Rightarrow> oshape x = None \<or> isRoot x")
    case True
    then show ?thesis using op 1 p by (auto simp: SetPropertyAttrs_def split: option.splits)
  next
    case False
    then obtain x where x: "getLocal (eheap e1) obj = Some x" "oshape x \<noteq> None" "\<not> isRoot x"
      by (auto split: option.splits)
    obtain k e2 where 2: "internKey bill key e1 = Some (k, e2)"
      using op 1 x by (auto simp: SetPropertyAttrs_def split: Option.bind_splits)
    have k: "keyed e1 key k e2" by (rule internKey_ok [OF _ _ _ 2]) (use p ok in auto)
    have o2: "objects_ok e2" "stores_ok e2" "getLocal (eheap e2) obj = Some x"
      using keyed_objects [OF k] p keyedD [OF k] x by auto
    have "objects_ok (onHeap (updObj (slotOf obj) (putAttr slot a)) e2)" for slot
      unfolding onHeap_simps(1-3)
      by (rule updObj_ok [OF o2(1,3)]) (intro putAttr_ok, use getLocal_index [OF o2(3)] heap_okD(1) [OF o2(1)] in blast)
    then show ?thesis
      using op 1 x 2 o2 by (auto simp: SetPropertyAttrs_def split: option.splits)
  qed
qed

lemma clearSlots_length: "length (slots (clearSlots e k x)) = length (slots x)"
proof -
  have "length (fold (\<lambda>(c, slot) xs. if P c \<and> slot < length xs then xs[slot := Undefined] else xs) cs xs) = length xs"
    for P and cs :: "(saddr \<times> nat) list" and xs :: "val list"
    by (induction cs arbitrary: xs) (auto split: prod.split)
  then show ?thesis by (simp add: clearSlots_def split: option.split)
qed

lemma clearElement_fields [simp]:
  "oshape (clearElement k x) = oshape x" "slots (clearElement k x) = slots x" "deleted (clearElement k x) = deleted x"
  by (auto simp: clearElement_def split: option.split)

lemma clearSlots_fields [simp]: "oshape (clearSlots e k x) = oshape x"
  by (simp add: clearSlots_def split: option.split)

lemma DeleteProperty_ok:
  assumes ok: "stores_ok e0" "objects_ok e0" "roomy (eheap e0)" "icount (etab e0) < 2 ^ 29" "key < length (estr e0)"
    and op: "DeleteProperty tr ln bill obj0 key e0 = Some (b, e')"
  shows "stores_ok e' \<and> objects_ok e'"
proof -
  obtain obj e1 where 1: "prepare tr ln obj0 e0 = Some (obj, e1)"
    using op by (auto simp: DeleteProperty_def split: Option.bind_splits)
  note p = prepare_ok [OF ok(1-3) 1]
  show ?thesis
  proof (cases "case getLocal (eheap e1) obj of None \<Rightarrow> True | Some x \<Rightarrow> frozen x \<or> isRoot x")
    case True
    then show ?thesis using op 1 p by (auto simp: DeleteProperty_def split: option.splits)
  next
    case False
    then obtain x where x: "getLocal (eheap e1) obj = Some x" "\<not> frozen x" "\<not> isRoot x"
      by (auto split: option.splits)
    obtain k e2 where 2: "internKey bill key e1 = Some (k, e2)"
      using op 1 x by (auto simp: DeleteProperty_def split: Option.bind_splits)
    have k: "keyed e1 key k e2" by (rule internKey_ok [OF _ _ _ 2]) (use p ok in auto)
    have o2: "objects_ok e2" "stores_ok e2" "getLocal (eheap e2) obj = Some x" "k < length (estr e2)"
      using keyed_objects [OF k] p keyedD [OF k] x by auto
    have x2: "obj_ok (eshapes e2) (estr e2) x" using getLocal_index [OF o2(3)] heap_okD(1) [OF o2(1)] by blast
    let ?f = "\<lambda>x. clearElement (units (estr e2) k) ((clearSlots e2 k x)\<lparr>deleted := deleted x @ [k]\<rparr>)"
    have "objects_ok (onHeap (updObj (slotOf obj) ?f) e2)"
      unfolding onHeap_simps(1-3)
      by (rule updObj_ok [OF o2(1,3)]) (use x2 o2(4) in \<open>auto simp: obj_ok_def clearSlots_length\<close>)
    then show ?thesis
      using op 1 x 2 o2 by (auto simp: DeleteProperty_def split: option.splits if_splits)
  qed
qed

text \<open>The operations on properties, as steps of an engine.\<close>

inductive propStep :: "'q tracker \<Rightarrow> (nat \<Rightarrow> nat) \<Rightarrow> 'q billing \<Rightarrow> 'q eng \<Rightarrow> 'q eng \<Rightarrow> bool"
  for tr ln bill where
  set: "key < length (estr e) \<Longrightarrow> SetProperty tr ln bill obj key v e = Some e' \<Longrightarrow> propStep tr ln bill e e'"
| "define": "key < length (estr e) \<Longrightarrow> DefineDataProperty tr ln bill obj key v a e = Some e' \<Longrightarrow> propStep tr ln bill e e'"
| attributes: "key < length (estr e) \<Longrightarrow> SetPropertyAttrs tr ln bill obj key a e = Some e' \<Longrightarrow> propStep tr ln bill e e'"
| delete: "key < length (estr e) \<Longrightarrow> DeleteProperty tr ln bill obj key e = Some (b, e') \<Longrightarrow> propStep tr ln bill e e'"
| prototype: "SetProto tr ln obj p (eheap e) = Some hp \<Longrightarrow> propStep tr ln bill e (e\<lparr>eheap := hp\<rparr>)"
| element: "SetElement tr ln obj i v (eheap e) = Some hp \<Longrightarrow> propStep tr ln bill e (e\<lparr>eheap := hp\<rparr>)"
| create: "NewObject tr ln (eheap e) = Some (h, hp) \<Longrightarrow> propStep tr ln bill e (e\<lparr>eheap := hp\<rparr>)"
| collect: "propStep tr ln bill e (e\<lparr>eheap := CollectHeap tr ln (eheap e)\<rparr>)"

lemma SetProto_ok:
  assumes ok: "heap_ok S strs hp" "roomy hp" and op: "SetProto tr ln obj p hp = Some hp'"
  shows "heap_ok S strs hp'"
proof -
  obtain obj1 h1 where 1: "prepareWrite tr ln obj hp = Some (obj1, h1)"
    "hp' = (case getLocal h1 obj1 of None \<Rightarrow> h1
       | Some o' \<Rightarrow> if isRoot o' then h1 else updObj (slotOf obj1) (\<lambda>o'. o'\<lparr>proto := p\<rparr>) h1)"
    using op by (auto simp: SetProto_def split: Option.bind_splits)
  have h1: "heap_ok S strs h1" using prepareWrite_ok [OF ok 1(1)] by blast
  have "heap_ok S strs (updObj (slotOf obj1) (\<lambda>o'. o'\<lparr>proto := p\<rparr>) h1)" if x: "getLocal h1 obj1 = Some x" for x
  proof (rule updObj_ok [OF h1 x])
    have "obj_ok S strs x" using getLocal_index [OF x] heap_okD(1) [OF h1] by blast
    then show "obj_ok S strs (x\<lparr>proto := p\<rparr>)" by (rule obj_ok_cong) simp_all
  qed
  then show ?thesis using 1(2) h1 by (auto split: option.splits)
qed

lemma SetElement_ok:
  assumes ok: "heap_ok S strs hp" "roomy hp" and op: "SetElement tr ln obj i v hp = Some hp'"
  shows "heap_ok S strs hp'"
proof -
  obtain obj1 h1 x where 1: "prepareWrite tr ln obj hp = Some (obj1, h1)" "Get h1 obj1 = Some x"
    using op by (auto simp: SetElement_def split: Option.bind_splits)
  have h1: "heap_ok S strs h1" using prepareWrite_ok [OF ok 1(1)] by blast
  have "heap_ok S strs h2 \<and> Get h2 obj1 = Some x" if "h2 = h1 \<or> TrackAlloc tr n h1 = Some h2" for h2 n
    using that h1 1(2) TrackAlloc_frame [of tr n h1 h2 S strs] TrackAlloc_Get [of tr n h1 h2 obj1] by auto
  then have w: "heap_ok S strs (updGet obj1 (\<lambda>x. x\<lparr>elements := f x\<rparr>) h2)"
    if "h2 = h1 \<or> TrackAlloc tr n h1 = Some h2" for h2 n f
    using that by (intro putAttr_write [where x = x]) (blast, blast, erule obj_ok_cong, simp_all)
  show ?thesis
    using op 1 h1
    by (auto simp: SetElement_def Let_def split: Option.bind_splits if_splits prod.splits intro: w)
qed

lemma NewObject_ok:
  assumes "heap_ok S strs hp" "roomy hp" "keyList S (rootShape hp) = []" "NewObject tr ln hp = Some (h, hp')"
  shows "heap_ok S strs hp'"
proof -
  have "obj_ok S strs (zeroObject\<lparr>okind := KindOrdinary, oshape := Some (rootShape hp), proto := objectProto hp\<rparr>)"
    using assms(1,3) by (auto simp: obj_ok_def heap_ok_def zeroObject_def)
  from alloc_ok [OF assms(1,2) this] show ?thesis using assms(4) by (simp add: NewObject_def)
qed

text \<open>
  C30. Objects stay well-formed.  Whatever an engine does to properties (set, define, change
  attributes, delete), prototypes and elements, to local objects or, by copying them first, to
  those of the root realm, and whenever it creates objects or collects, every object keeps as
  many slots as its shape has properties, and no two of its keys have the same text: the checks
  that \<open>CheckHeap\<close> makes of shapes cannot fail.
\<close>

theorem property_ops_keep_objects:
  assumes "propStep tr ln bill e e'" "stores_ok e" "objects_ok e" "roomy (eheap e)" "icount (etab e) < 2 ^ 29"
  shows "stores_ok e' \<and> objects_ok e'"
  using assms(1)
proof cases
  case set
  then show ?thesis using SetProperty_ok [OF assms(2-5)] by blast
next
  case "define"
  then show ?thesis using DefineDataProperty_ok [OF assms(2-5)] by blast
next
  case attributes
  then show ?thesis using SetPropertyAttrs_ok [OF assms(2-5)] by blast
next
  case delete
  then show ?thesis using DeleteProperty_ok [OF assms(2-5)] by blast
next
  case prototype
  then show ?thesis using SetProto_ok [OF assms(3,4)] assms(2) by (auto simp: stores_ok_def)
next
  case element
  then show ?thesis using SetElement_ok [OF assms(3,4)] assms(2) by (auto simp: stores_ok_def)
next
  case (create h hp)
  have r: "rootShape (eheap e) < length (eshapes e)" "shCount (eshapes e ! rootShape (eheap e)) = 0" "shapes_ok (eshapes e)"
    using assms(2,3) by (auto simp: heap_ok_def stores_ok_def)
  then have "keyList (eshapes e) (rootShape (eheap e)) = []" using keyList_length [OF r(3,1)] by simp
  then show ?thesis using create NewObject_ok [OF assms(3,4)] assms(2) by (auto simp: stores_ok_def)
next
  case collect
  have "gens_ok (eheap e)" using assms(4) by (simp add: roomy_def heap_inv_def)
  then show ?thesis using collect Collect_ok [OF assms(3)] assms(2) by (auto simp: stores_ok_def)
qed

end
