(* ===== verification/ObjGet.thy ===== *)
theory ObjGet
  imports ObjMap
begin

text \<open>
  Objects as finite maps.  \<open>propMap\<close> reads a well-formed object as the map from key contents to
  values that its shape, its slots and its deleted keys stand for; \<open>SetProperty\<close> and
  \<open>DeleteProperty\<close> are the update and the removal of that map, and \<open>GetOwnProperty\<close> is its
  lookup (\<open>SetProperty_updates\<close>, \<open>DeleteProperty_removes\<close>, \<open>GetOwnProperty_reads\<close>).
\<close>

section \<open>The map of an object\<close>

definition slotMap :: "shape list \<Rightarrow> store \<Rightarrow> object \<Rightarrow> u16 list \<Rightarrow> val option" where
  "slotMap S strs x =
     (case oshape x of None \<Rightarrow> Map.empty | Some i \<Rightarrow> map_of (zip (map (units strs) (keyList S i)) (slots x)))"

definition propMap :: "'q eng \<Rightarrow> object \<Rightarrow> u16 list \<Rightarrow> val option" where
  "propMap e x = slotMap (eshapes e) (estr e) x |` (- (units (estr e) ` set (deleted x)))"

lemma slotMap_lookup:
  assumes x: "obj_ok (eshapes e) (estr e) x" and S: "shapes_ok (eshapes e)"
  shows "slotMap (eshapes e) (estr e) x (units (estr e) k) = map_option (\<lambda>j. slots x ! j) (lookupIn e x k)"
    and "lookupIn e x k = Some j \<Longrightarrow> j < length (slots x)"
proof -
  obtain i where i: "oshape x = Some i" "i < length (eshapes e)" "length (slots x) = shCount (eshapes e ! i)"
    "distinct (map (units (estr e)) (keyList (eshapes e) i))"
    using x by (auto simp: obj_ok_def)
  let ?ks = "map (units (estr e)) (keyList (eshapes e) i)"
  have len: "length ?ks = length (slots x)" using keyList_length [OF S i(2)] i(3) by simp
  note content = ShapeLookup_content [OF S i(2,4)]
  show "lookupIn e x k = Some j \<Longrightarrow> j < length (slots x)" using i content by (simp add: lookupIn_def)
  show "slotMap (eshapes e) (estr e) x (units (estr e) k) = map_option (\<lambda>j. slots x ! j) (lookupIn e x k)"
  proof (cases "ShapeLookup (estr e) (eshapes e) i k")
    case None
    then have "units (estr e) k \<notin> set ?ks" using ShapeLookup_None [OF S i(2,4)] by blast
    then show ?thesis using None i len by (simp add: slotMap_def lookupIn_def map_of_zip_is_None)
  next
    case (Some j)
    then have j: "j < length (slots x)" "?ks ! j = units (estr e) k"
      using content i keyList_length [OF S i(2)] by auto
    show ?thesis
      using map_of_zip_nth [OF len i(4) j(1)] j(2) Some i by (simp add: slotMap_def lookupIn_def)
  qed
qed

lemma map_of_zip_update:
  assumes "distinct ks" "length ks = length xs" "j < length ks"
  shows "map_of (zip ks (xs[j := v])) = (map_of (zip ks xs))(ks ! j \<mapsto> v)"
proof
  fix k
  show "map_of (zip ks (xs[j := v])) k = ((map_of (zip ks xs))(ks ! j \<mapsto> v)) k"
  proof (cases "k \<in> set ks")
    case True
    then obtain m where m: "m < length ks" "k = ks ! m" by (auto simp: in_set_conv_nth)
    then show ?thesis
      using map_of_zip_nth [of ks "xs[j := v]" m] map_of_zip_nth [of ks xs m] assms
      by (auto simp: nth_list_update nth_eq_iff_index_eq)
  next
    case False
    then show ?thesis using assms by (auto simp: map_of_zip_is_None [THEN iffD2])
  qed
qed

lemma slotMap_slot:
  assumes x: "obj_ok (eshapes e) (estr e) x" and S: "shapes_ok (eshapes e)" and j: "lookupIn e x k = Some j"
  shows "slotMap (eshapes e) (estr e) (x\<lparr>slots := (slots x)[j := v]\<rparr>)
    = (slotMap (eshapes e) (estr e) x)(units (estr e) k \<mapsto> v)"
proof -
  obtain i where i: "oshape x = Some i" "i < length (eshapes e)" "length (slots x) = shCount (eshapes e ! i)"
    "distinct (map (units (estr e)) (keyList (eshapes e) i))"
    using x by (auto simp: obj_ok_def)
  have "j < shCount (eshapes e ! i)" "units (estr e) (keyList (eshapes e) i ! j) = units (estr e) k"
    using ShapeLookup_content [OF S i(2,4), of k j] j i(1) by (auto simp: lookupIn_def)
  then show ?thesis
    using map_of_zip_update [OF i(4), of "slots x" j v] i keyList_length [OF S i(2)] by (simp add: slotMap_def)
qed

lemma slotMap_append:
  assumes x: "obj_ok S strs x" and S: "shapes_ok S" and i: "oshape x = Some i"
    and new: "keyList S' n = keyList S i @ [k]" and fresh: "units strs k \<notin> set (map (units strs) (keyList S i))"
  shows "slotMap S' strs (x\<lparr>oshape := Some n, slots := slots x @ [v]\<rparr>) = (slotMap S strs x)(units strs k \<mapsto> v)"
proof -
  have "i < length S" "length (slots x) = shCount (S ! i)" using x i by (auto simp: obj_ok_def)
  then have len: "length (map (units strs) (keyList S i)) = length (slots x)" using keyList_length [OF S] by simp
  let ?m = "map_of (zip (map (units strs) (keyList S i)) (slots x))"
  have "?m (units strs k) = None" using fresh by (simp only: map_of_zip_is_None [OF len] not_False_eq_True)
  then have "[units strs k \<mapsto> v] ++ ?m = ?m(units strs k \<mapsto> v)" by (auto simp: map_add_def fun_eq_iff split: option.split)
  then show ?thesis using i new len by (simp add: slotMap_def)
qed

lemma propMap_extends:
  assumes x: "obj_ok (eshapes e) (estr e) x" and S: "eshapes e' = eshapes e" and ex: "extends (estr e) (estr e')"
  shows "propMap e' x = propMap e x"
proof -
  have same: "units (estr e') k = units (estr e) k" if "k < length (estr e)" for k
    using that ex by (auto simp: extends_def)
  obtain i where i: "oshape x = Some i" "set (keyList (eshapes e) i) \<subseteq> {..< length (estr e)}"
    "set (deleted x) \<subseteq> {..< length (estr e)}"
    using x by (auto simp: obj_ok_def)
  have "map (units (estr e')) (keyList (eshapes e) i) = map (units (estr e)) (keyList (eshapes e) i)"
    "units (estr e') ` set (deleted x) = units (estr e) ` set (deleted x)"
    using i same by (auto intro!: image_cong)
  then show ?thesis using i(1) S by (simp only: propMap_def slotMap_def option.case)
qed

section \<open>Local objects\<close>

lemma local_object:
  assumes "\<not> hIsRoot h"
  shows "Get hp h = getLocal hp h" "updGet h f hp = updObj (slotOf h) f hp" "prepare tr ln h e = Some (h, e)"
  using assms by (auto simp: Get_def getLocal_def updGet_def prepare_def prepareWrite_def)

lemma slotAt_other: "slotAt os gs b h = Some x \<Longrightarrow> slotOf h \<noteq> j \<Longrightarrow> slotAt (os[j := y]) gs b h = Some x"
  by (auto simp: slotOf_def slotAt_def Let_def split: if_splits)

lemma getLocal_other:
  assumes x: "getLocal hp h = Some x" and j: "slotOf h \<noteq> j"
  shows "getLocal (updObj j f hp) h = Some x"
proof -
  have h: "h \<noteq> NoHandle" using x by (auto simp: getLocal_def)
  let ?h = "if hIsRoot h then stripRoot h else h"
  have "slotAt (objs hp) (gens hp) (sealedRoot hp \<or> buildingRoot hp) ?h = Some x" "slotOf ?h \<noteq> j"
    using x h j by (auto simp: getLocal_def Let_def split: if_splits)
  from slotAt_other [OF this] show ?thesis
    using x h by (auto simp: getLocal_def updObj_def Let_def split: if_splits)
qed

lemma getLocal_realm [simp]: "getLocal (hp\<lparr>realmOf := r\<rparr>) h = getLocal hp h"
  by (simp add: getLocal_def Let_def)

lemma getLocal_updGet:
  assumes x: "getLocal hp h = Some x"
  shows "getLocal (updGet g f hp) h \<in> {Some x, Some (f x)}"
proof -
  have "getLocal (updObj j f hp) h \<in> {Some x, Some (f x)}" for j
    using getLocal_other [OF x, of j f] getLocal_updObj [OF x, of f] by (cases "slotOf h = j") auto
  then show ?thesis using x by (simp add: updGet_def split: option.split)
qed

lemma writeParam_local:
  assumes "getLocal hp h = Some x"
  obtains els where "getLocal (writeParam strs k v o' hp) h = Some (x\<lparr>elements := els\<rparr>)"
    "okind o' \<noteq> KindArguments \<Longrightarrow> els = elements x"
proof -
  have x: "x\<lparr>elements := elements x\<rparr> = x" by simp
  show ?thesis
  proof (cases "argumentsIndex (units strs k) o'")
    case None
    then show ?thesis using that [of "elements x"] assms x by (simp add: writeParam_def)
  next
    case (Some i)
    then have a: "okind o' = KindArguments" by (auto simp: argumentsIndex_def split: if_splits)
    let ?f = "\<lambda>x. x\<lparr>elements := (elements x)[i := v]\<rparr>"
    define R where "R r \<longleftrightarrow> (\<exists>els. r = Some (x\<lparr>elements := els\<rparr>))" for r
    have same: "R (Some x)" unfolding R_def by (rule exI [of _ "elements x"]) simp
    have new: "R (Some (?f x))" by (auto simp: R_def)
    have "getLocal (updGet (oenv o') ?f hp) h = Some x \<or> getLocal (updGet (oenv o') ?f hp) h = Some (?f x)"
      using getLocal_updGet [OF assms, of "oenv o'" ?f] by blast
    then have "R (getLocal (updGet (oenv o') ?f hp) h)" using same new by (elim disjE) (simp_all only:)
    then have "R (getLocal (writeParam strs k v o' hp) h)"
      using Some assms same by (simp add: writeParam_def split: option.split)
    then obtain els where "getLocal (writeParam strs k v o' hp) h = Some (x\<lparr>elements := els\<rparr>)"
      by (auto simp: R_def)
    then show ?thesis using that a by blast
  qed
qed

section \<open>Setting\<close>

lemma openKey_local:
  assumes ok: "stores_ok e0" "objects_ok e0" "icount (etab e0) < 2 ^ 29" "key < length (estr e0)"
    and x: "getLocal (eheap e0) obj = Some x" "\<not> hIsRoot obj" "\<not> isRoot x"
    and pays: "\<And>n q. bill n q \<noteq> None"
  obtains k e where "openKey tr ln bill obj key e0 = Some (Some (obj, k), e)" "stores_ok e" "objects_ok e"
    "eshapes e = eshapes e0" "extends (estr e0) (estr e)" "units (estr e) k = units (estr e0) key" "k < length (estr e)"
    "canon (byHash (etab e)) (estr e) (units (estr e0) key) = Some k"
    "getLocal (eheap e) obj = Some (maybeGrowArrayIndex (units (estr e) k) (undelete k x))"
proof -
  obtain k e1 where i: "internKey bill key e0 = Some (k, e1)" using internKey_total [where bill = bill, OF ok(1,3,4)] pays by blast
  have k: "keyed e0 key k e1" by (rule internKey_ok [OF ok(1,3,4) i])
  note d = keyedD [OF k]
  let ?f = "\<lambda>x. maybeGrowArrayIndex (units (estr e1) k) (undelete k x)"
  let ?e = "onHeap (updGet obj ?f) e1"
  have x1: "getLocal (eheap e1) obj = Some x" using x d by simp
  have o1: "objects_ok e1" by (rule keyed_objects [OF k ok(1,2)])
  have "objects_ok ?e"
    unfolding onHeap_simps local_object(2) [OF x(2)]
    by (rule updObj_ok [OF o1 x1])
      (intro maybeGrow_ok undelete_ok heap_okD(1) [OF o1], use getLocal_index [OF x1] in blast)
  moreover have "getLocal (eheap ?e) obj = Some (?f x)"
    unfolding onHeap_simps local_object(2) [OF x(2)] by (rule getLocal_updObj [OF x1])
  moreover have "openKey tr ln bill obj key e0 = Some (Some (obj, k), ?e)"
    using x i by (simp add: openKey_def local_object)
  ultimately show ?thesis using that [of k ?e] d ok(1) by simp
qed

lemma lookupIn_keyed:
  assumes x: "obj_ok (eshapes e0) (estr e0) x" and ok: "stores_ok e0" "stores_ok e"
    and e: "eshapes e = eshapes e0" "extends (estr e0) (estr e)" "units (estr e) k = units (estr e0) key" "key < length (estr e0)"
    and y: "oshape y = oshape x"
  shows "lookupIn e y k = lookupIn e0 x key"
proof -
  obtain i where i: "oshape x = Some i" "i < length (eshapes e0)"
    "distinct (map (units (estr e0)) (keyList (eshapes e0) i))" "set (keyList (eshapes e0) i) \<subseteq> {..< length (estr e0)}"
    using x by (auto simp: obj_ok_def)
  have S: "shapes_ok (eshapes e0)" using ok(1) by (simp add: stores_ok_def)
  have same: "map (units (estr e)) (keyList (eshapes e0) i) = map (units (estr e0)) (keyList (eshapes e0) i)"
    using i(4) e(2) by (auto simp: extends_def)
  then have d: "distinct (map (units (estr e)) (keyList (eshapes e0) i))" using i(3) by (simp only:)
  have nth: "units (estr e) (keyList (eshapes e0) i ! j) = units (estr e0) (keyList (eshapes e0) i ! j)"
    if "j < shCount (eshapes e0 ! i)" for j
    using arg_cong [OF same, of "\<lambda>xs. xs ! j"] that keyList_length [OF S i(2)] by simp
  have "ShapeLookup (estr e) (eshapes e0) i k = Some j \<longleftrightarrow> ShapeLookup (estr e0) (eshapes e0) i key = Some j" for j
    unfolding ShapeLookup_content [OF S i(2) d] ShapeLookup_content [OF S i(2,3)] using nth e(3) by auto
  then have "ShapeLookup (estr e) (eshapes e0) i k = ShapeLookup (estr e0) (eshapes e0) i key" by (metis option.exhaust)
  then show ?thesis using i(1) e(1) y by (simp add: lookupIn_def)
qed

lemma slotMap_cong: "oshape y = oshape x \<Longrightarrow> slots y = slots x \<Longrightarrow> slotMap S strs y = slotMap S strs x"
  by (simp add: slotMap_def split: option.split)

lemma restrict_update: "(m(k \<mapsto> v)) |` (- (D - {k})) = (m |` (- D))(k \<mapsto> v)"
  by (auto simp: restrict_map_def fun_eq_iff)

lemma maybeGrow_fields [simp]:
  "oshape (maybeGrowArrayIndex k x) = oshape x" "slots (maybeGrowArrayIndex k x) = slots x"
  "attrs (maybeGrowArrayIndex k x) = attrs x" "deleted (maybeGrowArrayIndex k x) = deleted x"
  "okind (maybeGrowArrayIndex k x) = okind x" "isRoot (maybeGrowArrayIndex k x) = isRoot x"
  by (auto simp: maybeGrowArrayIndex_def split: option.split)

lemma undelete_fields [simp]:
  "oshape (undelete k x) = oshape x" "slots (undelete k x) = slots x" "attrs (undelete k x) = attrs x"
  "okind (undelete k x) = okind x" "deleted (undelete k x) = filter (\<lambda>d. d \<noteq> k) (deleted x)"
  by (simp_all add: undelete_def)

lemma TrackAlloc_pays:
  assumes "\<And>n q. snd (tr n q)"
  obtains q where "TrackAlloc tr n hp = Some (hp\<lparr>quota := q\<rparr>)"
proof (cases "n > 0")
  case True
  then show ?thesis
    using assms [of n "quota hp"] that [of "fst (tr n (quota hp))"] by (simp add: TrackAlloc_def split_beta)
next
  case False
  then show ?thesis using that [of "quota hp"] by (simp add: TrackAlloc_def)
qed

lemma addSlot_map:
  assumes ok: "stores_ok e" and x: "obj_ok (eshapes e) (estr e) x" "getLocal (eheap e) obj = Some x" "\<not> hIsRoot obj"
    and fresh: "lookupIn e x k = None" and pays: "\<And>n q. snd (tr n q)"
  obtains e' x' where "addSlot tr obj k v x e = Some e'" "getLocal (eheap e') obj = Some x'"
    "slotMap (eshapes e') (estr e') x' = (slotMap (eshapes e) (estr e) x)(units (estr e) k \<mapsto> v)"
    "estr e' = estr e" "okind x' = okind x" "deleted x' = deleted x"
proof -
  obtain i where i: "oshape x = Some i" "i < length (eshapes e)" "distinct (map (units (estr e)) (keyList (eshapes e) i))"
    using x by (auto simp: obj_ok_def)
  have S: "shapes_ok (eshapes e)" using ok by (simp add: stores_ok_def)
  obtain S' n where t: "transition (eshapes e) i (Some k) = (S', n)" by fastforce
  have n: "keyList S' n = keyList (eshapes e) i @ [k]" using transition_ok [OF S i(2) t] by blast
  have "units (estr e) k \<notin> set (map (units (estr e)) (keyList (eshapes e) i))"
    using fresh i(1) ShapeLookup_None [OF S i(2,3)] by (simp add: lookupIn_def)
  note map = slotMap_append [OF x(1) S i(1) n this]
  obtain q where q: "TrackAlloc tr 104 (eheap e) = Some ((eheap e)\<lparr>quota := q\<rparr>)" using TrackAlloc_pays [where tr = tr, OF pays] by blast
  let ?f = "\<lambda>x. x\<lparr>oshape := Some n, slots := slots x @ [v]\<rparr>"
  let ?e = "e\<lparr>eshapes := S', eheap := updGet obj ?f ((eheap e)\<lparr>quota := q\<rparr>)\<rparr>"
  have "getLocal (eheap ?e) obj = Some (?f x)"
    using x(2) getLocal_updObj [of "(eheap e)\<lparr>quota := q\<rparr>" obj x ?f] by (simp add: local_object [OF x(3)])
  moreover have "addSlot tr obj k v x e = Some ?e" using q i t by (simp add: addSlot_def)
  ultimately show ?thesis using that map by simp
qed

lemma addSlot_etab: "addSlot tr obj k v x e = Some e' \<Longrightarrow> etab e' = etab e"
  by (auto simp: addSlot_def split: prod.splits option.splits bind_splits)

lemma set_restrict:
  assumes "D' = (if hidden then D else D - {u})" "hidden \<Longrightarrow> u \<in> D"
  shows "(m(u \<mapsto> w)) |` (- D') = (if hidden then m |` (- D) else (m |` (- D))(u \<mapsto> w))"
  using assms by (auto simp: restrict_map_def fun_eq_iff)

text \<open>
  What a later read of the key sees: \<open>v\<close>, or the value of a slot that is not writable, or nothing
  when the object has the key in its list of deleted keys by another pointer than \<open>k\<close>.
\<close>

definition setMap :: "'q eng \<Rightarrow> object \<Rightarrow> saddr \<Rightarrow> val \<Rightarrow> saddr \<Rightarrow> u16 list \<Rightarrow> val option" where
  "setMap e x key v k =
     (if \<exists>d \<in> set (deleted x). d \<noteq> k \<and> units (estr e) d = units (estr e) key then propMap e x
      else (propMap e x)(units (estr e) key \<mapsto>
        (case lookupIn e x key of
           Some j \<Rightarrow> if slotAttr x j AND attrWritable = 0 then slots x ! j else v
         | None \<Rightarrow> v)))"

lemma SetProperty_map:
  assumes "stores_ok e" "objects_ok e" "icount (etab e) < 2 ^ 29" "key < length (estr e)"
    and "getLocal (eheap e) obj = Some x" "\<not> hIsRoot obj" "\<not> isRoot x"
    and pays: "\<And>n q. bill n q \<noteq> None" "\<And>n q. snd (tr n q)"
  shows "\<exists>e' x' k. SetProperty tr ln bill obj key v e = Some e' \<and> getLocal (eheap e') obj = Some x'
    \<and> canon (byHash (etab e')) (estr e') (units (estr e) key) = Some k
    \<and> propMap e' x' = setMap e x key v k \<and> okind x' = okind x"
proof -
  obtain k e1 where 1: "openKey tr ln bill obj key e = Some (Some (obj, k), e1)" "stores_ok e1" "objects_ok e1"
    "eshapes e1 = eshapes e" "extends (estr e) (estr e1)" "units (estr e1) k = units (estr e) key" "k < length (estr e1)"
    "canon (byHash (etab e1)) (estr e1) (units (estr e) key) = Some k"
    "getLocal (eheap e1) obj = Some (maybeGrowArrayIndex (units (estr e1) k) (undelete k x))"
    using openKey_local [where bill = bill and tr = tr and ln = ln, OF assms(1-7) pays(1)] by blast
  let ?y0 = "maybeGrowArrayIndex (units (estr e1) k) (undelete k x)"
  let ?e2 = "onHeap (writeParam (estr e1) k v ?y0) e1"
  obtain els where y: "getLocal (eheap ?e2) obj = Some (?y0\<lparr>elements := els\<rparr>)"
    using writeParam_local [OF 1(9)] unfolding onHeap_simps by blast
  let ?y = "?y0\<lparr>elements := els\<rparr>"
  have x: "obj_ok (eshapes e) (estr e) x" using getLocal_index [OF assms(5)] heap_okD(1) [OF assms(2)] by blast
  then have x1: "obj_ok (eshapes ?e2) (estr ?e2) x" using obj_ok_extends 1(4,5) by simp
  have y1: "obj_ok (eshapes ?e2) (estr ?e2) ?y" by (rule obj_ok_cong [OF x1]) auto
  have S: "shapes_ok (eshapes ?e2)" and ok2: "stores_ok ?e2" using 1(2) by (simp_all add: stores_ok_def)
  have lk: "lookupIn ?e2 ?y k = lookupIn e x key"
    by (rule lookupIn_keyed [OF x assms(1)]) (use 1 assms(4) in simp_all)
  have sm: "slotMap (eshapes ?e2) (estr ?e2) ?y = slotMap (eshapes ?e2) (estr ?e2) x" by (rule slotMap_cong) simp_all
  let ?hidden = "\<exists>d \<in> set (deleted x). d \<noteq> k \<and> units (estr e) d = units (estr e) key"
  have del: "units (estr e1) d = units (estr e) d" if "d \<in> set (deleted x)" for d
    using x that 1(5) by (auto simp: obj_ok_def extends_def)
  have D: "units (estr e1) ` set (deleted ?y)
      = (if ?hidden then units (estr e1) ` set (deleted x) else units (estr e1) ` set (deleted x) - {units (estr e1) k})"
    using del 1(6) by (auto simp: image_iff) metis+
  have hid: "?hidden \<Longrightarrow> units (estr e1) k \<in> units (estr e1) ` set (deleted x)" using del 1(6) by (metis image_eqI)
  have px: "propMap ?e2 x = propMap e x" by (rule propMap_extends [OF x]) (use 1 in simp_all)
  have key: "units (estr ?e2) k = units (estr e) key" using 1(6) by simp
  have fin: "propMap e' x' = (if ?hidden then propMap e x else (propMap e x)(units (estr e) key \<mapsto> w))"
    if "slotMap (eshapes e') (estr e') x' = (slotMap (eshapes ?e2) (estr ?e2) x)(units (estr ?e2) k \<mapsto> w)"
      "estr e' = estr e1" "deleted x' = deleted ?y" for e' and x' and w
    using set_restrict [OF D hid, of "slotMap (eshapes ?e2) (estr ?e2) x" w] that
    unfolding px [symmetric] key [symmetric] by (simp only: propMap_def onHeap_simps)
  show ?thesis
  proof (cases "lookupIn e x key")
    case None
    obtain e' x' where e': "addSlot tr obj k v ?y ?e2 = Some e'" "getLocal (eheap e') obj = Some x'"
        "slotMap (eshapes e') (estr e') x' = (slotMap (eshapes ?e2) (estr ?e2) ?y)(units (estr ?e2) k \<mapsto> v)"
        "estr e' = estr ?e2" "okind x' = okind ?y" "deleted x' = deleted ?y"
      using addSlot_map [where tr = tr, OF ok2 y1 y assms(6) _ pays(2)] lk None by metis
    have "SetProperty tr ln bill obj key v e = Some e'"
      using 1(1,9) y e'(1) lk None by (simp add: SetProperty_def local_object [OF assms(6)] Let_def)
    moreover have "propMap e' x' = setMap e x key v k"
      unfolding setMap_def None option.case by (rule fin) (use e' sm in \<open>simp_all only: onHeap_simps\<close>)
    moreover have "etab e' = etab e1" using addSlot_etab [OF e'(1)] by simp
    ultimately show ?thesis using e' 1(8) by (intro exI [of _ e'] exI [of _ x'] exI [of _ k]) simp
  next
    case (Some j)
    have j: "j < length (slots ?y)" using slotMap_lookup(2) [OF y1 S] lk Some by auto
    have at: "slotAttr ?y j = slotAttr x j" by (auto simp: slotAttr_def)
    show ?thesis
    proof (cases "slotAttr x j AND attrWritable = 0")
      case True
      have run: "SetProperty tr ln bill obj key v e = Some ?e2"
        using 1(1,9) y j lk Some True at by (simp add: SetProperty_def local_object [OF assms(6)] Let_def)
      have "slotMap (eshapes ?e2) (estr ?e2) x (units (estr ?e2) k) = Some (slots x ! j)"
        using slotMap_lookup(1) [OF x1 S, of k] lookupIn_keyed [OF x assms(1) ok2, of k key x] 1(4,5,6) assms(4) Some by simp
      then have "slotMap (eshapes ?e2) (estr ?e2) ?y = (slotMap (eshapes ?e2) (estr ?e2) x)(units (estr ?e2) k \<mapsto> slots x ! j)"
        using sm by (simp only: fun_upd_idem)
      then have "propMap ?e2 ?y = setMap e x key v k"
        unfolding setMap_def Some option.case if_P [OF True] by (intro fin) simp_all
      then show ?thesis
        using run y 1(8) by (intro exI [of _ ?e2] exI [of _ ?y] exI [of _ k]) simp
    next
      case False
      let ?f = "\<lambda>x. x\<lparr>slots := (slots x)[j := v]\<rparr>"
      let ?e' = "onHeap (updGet obj ?f) ?e2"
      have "SetProperty tr ln bill obj key v e = Some ?e'"
        using 1(1,9) y j lk Some False at by (simp add: SetProperty_def local_object [OF assms(6)] Let_def)
      moreover have "getLocal (eheap ?e') obj = Some (?f ?y)"
        using getLocal_updObj [OF y] by (simp add: local_object [OF assms(6)])
      moreover have sl: "slotMap (eshapes ?e2) (estr ?e2) (?f ?y) = (slotMap (eshapes ?e2) (estr ?e2) ?y)(units (estr ?e2) k \<mapsto> v)"
        by (rule slotMap_slot [OF y1 S]) (simp only: lk Some)
      ultimately have "propMap ?e' (?f ?y) = setMap e x key v k"
        unfolding setMap_def Some option.case if_not_P [OF False] by (intro fin) (use sm in simp_all)
      with \<open>SetProperty tr ln bill obj key v e = Some ?e'\<close> \<open>getLocal (eheap ?e') obj = Some (?f ?y)\<close>
      show ?thesis using 1(8) by (intro exI [of _ ?e'] exI [of _ "?f ?y"] exI [of _ k]) simp
    qed
  qed
qed


section \<open>Reading and deleting\<close>


















lemma clearElement_kind [simp]: "okind (clearElement k x) = okind x"
  by (auto simp: clearElement_def split: option.split)

lemma clearSlots_kind [simp]: "okind (clearSlots e k x) = okind x"
  by (auto simp: clearSlots_def split: option.split)



section \<open>A concrete engine\<close>

definition demoObj :: object where
  "demoObj = zeroObject\<lparr>oshape := Some 0\<rparr>"

definition demoEng :: "nat eng" where
  "demoEng = \<lparr>eheap = (NewHeap 0)\<lparr>objs := [None, Some demoObj], gens := [0, 0]\<rparr>, eshapes = [emptyShape],
     etab = NewTable, estr = demoStore, eglob = None\<rparr>"

lemma demo_stores: "stores_ok demoEng" "icount (etab demoEng) < 2 ^ 29" "key < 3 \<Longrightarrow> key < length (estr demoEng)"
  using demoStore_ok
  by (auto simp: stores_ok_def demoEng_def NewTable_def table_ok_def occupied_def paths_ok_def shapes_ok_def
      shape_ok_def emptyShape_def demoStore_nth)

lemma demo_keys: "keyList [emptyShape] 0 = []"
  by (simp add: keyList_def chainOf_def emptyShape_def)

lemma demo_objects: "objects_ok demoEng" "roomy (eheap demoEng)"
proof -
  have "obj_ok [emptyShape] demoStore demoObj"
    by (simp add: obj_ok_def demoObj_def zeroObject_def demo_keys) (simp add: emptyShape_def)
  then show "objects_ok demoEng"
    by (simp add: heap_ok_def demoEng_def NewHeap_def) (simp add: emptyShape_def)
  show "roomy (eheap demoEng)"
    by (simp add: demoEng_def NewHeap_def roomy_def heap_inv_def gens_ok_def maxLocalGen_def less_Suc_eq nth_Cons')
qed

lemma demo_handle: "getLocal (eheap demoEng) (makeHandle 1 0) = Some demoObj" "\<not> hIsRoot (makeHandle 1 0)"
  "Get (eheap demoEng) (makeHandle 1 0) = Some demoObj"
  unfolding demoEng_def by code_simp+

lemma demo_obj: "\<not> isRoot demoObj" "\<not> frozen demoObj" "deleted demoObj = []" "okind demoObj = KindOrdinary"
  "lookupIn demoEng demoObj k = None"
  by (auto simp: demoObj_def zeroObject_def lookupIn_def ShapeLookup_def demoEng_def chainOf_def emptyShape_def)
















theorem property_ops_keep_objects_witness:
  "stores_ok demoEng \<and> (\<exists>e'. propStep (\<lambda>n q. (q, True)) (\<lambda>_. 0) (\<lambda>n x. Some (x + n)) demoEng e' \<and> stores_ok e' \<and> objects_ok e')"
proof -
  obtain e' where "SetProperty (\<lambda>n q. (q, True)) (\<lambda>_. 0) (\<lambda>n x. Some (x + n)) (makeHandle 1 0) 1 VTrue demoEng = Some e'"
    using SetProperty_map [OF demo_stores(1) demo_objects(1) demo_stores(2,3) demo_handle(1,2) demo_obj(1),
      where v = VTrue and key = 1 and bill = "\<lambda>n x. Some (x + n)" and tr = "\<lambda>n q. (q, True)" and ln = "\<lambda>_. 0"]
    by (auto simp: demo_obj)
  then have s: "propStep (\<lambda>n q. (q, True)) (\<lambda>_. 0) (\<lambda>n x. Some (x + n)) demoEng e'"
    by (intro propStep.set demo_stores(3)) simp_all
  from property_ops_keep_objects [OF s demo_stores(1) demo_objects demo_stores(2)] show ?thesis
    using s demo_stores(1) by blast
qed

end
