(* ===== verification/PromiseProps.thy ===== *)
theory PromiseProps
  imports Promises ObjGet
begin

text \<open>
  What promises and microtasks promise: a promise settles once and for all, whatever is
  allocated and collected meanwhile, unless the constructor is called on it
  (\<open>promise_settles_once\<close>, \<open>constructor_resets\<close>); and draining the queue in batches is draining one
  queue in first-in first-out order, for callbacks that only append to it (\<open>microtasks_fifo\<close>).
\<close>

section \<open>Order of jobs\<close>


definition queueFirst :: "job list \<Rightarrow> 'q pvm \<Rightarrow> 'q pvm" where
  "queueFirst js v = v\<lparr>jobs := js @ jobs v\<rparr>"



definition succeeds :: "('e, 'q) runner \<Rightarrow> bool" where
  "succeeds run \<longleftrightarrow> (\<forall>j v e v1. run j v \<noteq> Some (Some e, v1))"

lemma succeedsD [simp]: "succeeds run \<Longrightarrow> run j v \<noteq> Some (Some e, v1)"
  by (simp add: succeeds_def)








text \<open>Settling a promise and running a reaction only append.\<close>

lemma queueFirst_heap [simp]:
  "pheap (queueFirst q v) = pheap v" "withHeap hp (queueFirst q v) = queueFirst q (withHeap hp v)"
  "peng (queueFirst q v) = peng v"
  by (simp_all add: queueFirst_def withHeap_def pheap_def)

lemma enqueue_first [simp]: "enqueueReaction cb x c r (queueFirst q v) = queueFirst q (enqueueReaction cb x c r v)"
  by (simp add: enqueueReaction_def EnqueueMicrotask_def queueFirst_def)

lemma fold_first: "(\<And>r w. f r (queueFirst q w) = queueFirst q (f r w)) \<Longrightarrow> fold f rs (queueFirst q w) = queueFirst q (fold f rs w)"
  by (induction rs arbitrary: w) simp_all

lemma settle_first [simp]: "settlePromise h st x (queueFirst q v) = queueFirst q (settlePromise h st x v)"
  by (auto simp: settlePromise_def fold_first split: option.split)




section \<open>Settling once\<close>

lemma fold_reactions_heap: "pheap (fold (\<lambda>r. if st = PromiseFulfilled then enqueueReaction (onFulfilled r) x (reactionChild r) False
      else enqueueReaction (onRejected r) x (reactionChild r) True) rs v) = pheap (v :: 'a pvm)"
proof -
  have e: "pheap (enqueueReaction cb x c b w) = pheap w" for cb x c b and w :: "'a pvm"
    by (simp add: enqueueReaction_def EnqueueMicrotask_def)
  have "(\<And>r w. pheap (f r w) = pheap w) \<Longrightarrow> pheap (fold f rs v) = pheap v" for f and v :: "'a pvm"
    by (induction rs arbitrary: v) simp_all
  then show ?thesis by (simp add: e)
qed

lemma settlePromise_heap:
  "pheap (settlePromise ph st x v) =
     (case Get (pheap v) ph of None \<Rightarrow> pheap v
      | Some o' \<Rightarrow> (case opromise o' of None \<Rightarrow> pheap v
         | Some pd \<Rightarrow> if promiseSettled pd then pheap v
             else updGet ph (\<lambda>y. y\<lparr>opromise := Some (pd\<lparr>promiseSettled := True, promiseSt := st, promiseResult := x,
                                                  promiseReactions := []\<rparr>)\<rparr>) (pheap v)))"
  by (auto simp: settlePromise_def fold_reactions_heap split: option.split)

text \<open>
  What happens to an interpreter: promises settle, \<open>then\<close> is called, the constructor is called on
  some object, jobs come and go, and the heap is used by everything else, which leaves the promise
  data of objects alone.  A step of the constructor is labelled with the object it writes to: its
  receiver, or the local copy of a receiver in the root realm.
\<close>

definition target :: "'q heap \<Rightarrow> handle \<Rightarrow> handle" where
  "target hp g = (if hIsRoot g then (case map_of (cowMap hp) (stripRoot g) of Some l \<Rightarrow> l | None \<Rightarrow> g) else g)"

definition uncopied :: "'q heap \<Rightarrow> handle \<Rightarrow> bool" where
  "uncopied hp g \<longleftrightarrow> hIsRoot g \<and> map_of (cowMap hp) (stripRoot g) = None"

inductive pstep :: "'q tracker \<Rightarrow> (nat \<Rightarrow> nat) \<Rightarrow> handle \<Rightarrow> handle option \<Rightarrow> 'q pvm \<Rightarrow> 'q pvm \<Rightarrow> bool"
  for tr ln pp where
  settle: "pstep tr ln pp None v (settlePromise h st x v)"
| construct: "target (pheap v) g = t \<Longrightarrow> issued_ok (pheap v) t \<or> uncopied (pheap v) g \<Longrightarrow>
    pstep tr ln pp (Some t) v (withHeap (initPromise pp g (pheap v)) v)"
| reacts: "issued_ok (pheap v) (valHandle this) \<Longrightarrow> promiseThen tr ln pp this args v = Some (r, v') \<Longrightarrow>
    length (gens (pheap v')) < 2 ^ 32 \<Longrightarrow> pstep tr ln pp None v v'"
| queue: "pstep tr ln pp None v (v\<lparr>jobs := js\<rparr>)"
| alloc: "alloc tr ln o' (pheap v) = Some (h, hp) \<Longrightarrow> length (gens hp) < 2 ^ 32 \<Longrightarrow> pstep tr ln pp None v (withHeap hp v)"
| collect: "pstep tr ln pp None v (withHeap (CollectHeap tr ln (pheap v)) v)"
| writes: "(\<And>y. opromise (f y) = opromise y) \<Longrightarrow> pstep tr ln pp None v (withHeap (updGet h f (pheap v)) v)"
| frame: "sameSlots (pheap v) hp \<Longrightarrow> pstep tr ln pp None v (withHeap hp v)"

text \<open>A step that is not the constructor on \<open>h\<close>.\<close>

definition keepsCalm :: "'q tracker \<Rightarrow> (nat \<Rightarrow> nat) \<Rightarrow> handle \<Rightarrow> handle \<Rightarrow> 'q pvm \<Rightarrow> 'q pvm \<Rightarrow> bool" where
  "keepsCalm tr ln pp h v v' \<longleftrightarrow> (\<exists>l. pstep tr ln pp l v v' \<and> l \<noteq> Some h)"

text \<open>An issued handle resolves to what its slot holds, while the generations agree.\<close>

lemma issued_resolves:
  assumes inv: "heap_inv hp" and iss: "issued_ok hp h"
  shows "getLocal hp h = Some x \<longleftrightarrow> hGen h = gens hp ! slotOf h \<and> slotOf h < length (objs hp) \<and> objs hp ! slotOf h = Some x"
    and "\<not> hIsRoot h" "makeHandle (word_of_nat (slotOf h)) (hGen h) = h" "0 < slotOf h"
proof -
  obtain i g where k: "h = makeHandle (word_of_nat i) g" "0 < i" "i < length (gens hp)" "g < maxLocalGen"
    using iss by (auto simp: issued_ok_def)
  have i: "i < 2 ^ 32" using k(3) inv by (simp add: heap_inv_def)
  note l = HeapSafety.local_handle [OF k(4) i k(2)]
  have s: "slotOf h = i" "hGen h = g" using i k(1) by (simp_all add: slotOf_def unat_of_nat)
  show "\<not> hIsRoot h" using l k(1) by simp
  show "makeHandle (word_of_nat (slotOf h)) (hGen h) = h" "0 < slotOf h" using s k by simp_all
  show "getLocal hp h = Some x \<longleftrightarrow> hGen h = gens hp ! slotOf h \<and> slotOf h < length (objs hp) \<and> objs hp ! slotOf h = Some x"
    using l k s inv i by (auto simp: getLocal_def slotAt_def heap_inv_def gens_ok_def unat_of_nat Let_def)
qed

text \<open>The object behind a handle after a step is the one that was there, up to marks.\<close>

definition traces :: "'q heap \<Rightarrow> 'q heap \<Rightarrow> handle \<Rightarrow> bool" where
  "traces hp hp' h \<longleftrightarrow> (\<forall>y. getLocal hp' h = Some y \<longrightarrow> (\<exists>x. getLocal hp h = Some x \<and> sameObj x y))"

lemma traces_trans: "traces h0 h1 h \<Longrightarrow> traces h1 h2 h \<Longrightarrow> traces h0 h2 h"
  unfolding traces_def by (metis sameObj_trans)

lemma traces_frame: "sameSlots hp hp' \<Longrightarrow> traces hp hp' h"
  using getLocal_fields [of hp hp' h] by (auto simp: traces_def sameSlots_def sameObj_refl)

lemma traces_Collect:
  assumes inv: "heap_inv hp" and iss: "issued_ok hp h"
  shows "traces hp (CollectHeap tr ln hp) h"
  unfolding traces_def
proof (intro allI impI)
  fix y assume y: "getLocal (CollectHeap tr ln hp) h = Some y"
  have g: "gens_ok hp" "\<not> sealedRoot hp" using inv by (auto simp: heap_inv_def)
  obtain h3 where h3: "similar (hp\<lparr>Collections := Collections hp + 1\<rparr>) h3"
    "sweptTo [1 ..< length (objs hp)] h3 (CollectHeap tr ln hp)"
    using Collect_swept [OF g(2,1)] by metis
  note inv' = Collect_inv [OF inv, of tr ln]
  have iss': "issued_ok (CollectHeap tr ln hp) h" using advances_issued [OF inv'(2) iss] .
  have s: "hGen h = gens (CollectHeap tr ln hp) ! slotOf h" "slotOf h < length (objs (CollectHeap tr ln hp))"
    "objs (CollectHeap tr ln hp) ! slotOf h = Some y"
    using y issued_resolves(1) [OF inv'(1) iss'] by auto
  have f: "length (objs h3) = length (objs hp)" "gens h3 = gens hp" using similar_fields [OF h3(1)] by simp_all
  have k: "slotOf h < length (objs hp)" "slotOf h < length (gens hp)"
    using s(2) h3(2) f g(1) by (auto simp: sweptTo_def gens_ok_def)
  have o: "objs h3 ! slotOf h = Some y" "gens (CollectHeap tr ln hp) ! slotOf h = gens hp ! slotOf h"
    using h3(2) s(3) k f by (auto simp: sweptTo_def split: if_splits)
  then obtain x where "objs hp ! slotOf h = Some x" "sameObj x y"
    using similar_fields(7) [OF h3(1), of "slotOf h"] k(1) by (cases "objs hp ! slotOf h") auto
  then show "\<exists>x. getLocal hp h = Some x \<and> sameObj x y" using issued_resolves(1) [OF inv iss] s(1) o(2) k by auto
qed

lemma traces_beforeAlloc:
  assumes inv: "heap_inv hp" and iss: "issued_ok hp h"
  shows "traces hp (beforeAlloc tr ln hp) h"
proof -
  have f: "sameSlots hp (hp\<lparr>allocs := n\<rparr>)" "sameSlots g (g\<lparr>allocs := n\<rparr>)" "sameSlots g (g\<lparr>allocs := n, threshold := m\<rparr>)"
    for n m and g :: "'a heap" by (simp_all add: sameSlots_def)
  have "traces hp (CollectHeap tr ln (hp\<lparr>allocs := n\<rparr>)) h" for n
  proof (rule traces_trans [OF traces_frame [OF f(1)]])
    note i = sameSlots_inv [OF f(1) inv, of n]
    show "traces (hp\<lparr>allocs := n\<rparr>) (CollectHeap tr ln (hp\<lparr>allocs := n\<rparr>)) h"
      by (rule traces_Collect [OF i(1) advances_issued [OF i(2) iss]])
  qed
  then have "traces hp ((CollectHeap tr ln (hp\<lparr>allocs := n\<rparr>))\<lparr>allocs := 0\<rparr>) h"
    "traces hp ((CollectHeap tr ln (hp\<lparr>allocs := n\<rparr>))\<lparr>allocs := 0, threshold := m\<rparr>) h" for n m
    using traces_trans traces_frame f(2,3) by blast+
  then show ?thesis
    using traces_Collect [OF inv iss, of tr ln] traces_frame [OF f(1)] by (simp add: beforeAlloc_def Let_def)
qed

lemma resolve_unique:
  assumes "heap_inv hp" "issued_ok hp h" "issued_ok hp g" "getLocal hp h = Some x" "getLocal hp g = Some y" "slotOf h = slotOf g"
  shows "h = g"
proof -
  have "hGen h = hGen g"
    using issued_resolves(1) [OF assms(1,2), of x] issued_resolves(1) [OF assms(1,3), of y] assms(4-6) by simp
  then show ?thesis using issued_resolves(3) [OF assms(1,2)] issued_resolves(3) [OF assms(1,3)] assms(6) by metis
qed

lemma install_other:
  assumes inv: "heap_inv hp" and ins: "install o' hp = (g, hp')" and small: "length (gens hp') < 2 ^ 32"
    and k: "k \<noteq> slotOf g" "k < length (objs hp')" "objs hp' ! k = Some y"
  shows "k < length (objs hp) \<and> objs hp ! k = Some y \<and> gens hp' ! k = gens hp ! k"
proof -
  obtain r rest where p: "popFree (gens hp) (freeSlots hp) = (r, rest)" by fastforce
  have len: "length (objs hp) \<le> length (gens hp)" using inv by (simp add: heap_inv_def gens_ok_def)
  show ?thesis
  proof (cases r)
    case (Some i)
    have "i \<in> set (freeSlots hp)" using popFree_spec(1) [OF p] Some by auto
    then have "i < length (gens hp)" using inv len by (auto simp: heap_inv_def)
    then have "slotOf g = i" "hp' = hp\<lparr>freeSlots := rest, objs := (objs hp)[i := Some o']\<rparr>"
      using ins p Some inv by (auto simp: install_def slotOf_def unat_of_nat heap_inv_def)
    then show ?thesis using k by simp
  next
    case None
    let ?os = "padRetired (objs hp) (gens hp)"
    note pad = padRetired_spec [where os = "objs hp" and gs = "gens hp"]
    have h': "objs hp' = ?os @ [Some o']" "length ?os < length (gens hp')"
      "\<exists>gg. g = makeHandle (word_of_nat (length ?os)) gg \<and>
        gens hp' = (if length ?os < length (gens hp) then (gens hp)[length ?os := gg] else gens hp @ [gg])"
      using ins p None pad(1) len by (auto simp: install_def Let_def)
    then have "slotOf g = length ?os" using small by (auto simp: slotOf_def unat_of_nat)
    then have "k < length ?os" "?os ! k = Some y" using k h'(1) by (auto simp: nth_append split: if_splits)
    then have "k < length (objs hp)" "objs hp ! k = Some y" using pad(3,4) [of k] by (cases "k < length (objs hp)"; simp)+
    then show ?thesis using h'(3) len \<open>k < length ?os\<close> pad(1) by (auto simp: nth_append)
  qed
qed

lemma traces_alloc:
  assumes inv: "heap_inv hp" and iss: "issued_ok hp h" and al: "alloc tr ln o' hp = Some (g, hp')"
    and small: "length (gens hp') < 2 ^ 32"
  shows "traces hp hp' h" "h \<noteq> g"
proof -
  obtain h1 where t: "TrackAlloc tr 96 hp = Some h1" and ins: "install o' (beforeAlloc tr ln h1) = (g, hp')"
    using al by (auto simp: alloc_def split: Option.bind_splits)
  let ?h2 = "beforeAlloc tr ln h1"
  note st = alloc_step [OF inv al small]
  show ne: "h \<noteq> g" using st iss by auto
  have s1: "sameSlots hp h1" using t by (auto simp: TrackAlloc_def sameSlots_def split: prod.splits if_splits)
  note 1 = sameSlots_inv [OF s1 inv]
  have iss1: "issued_ok h1 h" by (rule advances_issued [OF 1(2) iss])
  note 2 = beforeAlloc_inv [OF 1(1), of tr ln]
  have iss2: "issued_ok ?h2 h" by (rule advances_issued [OF 2(2) iss1])
  have iss3: "issued_ok hp' h" using st advances_issued iss by blast
  have "traces ?h2 hp' h"
    unfolding traces_def
  proof (intro allI impI)
    fix y assume y: "getLocal hp' h = Some y"
    have s: "hGen h = gens hp' ! slotOf h" "slotOf h < length (objs hp')" "objs hp' ! slotOf h = Some y"
      using y issued_resolves(1) [OF _ iss3, of y] st by auto
    have "slotOf h \<noteq> slotOf g" using resolve_unique [OF _ iss3 _ y] st ne by blast
    from install_other [OF 2(1) ins small this s(2,3)]
    show "\<exists>x. getLocal ?h2 h = Some x \<and> sameObj x y"
      using issued_resolves(1) [OF 2(1) iss2, of y] s(1) sameObj_refl by auto
  qed
  then show "traces hp hp' h"
    using traces_trans [OF traces_trans [OF traces_frame [OF s1] traces_beforeAlloc [OF 1(1) iss1]]] by blast
qed

lemma updObj_traces:
  assumes inv: "heap_inv hp" and iss: "issued_ok hp h" and y: "getLocal (updObj j f hp) h = Some y"
  shows "\<exists>x. getLocal hp h = Some x \<and> (if slotOf h = j then y = f x else y = x)"
proof -
  note u = updObj_inv [OF inv, of j f]
  have "hGen h = gens hp ! slotOf h" "slotOf h < length (objs hp)" "(objs hp)[j := map_option f (objs hp ! j)] ! slotOf h = Some y"
    using y issued_resolves(1) [OF u(1) advances_issued [OF u(2) iss], of y] by (auto simp: updObj_def)
  then show ?thesis
    using issued_resolves(1) [OF inv iss] by (cases "slotOf h = j") (auto split: if_splits)
qed

lemma updGet_advances:
  assumes "heap_inv hp"
  shows "advances hp (updGet g f hp)"
  using updObj_inv(2) [OF assms] by (auto simp: updGet_def advances_refl split: option.split)

lemma settle_inv:
  assumes "heap_inv (pheap v)"
  shows "heap_inv (pheap (settlePromise h st x v))" "issued_ok (pheap v) g \<Longrightarrow> issued_ok (pheap (settlePromise h st x v)) g"
  using assms updGet_inv [OF assms] advances_issued [OF updGet_advances [OF assms]] unfolding settlePromise_heap
  by (auto split: option.split)

lemma updGet_traces:
  assumes inv: "heap_inv hp" and iss: "issued_ok hp h" and y: "getLocal (updGet g f hp) h = Some y"
  shows "\<exists>x. getLocal hp h = Some x \<and> (y = x \<or> y = f x)"
    and "Get hp g = Some o' \<Longrightarrow> \<exists>x. getLocal hp h = Some x \<and> (y = x \<or> (x = o' \<and> y = f x))"
proof -
  have nb: "\<not> sealedRoot hp" "\<not> buildingRoot hp" using inv by (auto simp: heap_inv_def)
  have obj: "(\<exists>x. getLocal hp h = Some x \<and> (y = x \<or> y = f x)) \<and>
      (getLocal hp l = Some o' \<longrightarrow> (\<exists>x. getLocal hp h = Some x \<and> (y = x \<or> (x = o' \<and> y = f x))))"
    if "getLocal (updObj (slotOf l) f hp) h = Some y" for l
  proof -
    obtain x where x: "getLocal hp h = Some x" "if slotOf h = slotOf l then y = f x else y = x"
      using updObj_traces [OF inv iss \<open>getLocal (updObj (slotOf l) f hp) h = Some y\<close>] by blast
    show ?thesis
    proof (cases "slotOf h = slotOf l")
      case True
      then show ?thesis using x getLocal_index [of hp l o'] getLocal_index [OF x(1)] by auto
    next
      case False
      then show ?thesis using x by auto
    qed
  qed
  have "(\<exists>x. getLocal hp h = Some x \<and> (y = x \<or> y = f x)) \<and>
      (Get hp g = Some o' \<longrightarrow> (\<exists>x. getLocal hp h = Some x \<and> (y = x \<or> (x = o' \<and> y = f x))))"
  proof (cases "hIsRoot g")
    case False
    then show ?thesis using y obj [of g] by (simp add: local_object)
  next
    case True
    show ?thesis
    proof (cases "map_of (cowMap hp) (stripRoot g)")
      case (Some l)
      then show ?thesis using y obj [of l] True nb by (auto simp: updGet_def Get_def split: if_splits)
    next
      case None
      then have "getLocal hp h = Some y" using y True nb by (auto simp: updGet_def split: option.splits)
      then show ?thesis by blast
    qed
  qed
  then show "\<exists>x. getLocal hp h = Some x \<and> (y = x \<or> y = f x)"
    "Get hp g = Some o' \<Longrightarrow> \<exists>x. getLocal hp h = Some x \<and> (y = x \<or> (x = o' \<and> y = f x))" by blast+
qed

text \<open>The promise behind a handle that was issued is this one, or the object is gone.\<close>

definition holdsPromise :: "handle \<Rightarrow> promiseData \<Rightarrow> 'q heap \<Rightarrow> bool" where
  "holdsPromise h pd hp \<longleftrightarrow> heap_inv hp \<and> issued_ok hp h \<and>
     (\<forall>o'. getLocal hp h = Some o' \<longrightarrow> opromise o' = Some pd)"

lemma sameObj_promise: "sameObj x y \<Longrightarrow> opromise y = opromise x"
  by (auto simp: sameObj_def)

lemma holds_trace:
  assumes "holdsPromise h pd hp" "traces hp hp' h" "heap_inv hp'" "advances hp hp'"
  shows "holdsPromise h pd hp'"
  using assms advances_issued sameObj_promise by (fastforce simp: holdsPromise_def traces_def)

lemma holds_updGet:
  assumes hp: "holdsPromise h pd hp"
    and f: "(\<forall>y. opromise (f y) = opromise y) \<or> (\<exists>x. Get hp g = Some x \<and> opromise x \<noteq> Some pd)"
  shows "holdsPromise h pd (updGet g f hp)"
proof -
  have inv: "heap_inv hp" "issued_ok hp h" using hp by (simp_all add: holdsPromise_def)
  have "opromise y = Some pd" if y: "getLocal (updGet g f hp) h = Some y" for y
    using f
  proof (elim disjE exE conjE)
    assume "\<forall>y. opromise (f y) = opromise y"
    then show ?thesis using updGet_traces(1) [OF inv y] hp by (auto simp: holdsPromise_def)
  next
    fix x assume "Get hp g = Some x" "opromise x \<noteq> Some pd"
    then show ?thesis using updGet_traces(2) [OF inv y] hp by (auto simp: holdsPromise_def)
  qed
  then show ?thesis
    using updGet_inv [OF inv(1)] advances_issued [OF updGet_advances [OF inv(1)] inv(2)] by (simp add: holdsPromise_def)
qed

lemma holds_alloc:
  "holdsPromise h pd hp \<Longrightarrow> alloc tr ln o' hp = Some (g, hp') \<Longrightarrow> length (gens hp') < 2 ^ 32 \<Longrightarrow>
   holdsPromise h pd hp'"
  using holds_trace [OF _ traces_alloc(1)] alloc_step unfolding holdsPromise_def by metis

lemma updGet_gens [simp]: "gens (updGet g f hp) = gens hp"
  by (simp add: updGet_def updObj_def split: option.split)

lemma newPromise_gens: "newPromise tr ln pp hp = Some (c, h1) \<Longrightarrow> \<exists>h0. NewObject tr ln hp = Some (c, h0) \<and> gens h0 = gens h1"
  by (auto simp: newPromise_def split: Option.bind_splits option.splits)

lemma holds_newPromise:
  assumes hp: "holdsPromise h pd hp" and new: "newPromise tr ln pp hp = Some (c, h1)" and small: "length (gens h1) < 2 ^ 32"
  shows "holdsPromise h pd h1"
proof -
  let ?o = "zeroObject\<lparr>okind := KindOrdinary, oshape := Some (rootShape hp), proto := objectProto hp\<rparr>"
  obtain h0 where h0: "alloc tr ln ?o hp = Some (c, h0)" "gens h0 = gens h1"
    using newPromise_gens [OF new] by (auto simp: NewObject_def)
  have inv: "heap_inv hp" using hp by (simp add: holdsPromise_def)
  have c: "getLocal h0 c = Some ?o" "issued_ok h0 c" "heap_inv h0" using alloc_step [OF inv h0(1)] h0(2) small by auto
  then have g: "Get h0 c = Some ?o" using issued_resolves(2) local_object(1) by metis
  have "holdsPromise h pd h0" using holds_alloc [OF hp h0(1)] h0(2) small by simp
  moreover have "opromise ?o \<noteq> Some pd" by (simp add: zeroObject_def)
  ultimately have "holdsPromise h pd (updGet c f h0)" for f using g by (intro holds_updGet) blast+
  then show ?thesis using new h0(1) g by (auto simp: newPromise_def NewObject_def)
qed

lemma enqueue_heap [simp]: "pheap (enqueueReaction cb x c r v) = pheap v"
  by (simp add: enqueueReaction_def EnqueueMicrotask_def)

lemma holds_then:
  assumes hp: "holdsPromise h pd (pheap v)" "promiseSt pd \<noteq> PromisePending" and rcv: "issued_ok (pheap v) (valHandle this)"
    and t: "promiseThen tr ln pp this args v = Some (r, v')" and small: "length (gens (pheap v')) < 2 ^ 32"
  shows "holdsPromise h pd (pheap v')"
proof (cases "promiseOf (pheap v) this")
  case None
  then show ?thesis using t hp by (simp add: promiseThen_def)
next
  case (Some pdb)
  have inv: "heap_inv (pheap v)" using hp by (simp add: holdsPromise_def)
  obtain c h1 where n: "newPromise tr ln pp (pheap v) = Some (c, h1)"
    using t Some by (auto simp: promiseThen_def split: Option.bind_splits)
  have v': "pheap v' = (case promiseSt pdb of PromisePending \<Rightarrow>
      addReaction this \<lparr>onFulfilled = argOr args 0, onRejected = argOr args 1, reactionChild = ObjectValue c\<rparr> h1 | _ \<Rightarrow> h1)"
    using t Some n by (auto simp: promiseThen_def Let_def split: promiseState.splits)
  have "gens (pheap v') = gens h1" unfolding v' by (auto simp: addReaction_def split: promiseState.splits option.splits)
  then have sm: "length (gens h1) < 2 ^ 32" using small by simp
  have h1: "holdsPromise h pd h1" by (rule holds_newPromise [OF hp(1) n sm])
  obtain ob where ob: "Get (pheap v) (valHandle this) = Some ob" "opromise ob = Some pdb"
    using Some by (auto simp: promiseOf_def split: if_splits option.splits)
  have "getLocal (pheap v) (valHandle this) = Some ob"
    using ob(1) unfolding local_object(1) [OF issued_resolves(2) [OF inv rcv]] .
  then have "holdsPromise (valHandle this) pdb (pheap v)" using inv rcv ob(2) by (simp add: holdsPromise_def)
  then have h2: "holdsPromise (valHandle this) pdb h1" by (rule holds_newPromise [OF _ n sm])
  show ?thesis
  proof (cases "promiseSt pdb = PromisePending")
    case False
    then show ?thesis using h1 v' by (cases "promiseSt pdb") auto
  next
    case True
    have "holdsPromise h pd (addReaction this r1 h1)" for r1
    proof (cases "promiseOf h1 this")
      case (Some pd2)
      then obtain o2 where o2: "Get h1 (valHandle this) = Some o2" "opromise o2 = Some pd2"
        by (auto simp: promiseOf_def split: if_splits option.splits)
      have i1: "heap_inv h1" "issued_ok h1 (valHandle this)" using h2 by (simp_all add: holdsPromise_def)
      have "getLocal h1 (valHandle this) = Some o2"
        using o2(1) unfolding local_object(1) [OF issued_resolves(2) [OF i1]] .
      then have "pd2 = pdb" using h2 o2(2) by (simp add: holdsPromise_def)
      then have "opromise o2 \<noteq> Some pd" using o2 True hp(2) by auto
      then have "holdsPromise h pd (updGet (valHandle this) f h1)" for f using o2(1) by (intro holds_updGet [OF h1]) blast
      then show ?thesis using Some by (simp add: addReaction_def)
    qed (simp add: addReaction_def h1)
    then show ?thesis using v' True by simp
  qed
qed

text \<open>The constructor on another object.\<close>

lemma holds_initPromise:
  assumes hp: "holdsPromise h pd hp" and t: "issued_ok hp (target hp g) \<or> uncopied hp g" "target hp g \<noteq> h"
  shows "holdsPromise h pd (initPromise pp g hp)"
proof (cases "Get hp g")
  case (Some o')
  let ?f = "\<lambda>x. x\<lparr>okind := KindPromise, opromise := Some pendingPromise, proto := (if proto x = NoHandle then pp else proto x)\<rparr>"
  have inv: "heap_inv hp" "issued_ok hp h" using hp by (simp_all add: holdsPromise_def)
  have nb: "\<not> sealedRoot hp" "\<not> buildingRoot hp" using inv by (auto simp: heap_inv_def)
  have same: "\<exists>x. getLocal hp h = Some x \<and> y = x"
    if y: "getLocal (updObj (slotOf l) ?f hp) h = Some y" and l: "issued_ok hp l" "getLocal hp l = Some o'" "l \<noteq> h" for l y
  proof -
    obtain x where x: "getLocal hp h = Some x" "if slotOf h = slotOf l then y = ?f x else y = x"
      using updObj_traces [OF inv y] by blast
    have "slotOf h \<noteq> slotOf l" using resolve_unique [OF inv(1,2) l(1) x(1) l(2)] l(3) by blast
    then show ?thesis using x by simp
  qed
  have "opromise y = Some pd" if y: "getLocal (updGet g ?f hp) h = Some y" for y
  proof (cases "hIsRoot g")
    case False
    then have g: "target hp g = g" "issued_ok hp g" using t(1) by (simp_all add: target_def uncopied_def)
    then show ?thesis using same [of g y] y Some False t(2) hp by (auto simp: local_object holdsPromise_def)
  next
    case root: True
    show ?thesis
    proof (cases "map_of (cowMap hp) (stripRoot g)")
      case None
      then show ?thesis using y root nb hp by (auto simp: updGet_def holdsPromise_def split: option.splits)
    next
      case l: (Some l)
      then have "target hp g = l" "getLocal hp l = Some o'" "issued_ok hp l"
        using root nb Some t(1) by (auto simp: target_def Get_def uncopied_def split: if_splits)
      then show ?thesis using same [of l y] y l root nb t(2) hp by (auto simp: updGet_def holdsPromise_def)
    qed
  qed
  then show ?thesis
    using Some updGet_inv [OF inv(1)] advances_issued [OF updGet_advances [OF inv(1)] inv(2)]
    by (simp add: initPromise_def holdsPromise_def)
qed (simp add: initPromise_def hp)

lemma holds_step:
  assumes "pstep tr ln pp l v v'" "l \<noteq> Some h" and hp: "holdsPromise h pd (pheap v)" "promiseSettled pd" "promiseSt pd \<noteq> PromisePending"
  shows "holdsPromise h pd (pheap v')"
  using assms(1)
proof cases
  case (settle g st x)
  have "holdsPromise h pd (updGet g f (pheap v))"
    if "Get (pheap v) g = Some o'" "opromise o' = Some pd'" "\<not> promiseSettled pd'" for o' pd' f
    using that hp(2) by (intro holds_updGet [OF hp(1)]) auto
  then show ?thesis unfolding settle settlePromise_heap using hp(1) by (auto split: option.split)
next
  case (construct g t)
  then show ?thesis using holds_initPromise [OF hp(1), of g pp] assms(2) by simp
next
  case (reacts this args r)
  then show ?thesis using holds_then [OF hp(1,3)] by blast
next
  case (alloc o' g hp')
  then show ?thesis using holds_alloc [OF hp(1)] by simp
next
  case collect
  have i: "heap_inv (pheap v)" "issued_ok (pheap v) h" using hp(1) by (simp_all add: holdsPromise_def)
  show ?thesis unfolding collect using holds_trace [OF hp(1) traces_Collect [OF i] Collect_inv [OF i(1)]] by simp
next
  case (writes f g)
  then show ?thesis using holds_updGet [OF hp(1)] by simp
next
  case (frame hp')
  have i: "heap_inv (pheap v)" using hp(1) by (simp add: holdsPromise_def)
  show ?thesis using holds_trace [OF hp(1) traces_frame [OF frame(3)] sameSlots_inv [OF frame(3) i]] frame by simp
qed (use hp in simp)

text \<open>
  C32. A promise settles once.  When a pending promise is settled with a state and a value, it
  keeps that state, that value and an empty list of reactions for as long as its object is
  there, whatever is settled, chained, queued, written, allocated or collected afterwards, and
  whatever other objects the constructor is called on.  Only the constructor called on its own object
  is left out.
\<close>

theorem promise_settles_once:
  assumes inv: "heap_inv (pheap v)" "issued_ok (pheap v) h"
    and o': "getLocal (pheap v) h = Some o'" "opromise o' = Some pd" "\<not> promiseSettled pd"
    and st: "st \<noteq> PromisePending" and steps: "(keepsCalm tr ln pp h)\<^sup>*\<^sup>* (settlePromise h st x v) v'"
    and later: "getLocal (pheap v') h = Some o''"
  shows "\<exists>pd'. opromise o'' = Some pd' \<and> promiseSettled pd' \<and> promiseSt pd' = st \<and> promiseResult pd' = x
    \<and> promiseReactions pd' = []"
proof -
  let ?pd = "pd\<lparr>promiseSettled := True, promiseSt := st, promiseResult := x, promiseReactions := []\<rparr>"
  let ?f = "\<lambda>y. y\<lparr>opromise := Some ?pd\<rparr>"
  have l: "\<not> hIsRoot h" by (rule issued_resolves(2) [OF inv])
  have hp: "pheap (settlePromise h st x v) = updObj (slotOf h) ?f (pheap v)"
    unfolding settlePromise_heap using o' l by (simp add: local_object)
  have "holdsPromise h ?pd (pheap (settlePromise h st x v))"
    unfolding hp holdsPromise_def using getLocal_updObj [OF o'(1), of ?f] updObj_inv(1) [OF inv(1), of "slotOf h" ?f]
      advances_issued [OF updObj_inv(2) [OF inv(1)] inv(2), of "slotOf h" ?f]
    by auto
  with steps have "holdsPromise h ?pd (pheap v')"
    by (induction rule: rtranclp_induct) (auto simp: keepsCalm_def st dest: holds_step)
  then show ?thesis using later by (auto simp: holdsPromise_def)
qed

text \<open>
  The constructor on a promise.  \<open>Promise\<close> takes the object it is called on as the promise to
  set up, also when that is a promise already: whatever state it was in, settled included, it is
  pending again, has lost its reactions, and the next call of a settling function settles it anew.
\<close>

theorem constructor_resets:
  fixes v :: "'q pvm" and pp h :: handle
  assumes inv: "heap_inv (pheap v)" "issued_ok (pheap v) h" and o': "getLocal (pheap v) h = Some o'"
  defines "v1 \<equiv> withHeap (initPromise pp h (pheap v)) v"
  shows "\<exists>y z. getLocal (pheap v1) h = Some y \<and> opromise y = Some pendingPromise
    \<and> getLocal (pheap (settlePromise h st x v1)) h = Some z
    \<and> opromise z = Some \<lparr>promiseSt = st, promiseResult = x, promiseReactions = [], promiseSettled = True\<rparr>"
proof -
  have l: "\<not> hIsRoot h" by (rule issued_resolves(2) [OF inv])
  obtain y where y: "getLocal (pheap v1) h = Some y" "opromise y = Some pendingPromise"
    using getLocal_updObj [OF o'] o' l by (simp add: v1_def initPromise_def local_object)
  have hp: "pheap (settlePromise h st x v1)
      = updObj (slotOf h) (\<lambda>y. y\<lparr>opromise := Some (pendingPromise\<lparr>promiseSettled := True, promiseSt := st,
           promiseResult := x, promiseReactions := []\<rparr>)\<rparr>) (pheap v1)"
    unfolding settlePromise_heap using y l by (simp add: local_object pendingPromise_def)
  show ?thesis
    using y getLocal_updObj [OF y(1)] unfolding hp by (auto simp: pendingPromise_def)
qed

section \<open>A concrete interpreter\<close>

text \<open>Two functions and a pending promise; the promise is on the stack.\<close>

definition demoFn :: "nat \<Rightarrow> object" where
  "demoFn n = zeroObject\<lparr>okind := KindFunction, ofn := Some n, oshape := Some 0\<rparr>"

definition asyncHeap :: "nat heap" where
  "asyncHeap = (NewHeap 0)\<lparr>objs := [None, Some (demoFn 0), Some (demoFn 1),
       Some (zeroObject\<lparr>okind := KindPromise, opromise := Some pendingPromise\<rparr>)],
     gens := [0, 0, 0, 0], vstack := [ObjectValue (makeHandle 3 0)]\<rparr>"

definition demoVM :: "nat pvm" where
  "demoVM = \<lparr>peng = \<lparr>eheap = asyncHeap, eshapes = [], etab = NewTable, estr = [], eglob = None\<rparr>,
     jobs = [Reaction (ObjectValue (makeHandle 1 0)) 5 Undefined False,
             Reaction (ObjectValue (makeHandle 2 0)) 5 (ObjectValue (makeHandle 3 0)) False]\<rparr>"


lemma demoHeap_ok: "heap_inv asyncHeap" "issued_ok asyncHeap (makeHandle 3 0)"
proof -
  show "heap_inv asyncHeap"
    by (auto simp: heap_inv_def asyncHeap_def NewHeap_def gens_ok_def maxLocalGen_def less_Suc_eq nth_Cons')
  have "makeHandle 3 0 = makeHandle (word_of_nat 3) 0" by simp
  then show "issued_ok asyncHeap (makeHandle 3 0)"
    unfolding issued_ok_def by (intro exI [of _ 3] exI [of _ 0]) (simp add: asyncHeap_def NewHeap_def maxLocalGen_def rootGenBit_def)
qed

theorem promise_settles_once_witness:
  "\<exists>pd. map_option opromise (getLocal (pheap (settlePromise (makeHandle 3 0) PromiseRejected 2
       (settlePromise (makeHandle 3 0) PromiseFulfilled 1 demoVM))) (makeHandle 3 0)) = Some (Some pd)
     \<and> promiseSt pd = PromiseFulfilled \<and> promiseResult pd = 1"
proof -
  let ?v1 = "settlePromise (makeHandle 3 0) PromiseFulfilled 1 demoVM"
  let ?v2 = "settlePromise (makeHandle 3 0) PromiseRejected 2 ?v1"
  let ?tr = "\<lambda>n q. (q, True)" and ?ln = "\<lambda>_. 0 :: nat"
  have 0: "pheap demoVM = asyncHeap" by (simp add: demoVM_def pheap_def)
  obtain o0 where o0: "getLocal (pheap demoVM) (makeHandle 3 0) = Some o0" "opromise o0 = Some pendingPromise"
  proof -
    have "map_option opromise (getLocal (pheap demoVM) (makeHandle 3 0)) = Some (Some pendingPromise)" by code_simp
    then show ?thesis using that by auto
  qed
  obtain o2 where o2: "getLocal (pheap ?v2) (makeHandle 3 0) = Some o2"
  proof -
    have "getLocal (pheap ?v2) (makeHandle 3 0) \<noteq> None" by code_simp
    then show ?thesis using that by auto
  qed
  have steps: "(keepsCalm ?tr ?ln NoHandle (makeHandle 3 0))\<^sup>*\<^sup>* ?v1 ?v2"
    unfolding keepsCalm_def by (intro r_into_rtranclp exI [of _ None] conjI pstep.settle) simp
  show ?thesis
    using promise_settles_once [OF _ _ o0 _ _ steps o2] demoHeap_ok 0 o2 by (auto simp: pendingPromise_def)
qed

theorem constructor_resets_witness:
  "\<exists>y. getLocal (pheap (settlePromise (makeHandle 3 0) PromiseRejected 2
       (withHeap (initPromise NoHandle (makeHandle 3 0) (pheap (settlePromise (makeHandle 3 0) PromiseFulfilled 1 demoVM)))
         (settlePromise (makeHandle 3 0) PromiseFulfilled 1 demoVM)))) (makeHandle 3 0) = Some y
     \<and> map_option promiseSt (opromise y) = Some PromiseRejected"
proof -
  let ?v1 = "settlePromise (makeHandle 3 0) PromiseFulfilled 1 demoVM"
  let ?v2 = "settlePromise (makeHandle 3 0) PromiseRejected 2 ?v1"
  have 0: "pheap demoVM = asyncHeap" by (simp add: demoVM_def pheap_def)
  have i: "heap_inv (pheap ?v1)" "issued_ok (pheap ?v1) (makeHandle 3 0)"
    using demoHeap_ok 0 settle_inv by metis+
  obtain o1 where "getLocal (pheap ?v1) (makeHandle 3 0) = Some o1"
  proof -
    have "getLocal (pheap ?v1) (makeHandle 3 0) \<noteq> None" by code_simp
    then show ?thesis using that by auto
  qed
  from constructor_resets [OF i this, of NoHandle PromiseRejected 2] show ?thesis by auto
qed

end
