(* ===== verification/Bytecode.thy ===== *)
theory Bytecode
  imports InternTable
begin

text \<open>
  The bytecode of \<open>opcode.go\<close> and \<open>chunk.go\<close>, the decoding of one instruction by the interpreter
  (\<open>vm.go\<close>), and the check \<open>regularFrameBody\<close> of \<open>frame_env.go\<close> that decides whether the
  environment of a call may be reused.

  An opcode is a byte; the enumeration is dense, and a byte beyond it has no operand.  Strings
  are pointers into a store, functions are chunks known by their address.
\<close>

section \<open>Opcodes\<close>

type_synonym op = byte

definition OpNop :: op where "OpNop = 0"
definition OpUndefined :: op where "OpUndefined = 1"
definition OpNull :: op where "OpNull = 2"
definition OpTrue :: op where "OpTrue = 3"
definition OpFalse :: op where "OpFalse = 4"
definition OpInt32 :: op where "OpInt32 = 5"
definition OpConst :: op where "OpConst = 6"
definition OpPop :: op where "OpPop = 7"
definition OpDup :: op where "OpDup = 8"
definition OpAdd :: op where "OpAdd = 9"
definition OpSub :: op where "OpSub = 10"
definition OpMul :: op where "OpMul = 11"
definition OpDiv :: op where "OpDiv = 12"
definition OpMod :: op where "OpMod = 13"
definition OpPow :: op where "OpPow = 14"
definition OpNeg :: op where "OpNeg = 15"
definition OpPos :: op where "OpPos = 16"
definition OpBitAnd :: op where "OpBitAnd = 17"
definition OpBitOr :: op where "OpBitOr = 18"
definition OpBitXor :: op where "OpBitXor = 19"
definition OpBitNot :: op where "OpBitNot = 20"
definition OpShl :: op where "OpShl = 21"
definition OpShr :: op where "OpShr = 22"
definition OpUShr :: op where "OpUShr = 23"
definition OpEq :: op where "OpEq = 24"
definition OpNe :: op where "OpNe = 25"
definition OpStrictEq :: op where "OpStrictEq = 26"
definition OpStrictNe :: op where "OpStrictNe = 27"
definition OpLt :: op where "OpLt = 28"
definition OpGt :: op where "OpGt = 29"
definition OpLe :: op where "OpLe = 30"
definition OpGe :: op where "OpGe = 31"
definition OpInstanceof :: op where "OpInstanceof = 32"
definition OpIn :: op where "OpIn = 33"
definition OpNot :: op where "OpNot = 34"
definition OpTypeof :: op where "OpTypeof = 35"
definition OpIsNullish :: op where "OpIsNullish = 36"
definition OpArraySlice :: op where "OpArraySlice = 37"
definition OpArrayPush :: op where "OpArrayPush = 38"
definition OpArraySpread :: op where "OpArraySpread = 39"
definition OpObjectRest :: op where "OpObjectRest = 40"
definition OpCallSpread :: op where "OpCallSpread = 41"
definition OpCallSpreadThis :: op where "OpCallSpreadThis = 42"
definition OpObjectAssign :: op where "OpObjectAssign = 43"
definition OpGetLocal :: op where "OpGetLocal = 44"
definition OpSetLocal :: op where "OpSetLocal = 45"
definition OpGetGlobal :: op where "OpGetGlobal = 46"
definition OpSetGlobal :: op where "OpSetGlobal = 47"
definition OpDefGlobal :: op where "OpDefGlobal = 48"
definition OpGetProp :: op where "OpGetProp = 49"
definition OpSetProp :: op where "OpSetProp = 50"
definition OpGetElem :: op where "OpGetElem = 51"
definition OpSetElem :: op where "OpSetElem = 52"
definition OpNewObject :: op where "OpNewObject = 53"
definition OpNewArray :: op where "OpNewArray = 54"
definition OpJump :: op where "OpJump = 55"
definition OpJumpIfFalse :: op where "OpJumpIfFalse = 56"
definition OpJumpIfTrue :: op where "OpJumpIfTrue = 57"
definition OpCall :: op where "OpCall = 58"
definition OpCallMethod :: op where "OpCallMethod = 59"
definition OpNew :: op where "OpNew = 60"
definition OpThis :: op where "OpThis = 61"
definition OpReturn :: op where "OpReturn = 62"
definition OpThrow :: op where "OpThrow = 63"
definition OpHalt :: op where "OpHalt = 64"
definition OpGetGlobalSoft :: op where "OpGetGlobalSoft = 65"
definition OpYield :: op where "OpYield = 66"
definition OpGetIterator :: op where "OpGetIterator = 67"
definition OpDefAccessor :: op where "OpDefAccessor = 68"
definition OpAwait :: op where "OpAwait = 69"
definition OpSuperGet :: op where "OpSuperGet = 70"
definition OpDelete :: op where "OpDelete = 71"
definition OpSuperCall :: op where "OpSuperCall = 72"
definition OpSetProto :: op where "OpSetProto = 73"
definition OpNewTarget :: op where "OpNewTarget = 74"
definition OpSuperCallSpread :: op where "OpSuperCallSpread = 75"
definition OpNewSpread :: op where "OpNewSpread = 76"
definition OpExport :: op where "OpExport = 77"
definition OpSetHomeObject :: op where "OpSetHomeObject = 78"

text \<open>Names and operand widths, in the order of the enumeration.\<close>

definition opTable :: "(string \<times> nat) list" where
  "opTable = [
     (''nop'', 0), (''undefined'', 0), (''null'', 0), (''true'', 0), (''false'', 0),
     (''int32'', 4), (''const'', 4), (''pop'', 0), (''dup'', 0), (''add'', 0),
     (''sub'', 0), (''mul'', 0), (''div'', 0), (''mod'', 0), (''pow'', 0),
     (''neg'', 0), (''pos'', 0), (''bitand'', 0), (''bitor'', 0), (''bitxor'', 0),
     (''bitnot'', 0), (''shl'', 0), (''shr'', 0), (''ushr'', 0), (''eq'', 0),
     (''ne'', 0), (''stricteq'', 0), (''strictne'', 0), (''lt'', 0), (''gt'', 0),
     (''le'', 0), (''ge'', 0), (''instanceof'', 0), (''in'', 0), (''not'', 0),
     (''typeof'', 0), (''isnullish'', 0), (''arrayslice'', 0), (''arraypush'', 0), (''arrayspread'', 0),
     (''objectrest'', 0), (''callspread'', 0), (''callspreadthis'', 0), (''objectassign'', 0), (''getlocal'', 4),
     (''setlocal'', 4), (''getglobal'', 4), (''setglobal'', 4), (''defglobal'', 4), (''getprop'', 4),
     (''setprop'', 4), (''getelem'', 0), (''setelem'', 0), (''newobject'', 0), (''newarray'', 4),
     (''jump'', 4), (''jumpiffalse'', 4), (''jumpiftrue'', 4), (''call'', 2), (''callmethod'', 4),
     (''new'', 2), (''this'', 0), (''return'', 0), (''throw'', 0), (''halt'', 0),
     (''getglobalsoft'', 4), (''yield'', 2), (''getiterator'', 0), (''defaccessor'', 4), (''await'', 0),
     (''superget'', 4), (''delete'', 4), (''supercall'', 2), (''setproto'', 0), (''newtarget'', 0),
     (''supercallspread'', 0), (''newspread'', 0), (''export'', 4), (''sethomeobject'', 0)]"

definition NumOps :: nat where "NumOps = length opTable"

definition Width :: "op \<Rightarrow> nat" where
  "Width b = (if unat b \<ge> NumOps then 0 else snd (opTable ! unat b))"

definition opName :: "op \<Rightarrow> string" where
  "opName b = (if unat b \<ge> NumOps then ''op(?)'' else fst (opTable ! unat b))"

section \<open>Chunks\<close>

datatype const =
    ConstNumber u64
  | ConstString saddr
  | ConstFunction nat
  | ConstBigInt int

record handler =
  hStart :: int
  hEnd :: int
  hCatchIP :: int
  hFinallyIP :: int
  hFinallyEnd :: int
  hCatchSlot :: int
  hDepth :: int

record chunk =
  chunkName :: gostring
  chunkCode :: "byte list"
  chunkConsts :: "const list"
  handlers :: "handler list"
  chunkLocals :: int
  chunkParams :: int
  selfSlot :: int
  argumentsSlot :: int
  restSlot :: int
  lineOf :: "(nat \<times> int) list"
  native :: bool
  construct :: bool
  generator :: bool
  async :: bool
  strict :: bool
  arrow :: bool
  exportDefault :: bool
  exportNames :: "gostring list"
  safeEnv :: bool
  safeEnvVerified :: bool

text \<open>A native chunk is one whose Go function is set; the tag of the generated kernels is left out.\<close>

definition HasExport :: "gostring \<Rightarrow> chunk \<Rightarrow> bool" where
  "HasExport name c = list_ex (\<lambda>n. n = name) (exportNames c)"

definition NewChunk :: "gostring \<Rightarrow> chunk" where
  "NewChunk name = \<lparr>chunkName = name, chunkCode = [], chunkConsts = [], handlers = [], chunkLocals = 0, chunkParams = 0,
     selfSlot = -1, argumentsSlot = -1, restSlot = -1, lineOf = [], native = False, construct = False, generator = False,
     async = False, strict = False, arrow = False, exportDefault = False, exportNames = [], safeEnv = False,
     safeEnvVerified = False\<rparr>"

definition le16 :: "u16 \<Rightarrow> byte list" where
  "le16 w = [ucast w, ucast (drop_bit 8 w)]"

definition le32 :: "u32 \<Rightarrow> byte list" where
  "le32 w = [ucast w, ucast (drop_bit 8 w), ucast (drop_bit 16 w), ucast (drop_bit 24 w)]"

definition emit :: "byte \<Rightarrow> int \<Rightarrow> chunk \<Rightarrow> nat \<times> chunk" where
  "emit b line c =
     (let at = length (chunkCode c)
      in (at, c\<lparr>lineOf := (at, line) # lineOf c, chunkCode := chunkCode c @ [b]\<rparr>))"

definition emit16 :: "byte \<Rightarrow> u16 \<Rightarrow> int \<Rightarrow> chunk \<Rightarrow> nat \<times> chunk" where
  "emit16 b arg line c = (case emit b line c of (at, c1) \<Rightarrow> (at, c1\<lparr>chunkCode := chunkCode c1 @ le16 arg\<rparr>))"

definition emit32 :: "byte \<Rightarrow> u32 \<Rightarrow> int \<Rightarrow> chunk \<Rightarrow> nat \<times> chunk" where
  "emit32 b arg line c = (case emit b line c of (at, c1) \<Rightarrow> (at, c1\<lparr>chunkCode := chunkCode c1 @ le32 arg\<rparr>))"

text \<open>The slice expression panics when the operand does not fit.\<close>

definition patch32 :: "nat \<Rightarrow> u32 \<Rightarrow> chunk \<Rightarrow> chunk option" where
  "patch32 at arg c =
     (if at + 5 > length (chunkCode c) then None
      else Some (c\<lparr>chunkCode := take (at + 1) (chunkCode c) @ le32 arg @ drop (at + 5) (chunkCode c)\<rparr>))"

fun sameConst :: "store \<Rightarrow> const \<Rightarrow> const \<Rightarrow> bool" where
  "sameConst h (ConstNumber a) (ConstNumber b) \<longleftrightarrow> a = b"
| "sameConst h (ConstString a) (ConstString b) \<longleftrightarrow> units h a = units h b"
| "sameConst h (ConstFunction a) (ConstFunction b) \<longleftrightarrow> a = b"
| "sameConst h (ConstBigInt a) (ConstBigInt b) \<longleftrightarrow> a = b"
| "sameConst h _ _ \<longleftrightarrow> False"

fun findConst :: "store \<Rightarrow> const \<Rightarrow> nat \<Rightarrow> const list \<Rightarrow> nat option" where
  "findConst h k i [] = None"
| "findConst h k i (e # es) = (if sameConst h e k then Some i else findConst h k (Suc i) es)"

definition addConst :: "store \<Rightarrow> const \<Rightarrow> chunk \<Rightarrow> u32 \<times> chunk" where
  "addConst h k c =
     (case findConst h k 0 (chunkConsts c) of
        Some i \<Rightarrow> (word_of_nat i, c)
      | None \<Rightarrow> (word_of_nat (length (chunkConsts c)), c\<lparr>chunkConsts := chunkConsts c @ [k]\<rparr>))"

section \<open>Decoding\<close>

definition word16 :: "byte list \<Rightarrow> u16" where
  "word16 bs = ucast (bs ! 0) OR push_bit 8 (ucast (bs ! 1))"

definition word32 :: "byte list \<Rightarrow> u32" where
  "word32 bs = ucast (bs ! 0) OR push_bit 8 (ucast (bs ! 1)) OR push_bit 16 (ucast (bs ! 2)) OR push_bit 24 (ucast (bs ! 3))"

text \<open>One instruction: opcode byte, operand, next offset.  \<open>None\<close> is the fault of truncated code.\<close>

definition fetch :: "byte list \<Rightarrow> nat \<Rightarrow> (byte \<times> u32 \<times> nat) option" where
  "fetch code ip =
     (let b = code ! ip; ip1 = ip + 1
      in if Width b = 2 then
           (if ip1 + 2 > length code then None else Some (b, ucast (word16 (drop ip1 code)), ip1 + 2))
         else if Width b = 4 then
           (if ip1 + 4 > length code then None else Some (b, word32 (drop ip1 code), ip1 + 4))
         else Some (b, 0, ip1))"

text \<open>The whole of a unit, as \<open>Disassemble\<close> goes through it.\<close>

function decode :: "byte list \<Rightarrow> nat \<Rightarrow> (nat \<times> byte \<times> u32) list option" where
  "decode code ip =
     (if ip \<ge> length code then Some []
      else (case fetch code ip of
        None \<Rightarrow> None
      | Some (b, arg, ip1) \<Rightarrow> map_option (\<lambda>is. (ip, b, arg) # is) (decode code ip1)))"
  by auto
termination
  by (relation "measure (\<lambda>(code, ip). length code - ip)")
    (auto simp: fetch_def Let_def split: if_splits)

declare decode.simps [simp del]

section \<open>Reusable frames\<close>

text \<open>The opcodes, besides the two for locals, whose effect on the environment was reviewed.\<close>

definition plainOps :: "op list" where
  "plainOps = [
     OpNop, OpUndefined, OpNull, OpTrue, OpFalse, OpInt32, OpConst, OpPop,
     OpDup, OpAdd, OpSub, OpMul, OpDiv, OpMod, OpPow, OpNeg,
     OpPos, OpBitAnd, OpBitOr, OpBitXor, OpBitNot, OpShl, OpShr, OpUShr,
     OpEq, OpNe, OpStrictEq, OpStrictNe, OpLt, OpGt, OpLe, OpGe,
     OpInstanceof, OpIn, OpNot, OpTypeof, OpIsNullish, OpGetGlobal, OpGetGlobalSoft, OpGetProp,
     OpSetProp, OpGetElem, OpSetElem, OpNewObject, OpNewArray, OpJump, OpJumpIfFalse, OpJumpIfTrue,
     OpCall, OpCallMethod, OpNew, OpThis, OpNewTarget, OpReturn, OpThrow]"

definition frameOpOk :: "chunk \<Rightarrow> op \<Rightarrow> byte list \<Rightarrow> bool" where
  "frameOpOk c b operand =
     (if b = OpGetLocal \<or> b = OpSetLocal then
        (let arg = word32 operand
         in drop_bit 16 arg = 0 \<and> uint (arg AND 0xffff) < chunkLocals c)
      else b \<in> set plainOps)"

function bodyOk :: "chunk \<Rightarrow> nat \<Rightarrow> bool" where
  "bodyOk c ip =
     (if ip \<ge> length (chunkCode c) then True
      else
        let b = chunkCode c ! ip; width = Width b
        in if width > length (chunkCode c) - ip - 1 then False
           else if \<not> frameOpOk c b (drop (ip + 1) (chunkCode c)) then False
           else bodyOk c (ip + 1 + width))"
  by auto
termination by (relation "measure (\<lambda>(c, ip). length (chunkCode c) - ip)") auto

declare bodyOk.simps [simp del]

definition evalText :: "u16 list" where
  "evalText = map (\<lambda>c. word_of_nat (of_char c)) ''eval''"

fun constOk :: "store \<Rightarrow> const \<Rightarrow> bool" where
  "constOk h (ConstFunction f) \<longleftrightarrow> False"
| "constOk h (ConstString s) \<longleftrightarrow> units h s \<noteq> evalText"
| "constOk h _ \<longleftrightarrow> True"

definition regularFrameBody :: "store \<Rightarrow> chunk \<Rightarrow> bool" where
  "regularFrameBody h c \<longleftrightarrow>
     \<not> (native c \<or> generator c \<or> async c \<or> arrow c \<or> argumentsSlot c \<ge> 0 \<or> restSlot c \<ge> 0 \<or> chunkLocals c < 0)
     \<and> list_all (constOk h) (chunkConsts c) \<and> list_all (\<lambda>x. hDepth x = 0) (handlers c)
     \<and> bodyOk c 0 \<and> chunkCode c \<noteq> []"

end
