(* ===== verification/BytecodeProps.thy ===== *)
theory BytecodeProps
  imports Bytecode
begin

text \<open>
  Properties of the bytecode: what was emitted is what is decoded, patching a jump changes its
  operand and nothing else, constants are shared by content, and the frame check accepts exactly
  the bodies that decode without a fault into instructions that stay in the frame.  What content is
  and which instructions stay is said here anew, and not by the lists of the code.
\<close>

section \<open>Operands\<close>

lemma word16_le16 [simp]: "word16 (le16 w @ bs) = w"
  by (rule bit_word_eqI) (auto simp: word16_def le16_def bit_simps)

lemma word32_le32 [simp]: "word32 (le32 w @ bs) = w"
proof (rule bit_word_eqI)
  fix n assume "n < LENGTH(32)"
  then consider "n < 8" | "8 \<le> n" "n < 16" | "16 \<le> n" "n < 24" | "24 \<le> n" "n < 32" by fastforce
  then show "bit (word32 (le32 w @ bs)) n \<longleftrightarrow> bit w n"
    by cases (auto simp: word32_def le32_def bit_simps)
qed

lemma length_le [simp]: "length (le16 w) = 2" "length (le32 v) = 4"
  by (simp_all add: le16_def le32_def)

lemma word_take: "2 \<le> n \<Longrightarrow> word16 (take n bs) = word16 bs" "4 \<le> n \<Longrightarrow> word32 (take n bs) = word32 bs"
  by (simp_all add: word16_def word32_def)

section \<open>The table\<close>

lemma NumOps_79 [simp]: "NumOps = 79" "length opTable = 79"
  by (simp_all add: NumOps_def opTable_def)

lemma Width_cases: "Width b = 0 \<or> Width b = 2 \<or> Width b = 4"
proof (cases "unat b < 79")
  case True
  have "list_all (\<lambda>e. snd e = 0 \<or> snd e = 2 \<or> snd e = 4) opTable" by (simp add: opTable_def)
  then have "snd (opTable ! unat b) = 0 \<or> snd (opTable ! unat b) = 2 \<or> snd (opTable ! unat b) = 4"
    using True by (auto simp: list_all_length)
  then show ?thesis by (simp add: Width_def)
qed (simp add: Width_def)

section \<open>Decoding what was emitted\<close>

lemma fetch_next: "fetch code ip = Some (b, arg, ip1) \<Longrightarrow> b = code ! ip \<and> ip1 = ip + 1 + Width b \<and> (Width b = 0 \<longrightarrow> arg = 0)"
  using Width_cases [of "code ! ip"] by (auto simp: fetch_def Let_def split: if_splits)

lemma fetch_same:
  assumes "\<And>k. k \<le> Width (code ! ip) \<Longrightarrow> code' ! (ip + k) = code ! (ip + k)"
    and "ip + Width (code ! ip) < length code" "ip + Width (code ! ip) < length code'"
  shows "fetch code' ip = fetch code ip"
proof -
  have b: "code' ! ip = code ! ip" using assms(1) [of 0] by simp
  have n: "code' ! Suc (ip + k) = code ! Suc (ip + k)" if "k < Width (code ! ip)" for k using assms(1) [of "Suc k"] that by simp
  have "Width (code ! ip) = 2 \<Longrightarrow> word16 (drop (Suc ip) code') = word16 (drop (Suc ip) code)"
    using n [of 0] n [of 1] assms(2,3) by (simp add: word16_def)
  moreover have "Width (code ! ip) = 4 \<Longrightarrow> word32 (drop (Suc ip) code') = word32 (drop (Suc ip) code)"
    using n [of 0] n [of 1] n [of 2] n [of 3] assms(2,3) by (simp add: word32_def)
  ultimately show ?thesis using assms(2,3) by (auto simp: fetch_def Let_def b)
qed

lemma fetch_fits: "ip < length code \<Longrightarrow> fetch code ip \<noteq> None \<longleftrightarrow> ip + Width (code ! ip) < length code"
  using Width_cases [of "code ! ip"] by (auto simp: fetch_def Let_def)

lemma decode_append:
  "decode xs ip = Some is \<Longrightarrow> ip \<le> length xs \<Longrightarrow>
   decode (xs @ ys) ip = map_option ((@) is) (decode (xs @ ys) (length xs))"
proof (induction xs ip arbitrary: "is" rule: decode.induct)
  case (1 xs ip)
  show ?case
  proof (cases "ip < length xs")
    case False
    then have "is = []" using 1(2) by (subst (asm) decode.simps) simp
    moreover have "ip = length xs" using False 1(3) by simp
    ultimately show ?thesis by (cases "decode (xs @ ys) (length xs)") simp_all
  next
    case True
    obtain b arg ip1 js where f: "fetch xs ip = Some (b, arg, ip1)" "decode xs ip1 = Some js" "is = (ip, b, arg) # js"
      using 1(2) True by (auto simp: decode.simps [of xs ip] split: option.splits)
    note n = fetch_next [OF f(1)]
    have fit: "ip + Width b < length xs" using fetch_fits [OF True] f(1) n by auto
    have "fetch (xs @ ys) ip = fetch xs ip"
      using n fit by (intro fetch_same) (auto simp: nth_append)
    then show ?thesis
      using 1(1) [of "(b, arg, ip1)" b "(arg, ip1)" arg ip1] f n fit True
      by (simp add: decode.simps [of "xs @ ys" ip] option.map_comp comp_def)
  qed
qed

text \<open>Emitting an instruction the way its width asks for.\<close>

definition emitAs :: "byte \<Rightarrow> u32 \<Rightarrow> int \<Rightarrow> chunk \<Rightarrow> nat \<times> chunk" where
  "emitAs b arg line c =
     (if Width b = 2 then emit16 b (ucast arg) line c else if Width b = 4 then emit32 b arg line c else emit b line c)"

definition operandFits :: "byte \<Rightarrow> u32 \<Rightarrow> bool" where
  "operandFits b arg \<longleftrightarrow> (Width b = 0 \<longrightarrow> arg = 0) \<and> (Width b = 2 \<longrightarrow> unat arg < 2 ^ 16)"

lemma emitAs_code: "fst (emitAs b arg line c) = length (chunkCode c)"
  "chunkCode (snd (emitAs b arg line c)) = chunkCode c @ b # (if Width b = 2 then le16 (ucast arg) else if Width b = 4 then le32 arg else [])"
  by (simp_all add: emitAs_def emit16_def emit32_def emit_def Let_def)

lemma fetch_emitted:
  assumes "operandFits b arg"
  shows "fetch (xs @ b # (if Width b = 2 then le16 (ucast arg) else if Width b = 4 then le32 arg else []) @ ys) (length xs)
    = Some (b, arg, length xs + 1 + Width b)"
proof -
  have "Width b = 2 \<Longrightarrow> (ucast (ucast arg :: u16) :: u32) = arg"
    using assms by (simp add: operandFits_def word_unat_eq_iff unsigned_ucast_eq unsigned_take_bit_eq take_bit_nat_eq_self)
  then show ?thesis
    using assms Width_cases [of b] by (auto simp: fetch_def Let_def operandFits_def)
qed

lemma decode_end: "length code \<le> ip \<Longrightarrow> decode code ip = Some []"
  by (simp add: decode.simps [of code ip])

lemma decode_step: "ip < length code \<Longrightarrow> fetch code ip = Some (b, arg, ip1) \<Longrightarrow>
    decode code ip = map_option ((#) (ip, b, arg)) (decode code ip1)"
  by (simp add: decode.simps [of code ip])

lemma decode_cases:
  assumes "decode code ip = Some is" "ip < length code"
  obtains b arg ip1 js where "fetch code ip = Some (b, arg, ip1)" "decode code ip1 = Some js" "is = (ip, b, arg) # js"
    "b = code ! ip" "ip1 = ip + 1 + Width b" "ip + Width b < length code"
proof -
  obtain b arg ip1 where f: "fetch code ip = Some (b, arg, ip1)"
    using assms by (cases "fetch code ip") (auto simp: decode.simps [of code ip])
  moreover obtain js where "decode code ip1 = Some js" "is = (ip, b, arg) # js"
    using assms(1) unfolding decode_step [OF assms(2) f] by auto
  moreover have "ip + Width b < length code" using fetch_fits [OF assms(2)] f fetch_next [OF f] by simp
  ultimately show ?thesis using that fetch_next [OF f] by blast
qed

lemma decode_emitted:
  assumes old: "decode (chunkCode c) 0 = Some old" and fits: "operandFits b arg"
    and e: "emitAs b arg line c = (at, c')"
  shows "decode (chunkCode c') 0 = Some (old @ [(at, b, arg)])"
proof -
  let ?xs = "chunkCode c"
  define enc where "enc = b # (if Width b = 2 then le16 (ucast arg) else if Width b = 4 then le32 arg else [])"
  have c': "at = length ?xs" "chunkCode c' = ?xs @ enc" using emitAs_code [of b arg line c] e by (auto simp: enc_def)
  have len: "length enc = 1 + Width b" using Width_cases [of b] by (auto simp: enc_def)
  have "fetch (?xs @ enc) (length ?xs) = Some (b, arg, length ?xs + 1 + Width b)"
    using fetch_emitted [OF fits, of ?xs "[]"] by (simp add: enc_def)
  then have "decode (?xs @ enc) (length ?xs) = Some [(at, b, arg)]"
    using c'(1) len decode_end [of "?xs @ enc"] decode_step [of "length ?xs" "?xs @ enc"] by simp
  then show ?thesis using decode_append [OF old, of enc] c'(2) by simp
qed

fun emitAll :: "(op \<times> u32 \<times> int) list \<Rightarrow> chunk \<Rightarrow> nat list \<times> chunk" where
  "emitAll [] c = ([], c)"
| "emitAll ((b, arg, line) # is) c =
     (case emitAs b arg line c of (at, c1) \<Rightarrow> (case emitAll is c1 of (ats, c2) \<Rightarrow> (at # ats, c2)))"

text \<open>
  C34. What is emitted is what is decoded: when instructions are emitted one after the other, each
  with the operand width of its opcode, decoding the unit gives what it held before and then
  these instructions, each at the offset that emitting it returned.
\<close>

theorem emitted_code_decodes:
  assumes "decode (chunkCode c) 0 = Some old" "\<forall>(b, arg, line) \<in> set is. operandFits b arg" "emitAll is c = (ats, c')"
  shows "decode (chunkCode c') 0 = Some (old @ zip ats (map (\<lambda>(b, arg, line). (b, arg)) is)) \<and> length ats = length is"
  using assms
proof (induction "is" arbitrary: c old ats)
  case (Cons i "is")
  obtain b arg line where i: "i = (b, arg, line)" by (cases i)
  obtain at c1 ats1 where e: "emitAs b arg line c = (at, c1)" "emitAll is c1 = (ats1, c')" "ats = at # ats1"
    using Cons.prems(3) i by (auto split: prod.splits)
  have "decode (chunkCode c1) 0 = Some (old @ [(at, b, arg)])"
    using decode_emitted [OF Cons.prems(1) _ e(1)] Cons.prems(2) i by simp
  from Cons.IH [OF this _ e(2)] show ?case using Cons.prems(2) e(3) i by simp
qed simp

theorem emitted_code_decodes_witness:
  "decode (chunkCode (snd (emitAll [(OpInt32, 5, 1), (OpReturn, 0, 1)] (NewChunk [])))) 0 = Some [(0, OpInt32, 5), (5, OpReturn, 0)]"
proof -
  have ats: "fst (emitAll [(OpInt32, 5, 1), (OpReturn, 0, 1)] (NewChunk [])) = [0, 5]" by code_simp
  have fits: "\<forall>(b, arg, line) \<in> set [(OpInt32, 5, 1), (OpReturn, 0, 1)]. operandFits b arg"
  proof -
    have "Width OpInt32 = 4" "Width OpReturn = 0" by code_simp+
    then show ?thesis by (simp add: operandFits_def)
  qed
  have nil: "decode (chunkCode (NewChunk [])) 0 = Some []" by code_simp
  from emitted_code_decodes [OF nil fits surjective_pairing] show ?thesis by (simp add: ats del: emitAll.simps)
qed

section \<open>Patching\<close>

lemma decode_positions: "decode code ip = Some is \<Longrightarrow> (p, b, arg) \<in> set is \<Longrightarrow> ip \<le> p \<and> p + Width b < length code \<and> b = code ! p"
proof (induction "length code - ip" arbitrary: ip "is" rule: less_induct)
  case less
  show ?case
  proof (cases "ip < length code")
    case True
    obtain c a ip1 js where f: "decode code ip1 = Some js" "is = (ip, c, a) # js" "c = code ! ip" "ip1 = ip + 1 + Width c"
        "ip + Width c < length code"
      using decode_cases [OF less(2) True] by metis
    show ?thesis
    proof (cases "(p, b, arg) = (ip, c, a)")
      case True
      then show ?thesis using f by simp
    next
      case False
      then have "(p, b, arg) \<in> set js" using f(2) less(3) by auto
      moreover have "length code - ip1 < length code - ip" using \<open>ip < length code\<close> f(4) by simp
      ultimately have "ip1 \<le> p \<and> p + Width b < length code \<and> b = code ! p" using less(1) [OF _ f(1)] by blast
      then show ?thesis unfolding f(4) by linarith
    qed
  next
    case False
    then show ?thesis using less(2,3) decode_end [of code ip] by simp
  qed
qed

definition patched :: "nat \<Rightarrow> u32 \<Rightarrow> byte list \<Rightarrow> byte list" where
  "patched at new code = take (at + 1) code @ le32 new @ drop (at + 5) code"

lemma patched_nth:
  assumes "at + 4 < length code"
  shows "length (patched at new code) = length code"
    "k \<le> at \<or> at + 5 \<le> k \<Longrightarrow> k < length code \<Longrightarrow> patched at new code ! k = code ! k"
  using assms by (auto simp: patched_def nth_append)

lemma fetch_patched:
  assumes at: "Width (code ! at) = 4" "at + 4 < length code"
  shows "fetch (patched at new code) at = Some (code ! at, new, at + 5)"
proof -
  have "drop (at + 1) (patched at new code) = le32 new @ drop (at + 5) code" using at(2) by (simp add: patched_def)
  then show ?thesis
    using at patched_nth [OF at(2), where new = new] by (simp add: fetch_def Let_def)
qed

lemma decode_patched:
  fixes new :: u32
  assumes w: "Width (code ! at) = 4" "at + 4 < length code"
  shows "decode code ip = Some is \<Longrightarrow> at + 5 \<le> ip \<or> (\<exists>b arg. (at, b, arg) \<in> set is) \<Longrightarrow>
    decode (patched at new code) ip = Some (map (\<lambda>(p, b, arg). (p, b, if p = at then new else arg)) is)"
proof (induction "length code - ip" arbitrary: ip "is" rule: less_induct)
  case less
  note len = patched_nth(1) [OF w(2), where new = new] and same = patched_nth(2) [OF w(2), where new = new]
  show ?case
  proof (cases "ip < length code")
    case False
    then show ?thesis using less(2) len decode_end [of _ ip] by simp
  next
    case True
    obtain c a ip1 js where f: "fetch code ip = Some (c, a, ip1)" "decode code ip1 = Some js" "is = (ip, c, a) # js"
        "c = code ! ip" "ip1 = ip + 1 + Width c" "ip + Width c < length code"
      using decode_cases [OF less(2) True] by metis
    have smaller: "length code - ip1 < length code - ip" using True f(5) by simp
    have "ip = at \<or> at + 5 \<le> ip1 \<and> at + 5 \<le> ip \<or> ip1 \<le> at \<and> (\<exists>b arg. (at, b, arg) \<in> set js)"
      using less(3) f(3,5) decode_positions [OF f(2)] by fastforce
    then consider "ip = at" | "at + 5 \<le> ip1" "at + 5 \<le> ip" | "ip1 \<le> at" "\<exists>b arg. (at, b, arg) \<in> set js" by blast
    then show ?thesis
    proof cases
      case 1
      then have "at + 5 \<le> ip1" using f(4,5) w(1) by simp
      then have "decode (patched at new code) ip1 = Some (map (\<lambda>(p, b, arg). (p, b, if p = at then new else arg)) js)"
        using less(1) [OF smaller f(2)] by blast
      moreover have "fetch (patched at new code) ip = Some (c, new, ip1)"
        using fetch_patched [OF w, of new] 1 f(4,5) w(1) by simp
      ultimately show ?thesis using decode_step [of ip "patched at new code"] True len f(3) 1 by simp
    next
      case 2
      have "fetch (patched at new code) ip = fetch code ip"
        using f(4,6) 2 len by (intro fetch_same) (auto intro!: same)
      moreover have "decode (patched at new code) ip1 = Some (map (\<lambda>(p, b, arg). (p, b, if p = at then new else arg)) js)"
        using less(1) [OF smaller f(2)] 2 by blast
      ultimately show ?thesis using decode_step [of ip "patched at new code"] True len f(1,3) 2 by simp
    next
      case 3
      have "fetch (patched at new code) ip = fetch code ip"
        using f(4-6) 3(1) len by (intro fetch_same) (auto intro!: same)
      moreover have "decode (patched at new code) ip1 = Some (map (\<lambda>(p, b, arg). (p, b, if p = at then new else arg)) js)"
        using less(1) [OF smaller f(2)] 3 by blast
      ultimately show ?thesis using decode_step [of ip "patched at new code"] True len f(1,3,5) 3(1) by simp
    qed
  qed
qed

text \<open>
  C35. Patching a jump changes that jump only: when the unit decodes and has an instruction with a
  four-byte operand at the offset, \<open>patch32\<close> does not panic, and the patched unit decodes to the
  same instructions at the same offsets, this one with the new operand.
\<close>

theorem patch_changes_one_operand:
  assumes "decode (chunkCode c) 0 = Some is" "(at, b, old) \<in> set is" "Width b = 4"
  shows "\<exists>c'. patch32 at new c = Some c' \<and>
    decode (chunkCode c') 0 = Some (map (\<lambda>(p, b, arg). (p, b, if p = at then new else arg)) is)"
proof -
  have p: "at + 4 < length (chunkCode c)" "b = chunkCode c ! at"
    using decode_positions [OF assms(1,2)] assms(3) by auto
  then have "decode (patched at new (chunkCode c)) 0 = Some (map (\<lambda>(p, b, arg). (p, b, if p = at then new else arg)) is)"
    using decode_patched [OF _ p(1) assms(1)] assms(2,3) by blast
  then show ?thesis using p(1) by (simp add: patch32_def patched_def)
qed

theorem patch_changes_one_operand_witness:
  "\<exists>c'. patch32 1 7 ((NewChunk [])\<lparr>chunkCode := [OpPop, OpJump, 0, 0, 0, 0, OpReturn]\<rparr>) = Some c'
    \<and> decode (chunkCode c') 0 = Some [(0, OpPop, 0), (1, OpJump, 7), (6, OpReturn, 0)]"
proof -
  have d: "decode (chunkCode ((NewChunk [])\<lparr>chunkCode := [OpPop, OpJump, 0, 0, 0, 0, OpReturn]\<rparr>)) 0
      = Some [(0, OpPop, 0), (1, OpJump, 0), (6, OpReturn, 0)]" by code_simp
  have w: "Width OpJump = 4" by code_simp
  from patch_changes_one_operand [OF d _ w, of 1 0 7] show ?thesis by simp
qed

section \<open>Constants\<close>

lemma sameConst_refl: "sameConst h k k"
  by (cases k) simp_all

lemma sameConst_sym: "sameConst h k l = sameConst h l k"
  by (cases k; cases l) auto

lemma findConst_spec:
  "findConst h k i es = Some j \<Longrightarrow> i \<le> j \<and> j < i + length es \<and> sameConst h (es ! (j - i)) k"
  "findConst h k i es = None \<Longrightarrow> e \<in> set es \<Longrightarrow> \<not> sameConst h e k"
proof (induction es arbitrary: i)
  case (Cons x es)
  { case 1
    then show ?case using Cons.IH(1) [of "Suc i"] by (fastforce split: if_splits simp: nth_Cons')
  next
    case 2
    then show ?case using Cons.IH(2) [of "Suc i"] by (auto split: if_splits) }
qed simp_all

text \<open>
  What a constant is: the bits of a number (so that the zeros differ and a NaN is one constant),
  the code units of a text whatever its storage, the identity of a function, the digits of an
  integer.
\<close>

datatype content = Bits u64 | Units "u16 list" | Unit nat | Digits int

fun constContent :: "store \<Rightarrow> const \<Rightarrow> content" where
  "constContent h (ConstNumber n) = Bits n"
| "constContent h (ConstString s) = Units (units h s)"
| "constContent h (ConstFunction f) = Unit f"
| "constContent h (ConstBigInt n) = Digits n"

lemma sameConst_content: "sameConst h k l \<longleftrightarrow> constContent h k = constContent h l"
  by (cases k; cases l) auto

text \<open>
  C37. Constants are shared by content.  While the table has fewer than \<open>2 ^ 32\<close> entries, the index
  that \<open>addConst\<close> returns is one of a constant of the same kind and content, the old constants
  keep their places, and no content gets two entries.
\<close>

theorem constants_shared:
  assumes "addConst h k c = (i, c')" "distinct (map (constContent h) (chunkConsts c))" "length (chunkConsts c) < 2 ^ 32"
  shows "unat i < length (chunkConsts c') \<and> constContent h (chunkConsts c' ! unat i) = constContent h k
    \<and> take (length (chunkConsts c)) (chunkConsts c') = chunkConsts c
    \<and> length (chunkConsts c') \<le> Suc (length (chunkConsts c)) \<and> distinct (map (constContent h) (chunkConsts c'))"
proof (cases "findConst h k 0 (chunkConsts c)")
  case None
  then have "i = word_of_nat (length (chunkConsts c))" "chunkConsts c' = chunkConsts c @ [k]"
    using assms(1) by (auto simp: addConst_def)
  moreover have "constContent h k \<notin> constContent h ` set (chunkConsts c)"
    using findConst_spec(2) [OF None] unfolding sameConst_content by (metis imageE)
  ultimately show ?thesis using assms(2,3) by (simp add: unat_of_nat)
next
  case (Some j)
  then have "i = word_of_nat j" "c' = c" using assms(1) by (auto simp: addConst_def)
  then show ?thesis using findConst_spec(1) [OF Some] assms(2,3) by (auto simp: unat_of_nat sameConst_content)
qed

theorem constants_shared_witness:
  "unat (fst (addConst demoStore (ConstString 2) ((NewChunk [])\<lparr>chunkConsts := [ConstNumber 2, ConstString 1, ConstBigInt 2]\<rparr>))) = 1
   \<and> constContent demoStore (chunkConsts (snd (addConst demoStore (ConstString 2)
        ((NewChunk [])\<lparr>chunkConsts := [ConstNumber 2, ConstString 1, ConstBigInt 2]\<rparr>))) ! 1) = Units [97, 98]"
proof -
  let ?c = "(NewChunk [])\<lparr>chunkConsts := [ConstNumber 2, ConstString 1, ConstBigInt 2]\<rparr>"
  have d: "distinct (map (constContent demoStore) (chunkConsts ?c))" by simp
  have a: "addConst demoStore (ConstString 2) ?c = (1, ?c)"
    by (simp add: addConst_def demoStore_units demoStore_units [simplified])
  from constants_shared [OF a d] show ?thesis
    unfolding a fst_conv snd_conv by (simp add: demoStore_units demoStore_units [simplified])
qed

section \<open>Reusable frames\<close>

text \<open>
  The instructions whose effect does not end with the frame: they suspend it, bind a name outside
  it, need the home object or the prototype of a class, call iterators or copy properties, remove
  a property, or stop the machine.
\<close>

definition beyondFrame :: "op list" where
  "beyondFrame =
     [OpYield, OpAwait] @ [OpSetGlobal, OpDefGlobal, OpExport]
     @ [OpSuperGet, OpSuperCall, OpSuperCallSpread, OpSetHomeObject, OpSetProto, OpDefAccessor]
     @ [OpGetIterator, OpArraySlice, OpArrayPush, OpArraySpread, OpObjectRest, OpObjectAssign,
        OpCallSpread, OpCallSpreadThis, OpNewSpread]
     @ [OpDelete, OpHalt]"

text \<open>
  An instruction that stays in the frame: one of the enumeration, not one of these, and a local
  variable is one of depth zero that exists.
\<close>

definition inFrame :: "chunk \<Rightarrow> op \<Rightarrow> u32 \<Rightarrow> bool" where
  "inFrame c b arg \<longleftrightarrow> b \<le> OpSetHomeObject \<and> b \<notin> set beyondFrame
     \<and> (b = OpGetLocal \<or> b = OpSetLocal \<longrightarrow> arg < 2 ^ 16 \<and> uint arg < chunkLocals c)"

text \<open>The enumeration falls into three parts; by number, since it is dense.\<close>

lemma plainOps_numbers: "b \<in> set plainOps \<longleftrightarrow> unat b \<in> {0, 1, 2, 3, 4, 5, 6, 7, 8, 9, 10, 11, 12, 13, 14, 15, 16, 17, 18, 19, 20, 21, 22, 23,
     24, 25, 26, 27, 28, 29, 30, 31, 32, 33, 34, 35, 36, 46, 65, 49, 50, 51, 52, 53, 54, 55, 56, 57,
     58, 59, 60, 61, 74, 62, 63}"
proof -
  have ops: "plainOps = [0, 1, 2, 3, 4, 5, 6, 7, 8, 9, 10, 11, 12, 13, 14, 15, 16, 17, 18, 19, 20, 21, 22, 23,
     24, 25, 26, 27, 28, 29, 30, 31, 32, 33, 34, 35, 36, 46, 65, 49, 50, 51, 52, 53, 54, 55, 56, 57,
     58, 59, 60, 61, 74, 62, 63]" by code_simp
  show ?thesis unfolding ops by (simp add: word_unat_eq_iff)
qed

lemma beyondFrame_numbers: "b \<in> set beyondFrame \<longleftrightarrow> unat b \<in> {66, 69, 47, 48, 77, 70, 72, 75, 78, 73, 68, 67, 37, 38, 39, 40, 43, 41, 42, 76, 71, 64}"
proof -
  have ops: "beyondFrame = [66, 69, 47, 48, 77, 70, 72, 75, 78, 73, 68, 67, 37, 38, 39, 40, 43, 41, 42, 76, 71, 64]" by code_simp
  show ?thesis unfolding ops by (simp add: word_unat_eq_iff)
qed

lemma numbers_partition:
  "n \<le> 78 \<and> n \<notin> {66, 69, 47, 48, 77, 70, 72, 75, 78, 73, 68, 67, 37, 38, 39, 40, 43, 41, 42, 76, 71, 64} \<longleftrightarrow>
   n = 44 \<or> n = 45 \<or> n \<in> {0, 1, 2, 3, 4, 5, 6, 7, 8, 9, 10, 11, 12, 13, 14, 15, 16, 17, 18, 19, 20, 21, 22, 23,
     24, 25, 26, 27, 28, 29, 30, 31, 32, 33, 34, 35, 36, 46, 65, 49, 50, 51, 52, 53, 54, 55, 56, 57,
     58, 59, 60, 61, 74, 62, 63}" for n :: nat
proof (cases "n < 79")
  case True
  then have "n \<in> set [0 ..< 79]" by simp
  then show ?thesis unfolding upt_rec_numeral by simp presburger
qed auto

lemma ops_partition:
  "b \<le> OpSetHomeObject \<and> b \<notin> set beyondFrame \<longleftrightarrow> b = OpGetLocal \<or> b = OpSetLocal \<or> b \<in> set plainOps"
  unfolding plainOps_numbers beyondFrame_numbers using numbers_partition [of "unat b"]
  by (simp add: OpSetHomeObject_def OpGetLocal_def OpSetLocal_def word_le_nat_alt word_unat_eq_iff)

lemma Width_locals: "Width OpGetLocal = 4" "Width OpSetLocal = 4"
  by code_simp+

lemma locals_plain: "OpGetLocal \<notin> set plainOps" "OpSetLocal \<notin> set plainOps"
  by code_simp+

lemma low_half: "drop_bit 16 arg = 0 \<longleftrightarrow> arg < 2 ^ 16" "arg < 2 ^ 16 \<Longrightarrow> arg AND 0xffff = arg" for arg :: u32
proof -
  have "drop_bit 16 arg = 0 \<longleftrightarrow> unat arg div 2 ^ 16 = 0"
    by (simp add: word_unat_eq_iff unat_div drop_bit_eq_div)
  then show d: "drop_bit 16 arg = 0 \<longleftrightarrow> arg < 2 ^ 16" by (simp add: div_eq_0_iff word_less_nat_alt)
  show "arg AND 0xffff = arg" if "arg < 2 ^ 16"
    using take_bit_eq_self_iff_drop_bit_eq_0 [of 16 arg] d that take_bit_eq_mask [of 16 arg]
    by (simp add: mask_eq_exp_minus_1)
qed

lemma frameOpOk_inFrame:
  assumes "Width b = 4 \<Longrightarrow> arg = word32 operand"
  shows "frameOpOk c b operand \<longleftrightarrow> inFrame c b arg"
proof (cases "b = OpGetLocal \<or> b = OpSetLocal")
  case True
  then have "arg = word32 operand" "b \<le> OpSetHomeObject \<and> b \<notin> set beyondFrame"
    using assms Width_locals ops_partition [of b] by blast+
  moreover have "drop_bit 16 arg = 0 \<and> uint (arg AND 0xffff) < chunkLocals c \<longleftrightarrow> arg < 2 ^ 16 \<and> uint arg < chunkLocals c"
    using low_half [of arg] by metis
  ultimately show ?thesis using True by (simp only: frameOpOk_def inFrame_def Let_def if_P simp_thms)
next
  case False
  then show ?thesis using ops_partition [of b] unfolding frameOpOk_def inFrame_def if_not_P [OF False] by blast
qed

lemma bodyOk_decode:
  "bodyOk c ip \<longleftrightarrow> (\<exists>is. decode (chunkCode c) ip = Some is \<and> (\<forall>(p, b, arg) \<in> set is. inFrame c b arg))"
proof (induction c ip rule: bodyOk.induct)
  case (1 c ip)
  let ?code = "chunkCode c" and ?b = "chunkCode c ! ip"
  show ?case
  proof (cases "ip < length ?code")
    case False
    then show ?thesis by (simp add: decode.simps [of _ ip] bodyOk.simps [of c ip])
  next
    case True
    show ?thesis
    proof (cases "fetch ?code ip")
      case None
      then have "Width ?b > length ?code - ip - 1" using fetch_fits [OF True] True by auto
      then show ?thesis using None True by (simp add: decode.simps [of _ ip] bodyOk.simps [of c ip] Let_def)
    next
      case (Some r)
      then obtain arg where f: "fetch ?code ip = Some (?b, arg, ip + 1 + Width ?b)"
        using fetch_next [of ?code ip] by (cases r) auto
      have w: "\<not> Width ?b > length ?code - ip - 1" using fetch_fits [OF True] f True by auto
      have "Width ?b = 4 \<Longrightarrow> arg = word32 (drop (ip + 1) ?code)" using f by (auto simp: fetch_def Let_def split: if_splits)
      then have op: "frameOpOk c ?b (drop (ip + 1) ?code) \<longleftrightarrow> inFrame c ?b arg" by (rule frameOpOk_inFrame)
      have "bodyOk c ip \<longleftrightarrow> inFrame c ?b arg \<and> bodyOk c (ip + 1 + Width ?b)"
        using True w op by (subst bodyOk.simps) (simp add: Let_def)
      moreover have "decode ?code ip = map_option ((#) (ip, ?b, arg)) (decode ?code (ip + 1 + Width ?b))"
        using True f by (subst decode.simps) simp
      ultimately show ?thesis using 1 [OF _ refl refl] True w op by (auto simp: not_less)
    qed
  qed
qed

text \<open>
  C36. What the check of reusable frames accepts: exactly the units that are an ordinary function
  with no negative number of locals, without closures, without the string \<open>eval\<close>, without an arguments object or rest parameter and
  with no handler of an outer environment, and whose code is not empty and decodes from the start
  to the end without a fault into instructions that stay in the frame, that is none that suspends,
  binds outside, uses the class or spreads, and local slots of the frame itself that exist.
\<close>

theorem regular_frame_sound:
  "regularFrameBody h c \<longleftrightarrow>
     \<not> native c \<and> \<not> generator c \<and> \<not> async c \<and> \<not> arrow c \<and> argumentsSlot c < 0 \<and> restSlot c < 0 \<and> 0 \<le> chunkLocals c
     \<and> (\<forall>f. ConstFunction f \<notin> set (chunkConsts c))
     \<and> (\<forall>s. units h s = [101, 118, 97, 108] \<longrightarrow> ConstString s \<notin> set (chunkConsts c))
     \<and> (\<forall>x \<in> set (handlers c). hDepth x = 0)
     \<and> (\<exists>is. decode (chunkCode c) 0 = Some is \<and> is \<noteq> [] \<and> (\<forall>(p, b, arg) \<in> set is. inFrame c b arg))"
proof -
  have ev: "evalText = [101, 118, 97, 108]" by code_simp
  have k: "constOk h k \<longleftrightarrow> (\<forall>f. k \<noteq> ConstFunction f) \<and> (\<forall>s. units h s = [101, 118, 97, 108] \<longrightarrow> k \<noteq> ConstString s)" for k
    by (cases k) (auto simp: ev)
  have ks: "list_all (constOk h) (chunkConsts c) \<longleftrightarrow> (\<forall>f. ConstFunction f \<notin> set (chunkConsts c))
      \<and> (\<forall>s. units h s = [101, 118, 97, 108] \<longrightarrow> ConstString s \<notin> set (chunkConsts c))"
    unfolding list_all_iff k by blast
  have ne: "is = [] \<longleftrightarrow> chunkCode c = []" if "decode (chunkCode c) 0 = Some is" for "is"
    using that by (auto simp: decode.simps [of _ 0] split: option.splits if_splits)
  show ?thesis
    unfolding regularFrameBody_def bodyOk_decode ks unfolding list_all_iff using ne by (auto simp: not_less not_le)
qed

theorem regular_frame_sound_witness:
  "regularFrameBody [] ((NewChunk [])\<lparr>chunkCode := [OpGetLocal, 0, 0, 0, 0, OpReturn], chunkLocals := 1\<rparr>)
   \<and> \<not> regularFrameBody [] ((NewChunk [])\<lparr>chunkCode := [OpGetLocal, 0, 0, 0, 0, OpYield, 0, 0], chunkLocals := 1\<rparr>)"
proof
  have d: "decode [OpGetLocal, 0, 0, 0, 0, OpReturn] 0 = Some [(0, OpGetLocal, 0), (5, OpReturn, 0)]" by code_simp
  have i: "inFrame c OpReturn 0" "chunkLocals c = 1 \<Longrightarrow> inFrame c OpGetLocal 0" "\<not> inFrame c OpYield a" for c a
  proof -
    have "OpReturn \<le> OpSetHomeObject" "OpReturn \<notin> set beyondFrame" "OpReturn \<noteq> OpGetLocal" "OpReturn \<noteq> OpSetLocal"
      "OpGetLocal \<le> OpSetHomeObject" "OpGetLocal \<notin> set beyondFrame" "OpYield \<in> set beyondFrame"
      by code_simp+
    then show "inFrame c OpReturn 0" "chunkLocals c = 1 \<Longrightarrow> inFrame c OpGetLocal 0" "\<not> inFrame c OpYield a"
      by (simp_all add: inFrame_def)
  qed
  show "regularFrameBody [] ((NewChunk [])\<lparr>chunkCode := [OpGetLocal, 0, 0, 0, 0, OpReturn], chunkLocals := 1\<rparr>)"
    unfolding regular_frame_sound by (simp add: d i NewChunk_def)
  have d: "decode [OpGetLocal, 0, 0, 0, 0, OpYield, 0, 0] 0 = Some [(0, OpGetLocal, 0), (5, OpYield, 0)]" by code_simp
  show "\<not> regularFrameBody [] ((NewChunk [])\<lparr>chunkCode := [OpGetLocal, 0, 0, 0, 0, OpYield, 0, 0], chunkLocals := 1\<rparr>)"
    unfolding regular_frame_sound by (simp add: d i)
qed

end
