(* ===== verification/Lexer.thy ===== *)
theory Lexer
  imports GoText
begin

text \<open>
  The scanner, \<open>pkg/js55/lexer\<close>: tokens, the cursor over the source bytes, one function per
  scanning routine and the entry points of the parser (\<open>Next\<close>, \<open>NextTemplateContinuation\<close>,
  \<open>Save\<close>, \<open>Restore\<close>, \<open>SeekTo\<close>).  The loops recurse on the bytes that are left.

  The Unicode tables (\<open>unicode.Zs\<close>, the identifier categories) are the record \<open>utab\<close> of
  \<open>GoText\<close>, an argument of the scanners; ASCII is decided by the code.  The categories of
  identifier parts are those of identifier starts (\<open>isIdStartTab\<close>) and the ones the code lists
  beyond them (\<open>isIdContTab\<close>).  The messages of
  illegal tokens are the constructors of \<open>lexMsg\<close>.
\<close>

section \<open>Tokens\<close>

datatype (plugins only: code size) tkind = EOFT | IllegalT
  | IdentT | PrivateIdentT | KeywordT | NumberT | BigIntT | StringT
  | TemplateHeadT | TemplateMiddleT | TemplateTailT | NoSubTemplateT | RegexpT
  | LBraceT | RBraceT | LParenT | RParenT | LBracketT | RBracketT | DotT | EllipsisT
  | SemicolonT | CommaT | ColonT | QuestionT | QuestionDotT | QuestionQuestionT
  | QuestionQuestionAssignT | ArrowT
  | LtT | GtT | LeT | GeT | EqEqT | NotEqT | EqEqEqT | NotEqEqT
  | PlusT | MinusT | StarT | SlashT | PercentT | StarStarT | PlusPlusT | MinusMinusT
  | ShlT | ShrT | UShrT
  | AndT | OrT | XorT | NotT | TildeT | AndAndT | OrOrT
  | AssignT | PlusAssignT | MinusAssignT | StarAssignT | SlashAssignT | PercentAssignT
  | StarStarAssignT | ShlAssignT | ShrAssignT | UShrAssignT | AndAssignT | OrAssignT
  | XorAssignT | AndAndAssignT | OrOrAssignT

datatype lexMsg = NoMsg | UnclosedComment | NoProgress | BraceExpected | BadIdentUnicodeEscape
  | BadIdentEscape | PrivateWithoutName | BadPrivateUnicodeEscape | BadPrivateEscape
  | IdentAfterNumber | UnclosedString | UnclosedStringEscape | NewlineInString
  | UnclosedTemplate | UnclosedRegexp | UnexpectedChar

record position =
  posOffset :: nat
  posLine :: nat
  posCol :: nat

record token =
  tKind :: tkind
  tPos :: position
  tValue :: gostring
  tNewlineBefore :: bool
  tMessage :: lexMsg

text \<open>A token literal; the fields a literal leaves unnamed are zero.\<close>

definition mkTok :: "tkind \<Rightarrow> position \<Rightarrow> gostring \<Rightarrow> lexMsg \<Rightarrow> token" where
  "mkTok k p v m = \<lparr>tKind = k, tPos = p, tValue = v, tNewlineBefore = False, tMessage = m\<rparr>"

definition keywordTable :: "gostring list" where
  "keywordTable = map ascii
    [''await'', ''break'', ''case'', ''catch'', ''class'', ''const'', ''continue'', ''debugger'',
     ''default'', ''delete'', ''do'', ''else'', ''enum'', ''export'', ''extends'', ''false'',
     ''finally'', ''for'', ''function'', ''if'', ''import'', ''in'', ''instanceof'', ''new'',
     ''null'', ''return'', ''super'', ''switch'', ''this'', ''throw'', ''true'', ''try'',
     ''typeof'', ''var'', ''void'', ''while'', ''with'', ''yield'', ''let'', ''static'',
     ''implements'', ''interface'', ''package'', ''private'', ''protected'', ''public'']"

definition IsKeyword :: "gostring \<Rightarrow> bool" where
  "IsKeyword s \<longleftrightarrow> s \<in> set keywordTable"

section \<open>The cursor\<close>

record lexer =
  lsrc :: gostring
  loff :: nat
  lline :: nat
  lcol :: nat
  newlineBefore :: bool

text \<open>The rune of an ASCII character literal.\<close>

definition rn :: "char \<Rightarrow> rune" where "rn c = of_char c"

definition eofRune :: rune where "eofRune = - 1"

definition Pos :: "lexer \<Rightarrow> position" where
  "Pos l = \<lparr>posOffset = loff l, posLine = lline l, posCol = lcol l\<rparr>"

definition peek :: "lexer \<Rightarrow> rune \<times> nat" where
  "peek l =
     (if loff l \<ge> length (lsrc l) then (eofRune, 0)
      else
        let c = lsrc l ! loff l
        in if uint c < 0x80 then (uint c, 1) else decodeRune (drop (loff l) (lsrc l)))"

definition peekR :: "lexer \<Rightarrow> rune" where
  "peekR l = fst (peek l)"

definition peekAt :: "nat \<Rightarrow> lexer \<Rightarrow> byte" where
  "peekAt n l = (if loff l + n \<ge> length (lsrc l) then 0 else lsrc l ! (loff l + n))"

definition isLineTerminator :: "rune \<Rightarrow> bool" where
  "isLineTerminator r \<longleftrightarrow> r = 0xA \<or> r = 0xD \<or> r = 0x2028 \<or> r = 0x2029"

definition isWhitespace :: "utab \<Rightarrow> rune \<Rightarrow> bool" where
  "isWhitespace u r \<longleftrightarrow> r \<in> {0x9, 0xB, 0xC, 0x20, 0xA0, 0xFEFF} \<or> (r > 0x7F \<and> isZs u r)"

definition asciiIdent :: "rune \<Rightarrow> bool" where
  "asciiIdent r \<longleftrightarrow> r = rn CHR ''$'' \<or> r = rn CHR ''_''
     \<or> (rn CHR ''a'' \<le> r \<and> r \<le> rn CHR ''z'') \<or> (rn CHR ''A'' \<le> r \<and> r \<le> rn CHR ''Z'')"

definition isIdentStart :: "utab \<Rightarrow> rune \<Rightarrow> bool" where
  "isIdentStart u r = (if r < 0x80 then asciiIdent r else isIdStartTab u r)"

definition isIdentPart :: "utab \<Rightarrow> rune \<Rightarrow> bool" where
  "isIdentPart u r =
     (if r < 0x80 then asciiIdent r \<or> (rn CHR ''0'' \<le> r \<and> r \<le> rn CHR ''9'')
      else r = 0x200C \<or> r = 0x200D \<or> isIdStartTab u r \<or> isIdContTab u r)"

definition isDecimal :: "byte \<Rightarrow> bool" where
  "isDecimal c \<longleftrightarrow> bt CHR ''0'' \<le> c \<and> c \<le> bt CHR ''9''"

definition isHex :: "byte \<Rightarrow> bool" where
  "isHex c \<longleftrightarrow> isDecimal c \<or> (bt CHR ''a'' \<le> c \<and> c \<le> bt CHR ''f'')
     \<or> (bt CHR ''A'' \<le> c \<and> c \<le> bt CHR ''F'')"

definition advance :: "lexer \<Rightarrow> lexer" where
  "advance l =
     (case peek l of (r, w) \<Rightarrow>
        if r = eofRune then l
        else if isLineTerminator r then l\<lparr>loff := loff l + w, lline := lline l + 1, lcol := 1\<rparr>
        else if r > 0xFFFF then l\<lparr>loff := loff l + w, lcol := lcol l + 2\<rparr>
        else l\<lparr>loff := loff l + w, lcol := lcol l + 1\<rparr>)"

text \<open>The text between a token's start and the cursor.\<close>

definition tokText :: "position \<Rightarrow> lexer \<Rightarrow> gostring" where
  "tokText p l = gosub (lsrc l) (posOffset p) (loff l)"

definition illegal :: "position \<Rightarrow> lexMsg \<Rightarrow> lexer \<Rightarrow> token \<times> lexer" where
  "illegal p m l = (mkTok IllegalT p (tokText p l) m, l)"

section \<open>Progress of the cursor\<close>

definition bytesLeft :: "lexer \<Rightarrow> nat" where
  "bytesLeft l = length (lsrc l) - loff l"

lemma decodeRune_nonneg: "0 \<le> fst (decodeRune s)"
proof (induction s rule: decodeRune.induct)
  case (2 b0 bs)
  show ?case
    by (auto simp: Let_def runeError_def isCont_def contBits_def not_less split: list.splits)
qed (simp add: runeError_def)

lemma peek_spec:
  "loff l < length (lsrc l) \<Longrightarrow> 0 \<le> peekR l \<and> 0 < snd (peek l) \<and> loff l + snd (peek l) \<le> length (lsrc l)"
  "loff l \<ge> length (lsrc l) \<Longrightarrow> peek l = (eofRune, 0)"
  using decodeRune_width [of "drop (loff l) (lsrc l)"] decodeRune_nonneg [of "drop (loff l) (lsrc l)"]
  by (auto simp: peek_def peekR_def Let_def)

lemma peekR_eof: "peekR l = eofRune \<longleftrightarrow> loff l \<ge> length (lsrc l)"
  using peek_spec [of l] by (cases "loff l < length (lsrc l)") (auto simp: peekR_def eofRune_def)

lemma advance_off: "loff (advance l) = loff l + snd (peek l)"
  using peek_spec(2) [of l] peekR_eof [of l]
  by (auto simp: advance_def peekR_def split: prod.splits)

lemma advance_src [simp]: "lsrc (advance l) = lsrc l"
  by (simp add: advance_def split: prod.splits)

lemma advance_newline [simp]: "newlineBefore (advance l) = newlineBefore l"
  by (simp add: advance_def split: prod.splits)

lemma left_advance: "peekR l \<noteq> eofRune \<Longrightarrow> bytesLeft (advance l) < bytesLeft l"
  using peek_spec(1) [of l] unfolding peekR_eof bytesLeft_def advance_off advance_src by linarith

lemma left_advance_le: "bytesLeft (advance l) \<le> bytesLeft l"
  by (simp add: bytesLeft_def advance_off)

lemma peek_newline [simp]:
  "peek (l\<lparr>newlineBefore := b\<rparr>) = peek l" "peekR (l\<lparr>newlineBefore := b\<rparr>) = peekR l"
  "bytesLeft (l\<lparr>newlineBefore := b\<rparr>) = bytesLeft l"
  by (simp_all add: peek_def peekR_def bytesLeft_def Let_def)

lemma advance_newline_upd [simp]:
  "advance (l\<lparr>newlineBefore := b\<rparr>) = (advance l)\<lparr>newlineBefore := b\<rparr>"
  "peekAt n (l\<lparr>newlineBefore := b\<rparr>) = peekAt n l"
  by (simp_all add: advance_def peekAt_def split: prod.splits)

text \<open>Loops that consume runes while a test holds (comments, hashbang, flags, glued names).\<close>

function advanceWhile :: "(rune \<Rightarrow> bool) \<Rightarrow> lexer \<Rightarrow> lexer" where
  "advanceWhile P l =
     (if peekR l = eofRune \<or> \<not> P (peekR l) then l else advanceWhile P (advance l))"
  by pat_completeness auto
termination by (relation "measure (\<lambda>(P, l). bytesLeft l)") (auto intro: left_advance)

declare advanceWhile.simps [simp del]

lemma left_advanceWhile: "bytesLeft (advanceWhile P l) \<le> bytesLeft l"
proof (induction P l rule: advanceWhile.induct)
  case (1 P l)
  then show ?case using left_advance_le [of l] by (subst advanceWhile.simps) auto
qed

section \<open>Space and comments\<close>

function blockLoop :: "lexer \<Rightarrow> bool \<times> lexer" where
  "blockLoop l =
     (let c = peekR l in
      if c = eofRune then (False, l)
      else
        let l1 = (if isLineTerminator c then l\<lparr>newlineBefore := True\<rparr> else l)
        in if c = rn CHR ''*'' \<and> peekAt 1 l1 = bt CHR ''/'' then (True, advance (advance l1))
           else blockLoop (advance l1))"
  by pat_completeness auto
termination
proof (relation "measure bytesLeft")
  fix l :: lexer and c :: rune and l1 :: lexer
  assume "c = peekR l" "c \<noteq> eofRune" "l1 = (if isLineTerminator c then l\<lparr>newlineBefore := True\<rparr> else l)"
  then have "bytesLeft (advance l1) < bytesLeft l"
    by (cases "isLineTerminator c") (auto intro: left_advance)
  then show "(advance l1, l) \<in> measure bytesLeft" by simp
qed simp

declare blockLoop.simps [simp del]

lemma left_blockLoop: "bytesLeft (snd (blockLoop l)) \<le> bytesLeft l"
proof (induction l rule: blockLoop.induct)
  case (1 l)
  define l1 where "l1 = (if isLineTerminator (peekR l) then l\<lparr>newlineBefore := True\<rparr> else l)"
  have e: "bytesLeft (advance l1) = bytesLeft (advance l)"
    "bytesLeft (advance (advance l1)) = bytesLeft (advance (advance l))"
    by (simp_all add: l1_def)
  note IH = 1 [OF refl _ l1_def]
  have a: "bytesLeft (advance l) \<le> bytesLeft l" "bytesLeft (advance (advance l)) \<le> bytesLeft l"
    using left_advance_le [of l] left_advance_le [of "advance l"] by simp_all
  have "blockLoop l = (if peekR l = eofRune then (False, l)
      else if peekR l = rn CHR ''*'' \<and> peekAt 1 l1 = bt CHR ''/'' then (True, advance (advance l1))
      else blockLoop (advance l1))"
    by (subst blockLoop.simps) (simp only: Let_def l1_def)
  then show ?case using IH a by (auto simp: e)
qed

function skipSpace :: "utab \<Rightarrow> lexer \<Rightarrow> token option \<times> lexer" where
  "skipSpace u l =
     (let r = peekR l in
      if r = eofRune then (None, l)
      else if isLineTerminator r then skipSpace u (advance (l\<lparr>newlineBefore := True\<rparr>))
      else if isWhitespace u r then skipSpace u (advance l)
      else if r = rn CHR ''/'' \<and> peekAt 1 l = bt CHR ''/'' then
        skipSpace u (advanceWhile (\<lambda>c. \<not> isLineTerminator c) (advance (advance l)))
      else if r = rn CHR ''/'' \<and> peekAt 1 l = bt CHR ''*'' then
        (case blockLoop (advance (advance l)) of
           (closed, l2) \<Rightarrow>
             if closed then skipSpace u l2
             else (Some (mkTok IllegalT (Pos l) (tokText (Pos l) l2) UnclosedComment), l2))
      else (None, l))"
  by pat_completeness auto
termination
proof (relation "measure (\<lambda>(u, l). bytesLeft l)")
  fix u l r
  assume r: "r = peekR l" "r \<noteq> eofRune"
  then have a: "bytesLeft (advance l) < bytesLeft l" by (auto intro: left_advance)
  have aa: "bytesLeft (advance (advance l)) < bytesLeft l"
    using a left_advance_le [of "advance l"] by simp
  show "((u, advance (l\<lparr>newlineBefore := True\<rparr>)), u, l) \<in> measure (\<lambda>(u, l). bytesLeft l)"
    using left_advance [of "l\<lparr>newlineBefore := True\<rparr>"] r by simp
  show "((u, advance l), u, l) \<in> measure (\<lambda>(u, l). bytesLeft l)" using a by simp
  show "((u, advanceWhile (\<lambda>c. \<not> isLineTerminator c) (advance (advance l))), u, l)
      \<in> measure (\<lambda>(u, l). bytesLeft l)"
    using aa left_advanceWhile [of "\<lambda>c. \<not> isLineTerminator c" "advance (advance l)"] by simp
  show "((u, l2), u, l) \<in> measure (\<lambda>(u, l). bytesLeft l)"
    if "(closed, l2) = blockLoop (advance (advance l))" for closed l2
    using aa left_blockLoop [of "advance (advance l)"] that [symmetric] by simp
qed simp

declare skipSpace.simps [simp del]

section \<open>Identifiers\<close>

definition hexVal :: "byte \<Rightarrow> nat" where
  "hexVal c =
     (if bt CHR ''0'' \<le> c \<and> c \<le> bt CHR ''9'' then unat (c - bt CHR ''0'')
      else if bt CHR ''a'' \<le> c \<and> c \<le> bt CHR ''f'' then unat (c - bt CHR ''a'') + 10
      else unat (c - bt CHR ''A'') + 10)"

text \<open>A rune the hex loops accept; the conversion to a byte truncates.\<close>

definition hexRune :: "rune \<Rightarrow> bool" where
  "hexRune c \<longleftrightarrow> c \<noteq> eofRune \<and> c \<le> 0x7F \<and> isHex (word_of_int c)"

text \<open>The digits of \<open>\u{...}\<close>: their number, the code point (saturated) and the cursor.\<close>

function bracedHex :: "nat \<Rightarrow> u32 \<Rightarrow> lexer \<Rightarrow> nat \<times> u32 \<times> lexer" where
  "bracedHex n cp l =
     (if \<not> hexRune (peekR l) then (n, cp, l)
      else
        let c1 = cp * 16 + word_of_nat (hexVal (word_of_int (peekR l)));
            c2 = (if c1 > 0x10FFFF then 0x110000 else c1)
        in bracedHex (n + 1) c2 (advance l))"
  by pat_completeness auto
termination
  by (relation "measure (\<lambda>(n, cp, l). bytesLeft l)") (auto simp: hexRune_def intro: left_advance)

declare bracedHex.simps [simp del]

fun fourHex :: "nat \<Rightarrow> lexer \<Rightarrow> bool \<times> lexer" where
  "fourHex 0 l = (True, l)"
| "fourHex (Suc i) l = (if hexRune (peekR l) then fourHex i (advance l) else (False, l))"

definition scanUnicodeEscapeTail :: "lexer \<Rightarrow> bool \<times> lexer" where
  "scanUnicodeEscapeTail l =
     (if peekR l = rn CHR ''{'' then
        (case bracedHex 0 0 (advance l) of
           (n, cp, l1) \<Rightarrow>
             if n = 0 \<or> cp > 0x10FFFF then (False, l1)
             else if peekR l1 \<noteq> rn CHR ''}'' then (False, l1)
             else (True, advance l1))
      else fourHex 4 l)"

lemma rn_not_eof [simp]: "rn c \<noteq> eofRune"
proof -
  have "0 \<le> (of_char c :: int)" by (cases c) (auto simp: of_bool_def)
  then show ?thesis by (simp add: rn_def eofRune_def)
qed

lemma hexRune_not_eof: "hexRune (peekR l) \<Longrightarrow> peekR l \<noteq> eofRune"
  by (simp add: hexRune_def)

lemma left_bracedHex: "bracedHex n cp l = (n', cp', l') \<Longrightarrow> bytesLeft l' \<le> bytesLeft l"
proof (induction n cp l arbitrary: n' cp' l' rule: bracedHex.induct)
  case (1 n cp l)
  show ?case
  proof (cases "hexRune (peekR l)")
    case True
    then show ?thesis
      using 1(1) [OF _ refl refl, of n' cp' l'] 1(2) left_advance_le [of l] by (simp add: bracedHex.simps [of n cp l] Let_def)
  qed (use 1(2) in \<open>simp add: bracedHex.simps [of n cp l]\<close>)
qed

lemma left_fourHex: "bytesLeft (snd (fourHex n l)) \<le> bytesLeft l"
proof (induction n l rule: fourHex.induct)
  case (2 i l)
  then show ?case using left_advance_le [of l] by auto
qed simp

lemma left_escapeTail: "bytesLeft (snd (scanUnicodeEscapeTail l)) \<le> bytesLeft l"
proof -
  obtain n cp l1 where b: "bracedHex 0 0 (advance l) = (n, cp, l1)" by (cases "bracedHex 0 0 (advance l)")
  then have "bytesLeft l1 \<le> bytesLeft l" using left_bracedHex [OF b] left_advance_le [of l] by simp
  then show ?thesis
    using left_advance_le [of l1] left_fourHex [of 4 l] b
    by (auto simp: scanUnicodeEscapeTail_def simp del: fourHex.simps)
qed

text \<open>
  The loop of \<open>scanIdent\<close> and \<open>scanPrivateIdent\<close>; \<open>mu\<close> and \<open>me\<close> are the messages of the
  two ways an escape can be malformed.
\<close>

function identLoop :: "utab \<Rightarrow> lexMsg \<Rightarrow> lexMsg \<Rightarrow> lexer \<Rightarrow> lexMsg \<times> lexer" where
  "identLoop u mu me l =
     (if peekR l = rn CHR 0x5C then
        let l1 = advance l in
        if peekR l1 = rn CHR ''u'' then
          (case scanUnicodeEscapeTail (advance l1) of
             (ok, l2) \<Rightarrow> if ok then identLoop u mu me l2 else (mu, l2))
        else (me, l1)
      else if peekR l = eofRune \<or> \<not> isIdentPart u (peekR l) then (NoMsg, l)
      else identLoop u mu me (advance l))"
  by pat_completeness auto
termination
proof (relation "measure (\<lambda>(u, mu, me, l). bytesLeft l)")
  fix u mu me l l1 ok l2
  assume "peekR l = rn CHR 0x5C" "l1 = advance l" "(ok, l2) = scanUnicodeEscapeTail (advance l1)"
  then show "((u, mu, me, l2), u, mu, me, l) \<in> measure (\<lambda>(u, mu, me, l). bytesLeft l)"
    using left_advance [of l] left_advance_le [of l1] left_escapeTail [of "advance l1"] by (simp add: prod_eq_iff)
qed (auto intro: left_advance)

declare identLoop.simps [simp del]

definition scanIdent :: "utab \<Rightarrow> position \<Rightarrow> lexer \<Rightarrow> token \<times> lexer" where
  "scanIdent u start l =
     (case identLoop u BadIdentUnicodeEscape BadIdentEscape l of
        (m, l1) \<Rightarrow>
          if m \<noteq> NoMsg then illegal start m l1
          else
            let v = tokText start l1;
                k = (if bt CHR 0x5C \<notin> set v \<and> IsKeyword v then KeywordT else IdentT)
            in (mkTok k start v NoMsg, l1))"

definition scanPrivateIdent :: "utab \<Rightarrow> position \<Rightarrow> lexer \<Rightarrow> token \<times> lexer" where
  "scanPrivateIdent u start l =
     (let l1 = advance l; r = peekR l1 in
      if r = eofRune \<or> (\<not> isIdentStart u r \<and> r \<noteq> rn CHR 0x5C) then illegal start PrivateWithoutName l1
      else
        (case identLoop u BadPrivateUnicodeEscape BadPrivateEscape l1 of
           (m, l2) \<Rightarrow>
             if m \<noteq> NoMsg then illegal start m l2
             else (mkTok PrivateIdentT start (tokText start l2) NoMsg, l2)))"

section \<open>Numbers\<close>

text \<open>
  The closure \<open>digits\<close> of \<open>scanNumber\<close>: the rune is converted to a byte before it is compared
  with the separator, and before the test for ASCII.
\<close>

function digits :: "(byte \<Rightarrow> bool) \<Rightarrow> lexer \<Rightarrow> lexer" where
  "digits pred l =
     (let c = peekR l in
      if c = eofRune then l
      else if (word_of_int c :: byte) = bt CHR ''_'' then digits pred (advance l)
      else if c > 0x7F \<or> \<not> pred (word_of_int c) then l
      else digits pred (advance l))"
  by pat_completeness auto
termination by (relation "measure (\<lambda>(pred, l). bytesLeft l)") (auto intro: left_advance)

declare digits.simps [simp del]

definition isDecimalRune :: "rune \<Rightarrow> bool" where
  "isDecimalRune c \<longleftrightarrow> c \<noteq> eofRune \<and> c < 0x80 \<and> isDecimal (word_of_int c)"

text \<open>A fraction and an exponent, if they follow; an empty exponent is given back.\<close>

definition scanFraction :: "lexer \<Rightarrow> lexer" where
  "scanFraction l =
     (let l1 = (if peekR l = rn CHR ''.'' then digits isDecimal (advance l) else l) in
      if peekR l1 = rn CHR ''e'' \<or> peekR l1 = rn CHR ''E'' then
        let l2 = advance l1;
            l3 = (if peekR l2 = rn CHR ''+'' \<or> peekR l2 = rn CHR ''-'' then advance l2 else l2)
        in if isDecimalRune (peekR l3) then digits isDecimal l3
           else l3\<lparr>loff := loff l1, lline := lline l1, lcol := lcol l1\<rparr>
      else l1)"

text \<open>Everything before the label \<open>suffix\<close>.\<close>

definition scanDigits :: "lexer \<Rightarrow> lexer" where
  "scanDigits l =
     (if peekR l = rn CHR ''0'' then
        let l1 = advance l; c = peekAt 0 l1 in
        if c = bt CHR ''x'' \<or> c = bt CHR ''X'' then digits isHex (advance l1)
        else if c = bt CHR ''o'' \<or> c = bt CHR ''O'' then
          digits (\<lambda>b. bt CHR ''0'' \<le> b \<and> b \<le> bt CHR ''7'') (advance l1)
        else if c = bt CHR ''b'' \<or> c = bt CHR ''B'' then
          digits (\<lambda>b. b = bt CHR ''0'' \<or> b = bt CHR ''1'') (advance l1)
        else scanFraction (digits isDecimal l1)
      else scanFraction (digits isDecimal l))"

definition scanNumber :: "utab \<Rightarrow> position \<Rightarrow> lexer \<Rightarrow> token \<times> lexer" where
  "scanNumber u start l =
     (let l1 = scanDigits l;
          isBig = (peekR l1 = rn CHR ''n'');
          l2 = (if isBig then advance l1 else l1);
          c = peekR l2
      in if c \<noteq> eofRune \<and> (isIdentStart u c \<or> isDecimalRune c)
         then illegal start IdentAfterNumber (advanceWhile (isIdentPart u) l2)
         else (mkTok (if isBig then BigIntT else NumberT) start (tokText start l2) NoMsg, l2))"

section \<open>Strings, templates and regular expressions\<close>

function stringLoop :: "position \<Rightarrow> rune \<Rightarrow> lexer \<Rightarrow> token \<times> lexer" where
  "stringLoop start quote l =
     (let r = peekR l in
      if r = eofRune then illegal start UnclosedString l
      else if r = quote then (mkTok StringT start (tokText start (advance l)) NoMsg, advance l)
      else if r = rn CHR 0x5C then
        let l1 = advance l; c = peekR l1 in
        if c = eofRune then illegal start UnclosedStringEscape l1
        else
          let l2 = (if c = 0xD \<and> peekAt 1 l1 = 0xA then advance l1 else l1)
          in stringLoop start quote (advance l2)
      else if r = 0xA \<or> r = 0xD then illegal start NewlineInString l
      else stringLoop start quote (advance l))"
  by pat_completeness auto
termination
proof (relation "measure (\<lambda>(start, quote, l). bytesLeft l)")
  fix start quote l r l1 c l2
  assume "r = peekR l" "r \<noteq> eofRune" "l1 = advance l" "l2 = (if c = 0xD \<and> peekAt 1 l1 = 0xA then advance l1 else l1)"
  then show "((start, quote, advance l2), start, quote, l) \<in> measure (\<lambda>(start, quote, l). bytesLeft l)"
    using left_advance [of l] left_advance_le [of l1] left_advance_le [of l2] by auto
qed (auto intro: left_advance)

declare stringLoop.simps [simp del]

definition scanString :: "position \<Rightarrow> rune \<Rightarrow> lexer \<Rightarrow> token \<times> lexer" where
  "scanString start quote l = stringLoop start quote (advance l)"

function templateLoop :: "position \<Rightarrow> bool \<Rightarrow> lexer \<Rightarrow> token \<times> lexer" where
  "templateLoop start head l =
     (let r = peekR l in
      if r = eofRune then illegal start UnclosedTemplate l
      else if r = rn CHR 0x60 then
        (mkTok (if head then NoSubTemplateT else TemplateTailT) start (tokText start (advance l)) NoMsg,
         advance l)
      else if r = rn CHR ''$'' \<and> peekAt 1 l = bt CHR ''{'' then
        let l2 = advance (advance l)
        in (mkTok (if head then TemplateHeadT else TemplateMiddleT) start (tokText start l2) NoMsg, l2)
      else if r = rn CHR 0x5C then
        let l1 = advance l
        in templateLoop start head (if peekR l1 \<noteq> eofRune then advance l1 else l1)
      else templateLoop start head (advance l))"
  by pat_completeness auto
termination
proof (relation "measure (\<lambda>(start, head, l). bytesLeft l)")
  fix start head l r l1
  assume "r = peekR l" "r \<noteq> eofRune" "l1 = advance l"
  then show "((start, head, if peekR l1 \<noteq> eofRune then advance l1 else l1), start, head, l)
      \<in> measure (\<lambda>(start, head, l). bytesLeft l)"
    using left_advance [of l] left_advance_le [of l1] by auto
qed (auto intro: left_advance)

declare templateLoop.simps [simp del]

definition scanTemplate :: "position \<Rightarrow> bool \<Rightarrow> lexer \<Rightarrow> token \<times> lexer" where
  "scanTemplate start head l = templateLoop start head (advance l)"

function regexpLoop :: "utab \<Rightarrow> position \<Rightarrow> bool \<Rightarrow> lexer \<Rightarrow> token \<times> lexer" where
  "regexpLoop u start inClass l =
     (let r = peekR l in
      if r = eofRune \<or> isLineTerminator r then illegal start UnclosedRegexp l
      else if r = rn CHR 0x5C then
        let l1 = advance l; c = peekR l1
        in regexpLoop u start inClass
             (if c \<noteq> eofRune \<and> \<not> isLineTerminator c then advance l1 else l1)
      else if r = rn CHR ''['' then regexpLoop u start True (advance l)
      else if r = rn CHR '']'' then regexpLoop u start False (advance l)
      else if r = rn CHR ''/'' \<and> \<not> inClass then
        let l1 = advanceWhile (isIdentPart u) (advance l)
        in (mkTok RegexpT start (tokText start l1) NoMsg, l1)
      else regexpLoop u start inClass (advance l))"
  by pat_completeness auto
termination
proof (relation "measure (\<lambda>(u, start, inClass, l). bytesLeft l)")
  fix u start inClass l r l1 c
  assume "r = peekR l" "\<not> (r = eofRune \<or> isLineTerminator r)" "l1 = advance l"
  then show "((u, start, inClass, if c \<noteq> eofRune \<and> \<not> isLineTerminator c then advance l1 else l1),
      u, start, inClass, l) \<in> measure (\<lambda>(u, start, inClass, l). bytesLeft l)"
    using left_advance [of l] left_advance_le [of l1] by auto
qed (auto intro: left_advance)

declare regexpLoop.simps [simp del]

definition scanRegexp :: "utab \<Rightarrow> position \<Rightarrow> lexer \<Rightarrow> token \<times> lexer" where
  "scanRegexp u start l = regexpLoop u start False (advance l)"

section \<open>Punctuators\<close>

definition puncts :: "(gostring \<times> tkind) list" where
  "puncts = map (map_prod ascii id)
    [(''>>>='', UShrAssignT), (''...'', EllipsisT), (''==='', EqEqEqT), (''!=='', NotEqEqT),
     (''**='', StarStarAssignT), (''<<='', ShlAssignT), (''>>='', ShrAssignT),
     (''>>>'', UShrT), (''&&='', AndAndAssignT), (''||='', OrOrAssignT),
     (''??='', QuestionQuestionAssignT), (''=>'', ArrowT), (''=='', EqEqT),
     (''!='', NotEqT), (''<='', LeT), (''>='', GeT), (''**'', StarStarT),
     (''++'', PlusPlusT), (''--'', MinusMinusT), (''<<'', ShlT), (''>>'', ShrT),
     (''&&'', AndAndT), (''||'', OrOrT), (''??'', QuestionQuestionT),
     (''?.'', QuestionDotT), (''+='', PlusAssignT), (''-='', MinusAssignT),
     (''*='', StarAssignT), (''/='', SlashAssignT), (''%='', PercentAssignT),
     (''&='', AndAssignT), (''|='', OrAssignT), (''^='', XorAssignT), (''{'', LBraceT),
     (''}'', RBraceT), (''('', LParenT), ('')'', RParenT), (''['', LBracketT),
     ('']'', RBracketT), (''.'', DotT), ('';'', SemicolonT), ('','', CommaT),
     ('':'', ColonT), (''?'', QuestionT), (''<'', LtT), (''>'', GtT), (''+'', PlusT),
     (''-'', MinusT), (''*'', StarT), (''/'', SlashT), (''%'', PercentT), (''&'', AndT),
     (''|'', OrT), (''^'', XorT), (''!'', NotT), (''~'', TildeT), (''='', AssignT)]"

definition hasPrefix :: "gostring \<Rightarrow> gostring \<Rightarrow> bool" where
  "hasPrefix s p \<longleftrightarrow> take (length p) s = p"

text \<open>The test of the loop of \<open>scanPunct\<close>, with its exception for \<open>?.\<close> before a digit.\<close>

definition punctMatches :: "lexer \<Rightarrow> gostring \<times> tkind \<Rightarrow> bool" where
  "punctMatches l p \<longleftrightarrow> hasPrefix (drop (loff l) (lsrc l)) (fst p)
     \<and> \<not> (snd p = QuestionDotT \<and> isDecimal (peekAt 2 l))"

definition scanPunct :: "position \<Rightarrow> lexer \<Rightarrow> token \<times> lexer" where
  "scanPunct start l =
     (case find (punctMatches l) puncts of
        Some p \<Rightarrow> (mkTok (snd p) start (fst p) NoMsg, (advance ^^ length (fst p)) l)
      | None \<Rightarrow> illegal start UnexpectedChar (advance l))"

section \<open>Entry points\<close>

definition New :: "gostring \<Rightarrow> lexer" where
  "New s =
     (let l = \<lparr>lsrc = s, loff = 0, lline = 1, lcol = 1, newlineBefore = False\<rparr>
      in if hasPrefix s (ascii ''#!'') then advanceWhile (\<lambda>r. \<not> isLineTerminator r) l else l)"

text \<open>The dispatch of \<open>Next\<close>.\<close>

definition scanToken :: "utab \<Rightarrow> bool \<Rightarrow> position \<Rightarrow> lexer \<Rightarrow> token \<times> lexer" where
  "scanToken u allowRegexp start l =
     (let r = peekR l in
      if isIdentStart u r \<or> r = rn CHR 0x5C then scanIdent u start l
      else if r = rn CHR ''#'' then scanPrivateIdent u start l
      else if (r < 0x80 \<and> isDecimal (word_of_int r)) \<or> (r = rn CHR ''.'' \<and> isDecimal (peekAt 1 l))
      then scanNumber u start l
      else if r = rn CHR 0x22 \<or> r = rn CHR 0x27 then scanString start r l
      else if r = rn CHR 0x60 then scanTemplate start True l
      else if r = rn CHR ''/'' \<and> allowRegexp then scanRegexp u start l
      else scanPunct start l)"

definition Next :: "utab \<Rightarrow> bool \<Rightarrow> lexer \<Rightarrow> token \<times> lexer" where
  "Next u allowRegexp l =
     (case skipSpace u (l\<lparr>newlineBefore := False\<rparr>) of
        (Some bad, l1) \<Rightarrow> (bad\<lparr>tNewlineBefore := newlineBefore l1\<rparr>, l1)
      | (None, l1) \<Rightarrow>
          let nl = newlineBefore l1; start = Pos l1 in
          if peekR l1 = eofRune then ((mkTok EOFT start [] NoMsg)\<lparr>tNewlineBefore := nl\<rparr>, l1)
          else
            (case scanToken u allowRegexp start l1 of
               (tok, l2) \<Rightarrow>
                 if loff l2 = loff l1 then
                   let l3 = advance l2
                   in ((mkTok IllegalT start (tokText start l3) NoProgress)\<lparr>tNewlineBefore := nl\<rparr>, l3)
                 else (tok\<lparr>tNewlineBefore := nl\<rparr>, l2)))"

definition NextTemplateContinuation :: "lexer \<Rightarrow> token \<times> lexer" where
  "NextTemplateContinuation l =
     (if peekR l \<noteq> rn CHR ''}'' then (mkTok IllegalT (Pos l) [] BraceExpected, l)
      else scanTemplate (Pos l) False l)"

text \<open>\<open>State\<close> is the cursor without the source; \<open>off\<close> is an \<open>int\<close> there.\<close>

record lexState =
  stOff :: int
  stLine :: nat
  stCol :: nat
  stNewline :: bool

definition Save :: "lexer \<Rightarrow> lexState" where
  "Save l = \<lparr>stOff = int (loff l), stLine = lline l, stCol = lcol l, stNewline = newlineBefore l\<rparr>"

definition Restore :: "lexState \<Rightarrow> lexer \<Rightarrow> lexer" where
  "Restore s l =
     (if stOff s < 0 \<or> stOff s > int (length (lsrc l)) then l
      else l\<lparr>loff := nat (stOff s), lline := stLine s, lcol := stCol s, newlineBefore := stNewline s\<rparr>)"

definition SeekTo :: "position \<Rightarrow> lexer \<Rightarrow> lexer" where
  "SeekTo p l =
     (if posOffset p > length (lsrc l) then l
      else l\<lparr>loff := posOffset p, lline := posLine p, lcol := posCol p\<rparr>)"

end
