(* ===== verification/LexProps.thy ===== *)
theory LexProps
  imports Lexer
begin

text \<open>
  Correctness of the scanner: every routine moves the cursor by whole runes and returns the
  text it passed over, \<open>Next\<close> always makes progress, reading a source to its end terminates,
  positions agree with the text before them, punctuators are the longest that match, and a
  token can be read again from its position.
\<close>

section \<open>Reading\<close>

text \<open>\<open>reads l l'\<close>: the cursor of \<open>l'\<close> is that of \<open>l\<close> after some number of runes.\<close>

definition cursor :: "lexer \<Rightarrow> gostring \<times> nat \<times> nat \<times> nat" where
  "cursor l = (lsrc l, loff l, lline l, lcol l)"

definition reads :: "lexer \<Rightarrow> lexer \<Rightarrow> bool" where
  "reads l l' \<longleftrightarrow> (\<exists>n. cursor l' = cursor ((advance ^^ n) l))"

named_theorems reading \<open>the cursor movement of each scanning routine\<close>

lemma cursor_fields:
  "cursor a = cursor b \<longleftrightarrow> lsrc a = lsrc b \<and> loff a = loff b \<and> lline a = lline b \<and> lcol a = lcol b"
  by (simp add: cursor_def)

lemma cursor_peek: "cursor a = cursor b \<Longrightarrow> peek a = peek b \<and> peekR a = peekR b \<and> peekAt n a = peekAt n b"
  by (simp add: cursor_def peek_def peekR_def peekAt_def Let_def)

lemma cursor_advance: "cursor a = cursor b \<Longrightarrow> cursor (advance a) = cursor (advance b)"
  using cursor_peek [of a b] by (auto simp: cursor_def advance_def split: prod.splits)

lemma cursor_advances: "cursor a = cursor b \<Longrightarrow> cursor ((advance ^^ n) a) = cursor ((advance ^^ n) b)"
  by (induction n) (auto intro: cursor_advance)

lemma reads_refl [reading, simp]: "reads l l"
  unfolding reads_def by (rule exI [of _ 0]) simp

lemma reads_trans: "reads l l' \<Longrightarrow> reads l' l'' \<Longrightarrow> reads l l''"
proof -
  assume "reads l l'" "reads l' l''"
  then obtain n m where "cursor l' = cursor ((advance ^^ n) l)" "cursor l'' = cursor ((advance ^^ m) l')"
    by (auto simp: reads_def)
  then have "cursor l'' = cursor ((advance ^^ (m + n)) l)"
    using cursor_advances [of l' "(advance ^^ n) l" m] by (simp add: funpow_add)
  then show ?thesis unfolding reads_def by blast
qed

lemma reads_one [reading]: "reads l (advance l)"
  unfolding reads_def by (rule exI [of _ 1]) simp

lemma reads_power: "reads l ((advance ^^ n) l)"
  unfolding reads_def by blast

lemma reads_cursor: "cursor l' = cursor l'' \<Longrightarrow> reads l l' = reads l l''"
  by (simp add: reads_def)

lemma reads_newline [simp]: "reads l (l'\<lparr>newlineBefore := b\<rparr>) = reads l l'"
  by (rule reads_cursor) (simp add: cursor_def)

lemma reads_from_newline [simp]: "reads (l\<lparr>newlineBefore := b\<rparr>) l' = reads l l'"
proof -
  have "cursor ((advance ^^ n) (l\<lparr>newlineBefore := b\<rparr>)) = cursor ((advance ^^ n) l)" for n
    by (rule cursor_advances) (simp add: cursor_def)
  then show ?thesis by (simp add: reads_def)
qed

lemma reads_advance: "reads l l' \<Longrightarrow> reads l (advance l')"
  by (rule reads_trans [OF _ reads_one])

lemma advances_mono: "lsrc ((advance ^^ n) l) = lsrc l \<and> loff l \<le> loff ((advance ^^ n) l)
    \<and> (loff l \<le> length (lsrc l) \<longrightarrow> loff ((advance ^^ n) l) \<le> length (lsrc l))"
proof (induction n)
  case (Suc n)
  then show ?case using peek_spec [of "(advance ^^ n) l"]
    by (cases "loff ((advance ^^ n) l) < length (lsrc l)") (auto simp: advance_off)
qed simp

lemma reads_mono:
  "reads l l' \<Longrightarrow> lsrc l' = lsrc l"
  "reads l l' \<Longrightarrow> loff l \<le> loff l'"
  "reads l l' \<Longrightarrow> loff l \<le> length (lsrc l) \<Longrightarrow> loff l' \<le> length (lsrc l)"
  using advances_mono [of _ l] by (auto simp: reads_def cursor_fields)

lemma reads_advanceWhile [reading]: "reads l (advanceWhile P l)"
proof (induction P l rule: advanceWhile.induct)
  case (1 P l)
  then show ?case by (subst advanceWhile.simps) (auto intro: reads_trans [OF reads_one])
qed

lemma reads_blockLoop [reading]: "reads l (snd (blockLoop l))"
proof (induction l rule: blockLoop.induct)
  case (1 l)
  define l1 where "l1 = (if isLineTerminator (peekR l) then l\<lparr>newlineBefore := True\<rparr> else l)"
  have e: "reads l l1" by (simp add: l1_def)
  have "blockLoop l = (if peekR l = eofRune then (False, l)
      else if peekR l = rn CHR ''*'' \<and> peekAt 1 l1 = bt CHR ''/'' then (True, advance (advance l1))
      else blockLoop (advance l1))"
    by (subst blockLoop.simps) (simp only: Let_def l1_def)
  then show ?case
    using 1 [OF refl _ l1_def] reads_advance [OF e] reads_advance [OF reads_advance [OF e]]
    by (auto intro: reads_trans)
qed

lemma reads_bracedHex [reading]: "reads l (snd (snd (bracedHex n cp l)))"
proof (induction n cp l rule: bracedHex.induct)
  case (1 n cp l)
  then show ?case by (subst bracedHex.simps) (auto simp: Let_def intro: reads_trans [OF reads_one])
qed

lemma reads_fourHex [reading]: "reads l (snd (fourHex n l))"
  by (induction n l rule: fourHex.induct) (auto intro: reads_trans [OF reads_one])

lemma reads_escapeTail [reading]: "reads l (snd (scanUnicodeEscapeTail l))"
proof -
  obtain n cp l1 where b: "bracedHex 0 0 (advance l) = (n, cp, l1)" by (cases "bracedHex 0 0 (advance l)")
  then have "reads l l1" using reads_trans [OF reads_one reads_bracedHex, of l 0 0] by simp
  then show ?thesis using b reads_advance [of l l1] reads_fourHex [of l 4]
    by (auto simp: scanUnicodeEscapeTail_def simp del: fourHex.simps)
qed

lemma reads_identLoop [reading]: "reads l (snd (identLoop u mu me l))"
proof (induction u mu me l rule: identLoop.induct)
  case (1 u mu me l)
  note IH = "1.IH"
  have t: "reads l (snd (scanUnicodeEscapeTail (advance (advance l))))"
    by (rule reads_trans [OF reads_trans [OF reads_one reads_one] reads_escapeTail])
  show ?case
    using IH t reads_one [of l]
    by (subst identLoop.simps) (auto simp: Let_def split: prod.splits intro: reads_trans)
qed

lemma reads_digits [reading]: "reads l (digits pred l)"
proof (induction pred l rule: digits.induct)
  case (1 pred l)
  then show ?case by (subst digits.simps) (auto simp: Let_def intro: reads_trans [OF reads_one])
qed

lemma reads_scanFraction [reading]: "reads l (scanFraction l)"
proof -
  define l1 where "l1 = (if peekR l = rn CHR ''.'' then digits isDecimal (advance l) else l)"
  define l3 where "l3 = (if peekR (advance l1) = rn CHR ''+'' \<or> peekR (advance l1) = rn CHR ''-''
    then advance (advance l1) else advance l1)"
  have 1: "reads l l1" by (auto simp: l1_def intro: reads_trans [OF reads_one reads_digits])
  then have 2: "reads l (advance l1)" "reads l l3" by (auto simp: l3_def intro: reads_advance)
  then have 3: "reads l (digits isDecimal l3)" by (blast intro: reads_trans reads_digits)
  have "lsrc l3 = lsrc l1" by (simp add: l3_def)
  then have 4: "reads l (l3\<lparr>loff := loff l1, lline := lline l1, lcol := lcol l1\<rparr>)"
    using 1 by (subst reads_cursor [of _ l1]) (simp_all add: cursor_def)
  have "scanFraction l = (if peekR l1 = rn CHR ''e'' \<or> peekR l1 = rn CHR ''E'' then
      if isDecimalRune (peekR l3) then digits isDecimal l3
      else l3\<lparr>loff := loff l1, lline := lline l1, lcol := lcol l1\<rparr> else l1)"
    unfolding scanFraction_def Let_def l1_def l3_def by (rule refl)
  then show ?thesis using 1 3 4 by simp
qed

lemma reads_scanDigits [reading]: "reads l (scanDigits l)"
proof -
  have a: "reads l (advance l)" "reads l (advance (advance l))" by (auto intro: reads_one reads_advance)
  have d: "reads l (digits p (advance (advance l)))" "reads l (scanFraction (digits p (advance l)))"
      "reads l (scanFraction (digits p l))" for p
    by (rule reads_trans [OF a(2) reads_digits] reads_trans [OF a(1) reads_trans [OF reads_digits reads_scanFraction]]
        reads_trans [OF reads_digits reads_scanFraction])+
  then show ?thesis unfolding scanDigits_def Let_def by simp
qed

section \<open>What a scanning routine returns\<close>

text \<open>
  A token that starts at \<open>start\<close> and was scanned from \<open>l\<close>: the cursor moved forward, the value
  is the text between, and the message tells whether the token is illegal.
\<close>

definition scanned :: "position \<Rightarrow> lexer \<Rightarrow> token \<times> lexer \<Rightarrow> bool" where
  "scanned start l res \<longleftrightarrow> (case res of (t, l') \<Rightarrow>
     reads l l' \<and> tPos t = start \<and> tValue t = tokText start l' \<and> \<not> tNewlineBefore t
     \<and> tKind t \<noteq> EOFT \<and> (tKind t = IllegalT \<longleftrightarrow> tMessage t \<noteq> NoMsg) \<and> tMessage t \<noteq> NoProgress)"

lemma scanned_mk:
  "reads l l' \<Longrightarrow> k \<noteq> EOFT \<Longrightarrow> k \<noteq> IllegalT \<Longrightarrow> scanned start l (mkTok k start (tokText start l') NoMsg, l')"
  by (simp add: scanned_def mkTok_def)

lemma scanned_illegal:
  "reads l l' \<Longrightarrow> m \<noteq> NoMsg \<Longrightarrow> m \<noteq> NoProgress \<Longrightarrow> scanned start l (illegal start m l')"
  by (simp add: scanned_def mkTok_def illegal_def)

lemma scanned_trans: "reads l l1 \<Longrightarrow> scanned start l1 res \<Longrightarrow> scanned start l res"
  by (auto simp: scanned_def split: prod.splits intro: reads_trans)

lemma scanned_if:
  "(b \<Longrightarrow> scanned start l x) \<Longrightarrow> (\<not> b \<Longrightarrow> scanned start l y) \<Longrightarrow> scanned start l (if b then x else y)"
  by simp

lemma identLoop_msg: "fst (identLoop u mu me l) \<in> {NoMsg, mu, me}"
proof (induction u mu me l rule: identLoop.induct)
  case (1 u mu me l)
  then show ?case
    by (subst identLoop.simps) (auto simp: Let_def split: prod.splits)
qed

lemma scanned_scanIdent: "scanned start l (scanIdent u start l)"
proof -
  obtain m l1 where i: "identLoop u BadIdentUnicodeEscape BadIdentEscape l = (m, l1)"
    by (cases "identLoop u BadIdentUnicodeEscape BadIdentEscape l")
  have r: "reads l l1" using reads_identLoop [of l u BadIdentUnicodeEscape BadIdentEscape] i by simp
  have "m \<in> {NoMsg, BadIdentUnicodeEscape, BadIdentEscape}"
    using identLoop_msg [of u BadIdentUnicodeEscape BadIdentEscape l] i by simp
  then show ?thesis using i r by (auto simp: scanIdent_def Let_def intro: scanned_mk scanned_illegal)
qed

lemma scanned_scanPrivateIdent: "scanned start (advance l) (scanPrivateIdent u start l)"
proof -
  obtain m l2 where i: "identLoop u BadPrivateUnicodeEscape BadPrivateEscape (advance l) = (m, l2)"
    by (cases "identLoop u BadPrivateUnicodeEscape BadPrivateEscape (advance l)")
  have r: "reads (advance l) l2"
    using reads_identLoop [of "advance l" u BadPrivateUnicodeEscape BadPrivateEscape] i by simp
  have "m \<in> {NoMsg, BadPrivateUnicodeEscape, BadPrivateEscape}"
    using identLoop_msg [of u BadPrivateUnicodeEscape BadPrivateEscape "advance l"] i by simp
  then show ?thesis using i r
    by (auto simp: scanPrivateIdent_def Let_def intro: scanned_mk scanned_illegal)
qed

lemma scanned_scanNumber: "scanned start (scanDigits l) (scanNumber u start l)"
proof -
  define l2 where "l2 = (if peekR (scanDigits l) = rn CHR ''n'' then advance (scanDigits l) else scanDigits l)"
  have r: "reads (scanDigits l) l2" by (simp add: l2_def reads_one)
  then show ?thesis
    unfolding scanNumber_def Let_def l2_def [symmetric]
    by (auto intro: scanned_mk scanned_illegal reads_trans [OF r reads_advanceWhile])
qed

lemma scanned_stringLoop: "scanned start l (stringLoop start quote l)"
proof (induction start quote l rule: stringLoop.induct)
  case (1 start quote l)
  define l2 where "l2 = (if peekR (advance l) = 0xD \<and> peekAt 1 (advance l) = 0xA
    then advance (advance l) else advance l)"
  have r: "reads l (advance l)" "reads l (advance l2)"
    by (auto simp: l2_def intro: reads_one reads_advance)
  have e: "stringLoop start quote l = (if peekR l = eofRune then illegal start UnclosedString l
      else if peekR l = quote then (mkTok StringT start (tokText start (advance l)) NoMsg, advance l)
      else if peekR l = rn CHR 0x5C then
        if peekR (advance l) = eofRune then illegal start UnclosedStringEscape (advance l)
        else stringLoop start quote (advance l2)
      else if peekR l = 0xA \<or> peekR l = 0xD then illegal start NewlineInString l
      else stringLoop start quote (advance l))"
    by (subst stringLoop.simps) (simp only: Let_def l2_def)
  have i1: "scanned start l (stringLoop start quote (advance l2))"
    if "peekR l \<noteq> eofRune" "peekR l \<noteq> quote" "peekR l = rn CHR 0x5C" "peekR (advance l) \<noteq> eofRune"
    using scanned_trans [OF r(2) "1.IH"(1) [OF refl that(1,2,3) refl refl that(4) l2_def]] .
  have i2: "scanned start l (stringLoop start quote (advance l))"
    if "peekR l \<noteq> eofRune" "peekR l \<noteq> quote" "peekR l \<noteq> rn CHR 0x5C" "\<not> (peekR l = 0xA \<or> peekR l = 0xD)"
    using scanned_trans [OF r(1) "1.IH"(2) [OF refl that]] .
  show ?case unfolding e using i1 i2 r by (simp add: scanned_mk scanned_illegal)
qed

lemma scanned_templateLoop: "scanned start l (templateLoop start head l)"
proof (induction start head l rule: templateLoop.induct)
  case (1 start head l)
  define l1 where "l1 = (if peekR (advance l) \<noteq> eofRune then advance (advance l) else advance l)"
  have r: "reads l (advance l)" "reads l (advance (advance l))" "reads l l1"
    by (auto simp: l1_def intro: reads_one reads_advance)
  have e: "templateLoop start head l = (if peekR l = eofRune then illegal start UnclosedTemplate l
      else if peekR l = rn CHR 0x60 then
        (mkTok (if head then NoSubTemplateT else TemplateTailT) start (tokText start (advance l)) NoMsg, advance l)
      else if peekR l = rn CHR ''$'' \<and> peekAt 1 l = bt CHR ''{'' then
        (mkTok (if head then TemplateHeadT else TemplateMiddleT) start (tokText start (advance (advance l))) NoMsg,
         advance (advance l))
      else if peekR l = rn CHR 0x5C then templateLoop start head l1
      else templateLoop start head (advance l))"
    by (subst templateLoop.simps) (simp only: Let_def l1_def)
  have i1: "scanned start l (templateLoop start head l1)"
    if "peekR l \<noteq> eofRune" "peekR l \<noteq> rn CHR 0x60" "\<not> (peekR l = rn CHR ''$'' \<and> peekAt 1 l = bt CHR ''{'')"
      "peekR l = rn CHR 0x5C"
    using scanned_trans [OF r(3)] "1.IH"(1) [OF refl that refl] unfolding l1_def .
  have i2: "scanned start l (templateLoop start head (advance l))"
    if "peekR l \<noteq> eofRune" "peekR l \<noteq> rn CHR 0x60" "\<not> (peekR l = rn CHR ''$'' \<and> peekAt 1 l = bt CHR ''{'')"
      "peekR l \<noteq> rn CHR 0x5C"
    using scanned_trans [OF r(1) "1.IH"(2) [OF refl that]] .
  show ?case unfolding e using i1 i2 r by (simp add: scanned_mk scanned_illegal)
qed

lemma scanned_regexpLoop: "scanned start l (regexpLoop u start inClass l)"
proof (induction u start inClass l rule: regexpLoop.induct)
  case (1 u start inClass l)
  define l1 where "l1 = (if peekR (advance l) \<noteq> eofRune \<and> \<not> isLineTerminator (peekR (advance l))
    then advance (advance l) else advance l)"
  define l2 where "l2 = advanceWhile (isIdentPart u) (advance l)"
  have r: "reads l (advance l)" "reads l l1" "reads l l2"
    by (auto simp: l1_def l2_def intro: reads_one reads_advance reads_trans [OF reads_one reads_advanceWhile])
  have e: "regexpLoop u start inClass l =
     (if peekR l = eofRune \<or> isLineTerminator (peekR l) then illegal start UnclosedRegexp l
      else if peekR l = rn CHR 0x5C then regexpLoop u start inClass l1
      else if peekR l = rn CHR ''['' then regexpLoop u start True (advance l)
      else if peekR l = rn CHR '']'' then regexpLoop u start False (advance l)
      else if peekR l = rn CHR ''/'' \<and> \<not> inClass then (mkTok RegexpT start (tokText start l2) NoMsg, l2)
      else regexpLoop u start inClass (advance l))"
    by (subst regexpLoop.simps) (simp only: Let_def l1_def l2_def)
  have i1: "scanned start l (regexpLoop u start inClass l1)"
    if "\<not> (peekR l = eofRune \<or> isLineTerminator (peekR l))" "peekR l = rn CHR 0x5C"
    using scanned_trans [OF r(2)] "1.IH"(1) [OF refl that refl refl] unfolding l1_def .
  have i2: "scanned start l (regexpLoop u start b (advance l))"
    if "scanned start (advance l) (regexpLoop u start b (advance l))" for b
    using scanned_trans [OF r(1) that] .
  have i3: "scanned start l (regexpLoop u start True (advance l))"
    if "\<not> (peekR l = eofRune \<or> isLineTerminator (peekR l))" "peekR l \<noteq> rn CHR 0x5C" "peekR l = rn CHR ''[''"
    by (rule i2) (rule "1.IH"(2) [OF refl that])
  have i4: "scanned start l (regexpLoop u start False (advance l))"
    if "\<not> (peekR l = eofRune \<or> isLineTerminator (peekR l))" "peekR l \<noteq> rn CHR 0x5C" "peekR l \<noteq> rn CHR ''[''"
      "peekR l = rn CHR '']''"
    by (rule i2) (rule "1.IH"(3) [OF refl that])
  have i5: "scanned start l (regexpLoop u start inClass (advance l))"
    if "\<not> (peekR l = eofRune \<or> isLineTerminator (peekR l))" "peekR l \<noteq> rn CHR 0x5C" "peekR l \<noteq> rn CHR ''[''"
      "peekR l \<noteq> rn CHR '']''" "\<not> (peekR l = rn CHR ''/'' \<and> \<not> inClass)"
    by (rule i2) (rule "1.IH"(4) [OF refl that])
  show ?case unfolding e
    by (intro scanned_if) (assumption | rule i1 i3 i4 i5 scanned_illegal scanned_mk reads_refl r | simp)+
qed

section \<open>Progress\<close>

lemma advance_progress: "peekR l \<noteq> eofRune \<Longrightarrow> loff l < loff (advance l)"
  using peek_spec(1) [of l] by (simp add: peekR_eof advance_off)

lemma reads_progress: "peekR l \<noteq> eofRune \<Longrightarrow> reads (advance l) l' \<Longrightarrow> loff l < loff l'"
  using advance_progress [of l] reads_mono(2) [of "advance l" l'] by simp

lemma identLoop_starts:
  assumes "peekR l = rn CHR 0x5C \<or> (peekR l \<noteq> eofRune \<and> isIdentPart u (peekR l))"
  shows "reads (advance l) (snd (identLoop u mu me l))"
proof (cases "peekR l = rn CHR 0x5C")
  case True
  obtain ok l2 where t: "scanUnicodeEscapeTail (advance (advance l)) = (ok, l2)"
    by (cases "scanUnicodeEscapeTail (advance (advance l))")
  have r: "reads (advance l) l2"
    using reads_trans [OF reads_one reads_escapeTail, of "advance l"] t by simp
  have "reads l2 (snd (identLoop u mu me l2))" by (rule reads_identLoop)
  with r have "reads (advance l) (snd (identLoop u mu me l2))" by (rule reads_trans)
  then show ?thesis using True t r by (subst identLoop.simps) (simp add: Let_def)
next
  case False
  then have "identLoop u mu me l = identLoop u mu me (advance l)"
    using assms by (subst identLoop.simps) simp
  then show ?thesis by (simp add: reads_identLoop)
qed

lemma asciiIdent_part: "isIdentStart u r \<Longrightarrow> isIdentPart u r"
  by (auto simp: isIdentStart_def isIdentPart_def split: if_splits)

lemma eof_not_ident [simp]: "\<not> isIdentStart u eofRune" "\<not> isIdentPart u eofRune"
proof -
  have "rn c > eofRune" for c
    using rn_not_eof [of c] by (cases c) (auto simp: rn_def eofRune_def)
  then have n: "rn c \<noteq> eofRune \<and> \<not> rn c \<le> eofRune" for c by (metis not_le order_less_irrefl)
  then have "\<not> asciiIdent eofRune" unfolding asciiIdent_def by (metis n)
  then show "\<not> isIdentStart u eofRune" "\<not> isIdentPart u eofRune"
    unfolding isIdentStart_def isIdentPart_def using n by (auto simp: eofRune_def)
qed

lemma scanIdent_progress:
  assumes "isIdentStart u (peekR l) \<or> peekR l = rn CHR 0x5C"
  shows "loff l < loff (snd (scanIdent u start l))"
proof -
  have "peekR l \<noteq> eofRune" using assms by auto
  moreover have "reads (advance l) (snd (identLoop u BadIdentUnicodeEscape BadIdentEscape l))"
    by (rule identLoop_starts) (use assms asciiIdent_part calculation in blast)
  moreover have "snd (scanIdent u start l) = snd (identLoop u BadIdentUnicodeEscape BadIdentEscape l)"
    by (auto simp: scanIdent_def illegal_def Let_def split: prod.splits)
  ultimately show ?thesis using reads_progress [of l] by metis
qed

lemma scanDigits_starts:
  assumes "(peekR l < 0x80 \<and> isDecimal (word_of_int (peekR l))) \<or> peekR l = rn CHR ''.''"
    and ne: "peekR l \<noteq> eofRune"
  shows "reads (advance l) (scanDigits l)"
proof (cases "peekR l = rn CHR ''0''")
  case True
  have "reads (advance l) (digits p (advance (advance l)))" for p
    by (rule reads_trans [OF reads_one reads_digits])
  moreover have "reads (advance l) (scanFraction (digits p (advance l)))" for p
    by (rule reads_trans [OF reads_digits reads_scanFraction])
  ultimately show ?thesis using True by (simp add: scanDigits_def Let_def)
next
  case no0: False
  have e: "scanDigits l = scanFraction (digits isDecimal l)" using no0 by (simp add: scanDigits_def)
  show ?thesis
  proof (cases "peekR l = rn CHR ''.''")
    case True
    have "digits isDecimal l = l"
      using True by (subst digits.simps) (simp add: Let_def isDecimal_def rn_def bt_def eofRune_def)
    moreover have "reads (advance l) (scanFraction l)"
    proof -
      define l1 where "l1 = digits isDecimal (advance l)"
      have 1: "reads (advance l) l1" by (simp add: l1_def reads_digits)
      define l3 where "l3 = (if peekR (advance l1) = rn CHR ''+'' \<or> peekR (advance l1) = rn CHR ''-''
        then advance (advance l1) else advance l1)"
      have 2: "reads (advance l) l3" using 1 by (auto simp: l3_def intro: reads_advance)
      have "lsrc l3 = lsrc l1" by (simp add: l3_def)
      then have 3: "reads (advance l) (l3\<lparr>loff := loff l1, lline := lline l1, lcol := lcol l1\<rparr>)"
        using 1 by (subst reads_cursor [of _ l1]) (simp_all add: cursor_def)
      have "scanFraction l = (if peekR l1 = rn CHR ''e'' \<or> peekR l1 = rn CHR ''E'' then
          if isDecimalRune (peekR l3) then digits isDecimal l3
          else l3\<lparr>loff := loff l1, lline := lline l1, lcol := lcol l1\<rparr> else l1)"
        unfolding scanFraction_def Let_def l1_def l3_def using True by simp
      then show ?thesis using 1 3 reads_trans [OF 2 reads_digits] by simp
    qed
    ultimately show ?thesis using e by simp
  next
    case False
    then have d: "peekR l < 0x80" "isDecimal (word_of_int (peekR l))" using assms by auto
    have "digits isDecimal l = digits isDecimal (advance l)"
      using d ne by (subst digits.simps) (simp add: Let_def)
    then show ?thesis unfolding e using reads_trans [OF reads_digits reads_scanFraction] by metis
  qed
qed

section \<open>Punctuators\<close>

lemma puncts_ok:
  "\<forall>p \<in> set puncts. list_all (\<lambda>b. uint b < 128) (fst p) \<and> fst p \<noteq> [] \<and> snd p \<noteq> EOFT \<and> snd p \<noteq> IllegalT"
  by code_simp

lemma advance_ascii:
  assumes "hasPrefix (drop (loff l) (lsrc l)) p" "list_all (\<lambda>b. uint b < 128) p" "n \<le> length p"
  shows "loff ((advance ^^ n) l) = loff l + n"
  using assms(3)
proof (induction n)
  case (Suc n)
  let ?l = "(advance ^^ n) l"
  have off: "loff ?l = loff l + n" using Suc by simp
  have src: "lsrc ?l = lsrc l" by (rule reads_mono(1) [OF reads_power])
  have take: "take (length p) (drop (loff l) (lsrc l)) = p" using assms(1) by (simp add: hasPrefix_def)
  have len: "n < length (drop (loff l) (lsrc l))"
    using arg_cong [OF take, of length] Suc.prems by simp
  have nth: "lsrc l ! (loff l + n) = p ! n"
    using arg_cong [OF take, of "\<lambda>x. x ! n"] Suc.prems len by simp
  have "uint (p ! n) < 128" using assms(2) Suc.prems by (simp add: list_all_length)
  then have "snd (peek ?l) = 1"
    using off src nth len by (simp add: peek_def Let_def)
  then show ?case using off by (simp add: advance_off)
qed simp

lemma hasPrefix_gosub: "hasPrefix (drop n s) p \<Longrightarrow> gosub s n (n + length p) = p"
  by (simp add: hasPrefix_def gosub_def)

lemma scanned_scanPunct:
  assumes "peekR l \<noteq> eofRune"
  shows "scanned (Pos l) l (scanPunct (Pos l) l)" "loff l < loff (snd (scanPunct (Pos l) l))"
proof -
  have "scanned (Pos l) l (scanPunct (Pos l) l) \<and> loff l < loff (snd (scanPunct (Pos l) l))"
  proof (cases "find (punctMatches l) puncts")
    case None
    then show ?thesis
      using advance_progress [OF assms] reads_one
      by (auto simp: scanPunct_def illegal_def scanned_def mkTok_def)
  next
    case (Some p)
    then have p: "p \<in> set puncts" "hasPrefix (drop (loff l) (lsrc l)) (fst p)"
      by (auto simp: find_Some_iff punctMatches_def)
    then have ok: "list_all (\<lambda>b. uint b < 128) (fst p)" "fst p \<noteq> []" "snd p \<noteq> EOFT" "snd p \<noteq> IllegalT"
      using puncts_ok by blast+
    have off: "loff ((advance ^^ length (fst p)) l) = loff l + length (fst p)"
      by (rule advance_ascii [OF p(2) ok(1)]) simp
    have src: "lsrc ((advance ^^ length (fst p)) l) = lsrc l" by (rule reads_mono(1) [OF reads_power])
    have "fst p = tokText (Pos l) ((advance ^^ length (fst p)) l)"
      using hasPrefix_gosub [OF p(2)] by (simp add: tokText_def Pos_def off src)
    then show ?thesis
      using Some ok off reads_power [of l "length (fst p)"] by (auto simp: scanPunct_def scanned_def mkTok_def)
  qed
  then show "scanned (Pos l) l (scanPunct (Pos l) l)" "loff l < loff (snd (scanPunct (Pos l) l))" by auto
qed

section \<open>Tokens\<close>

lemma scanToken_spec:
  assumes ne: "peekR l \<noteq> eofRune"
  shows "scanned (Pos l) l (scanToken u a (Pos l) l) \<and> loff l < loff (snd (scanToken u a (Pos l) l))"
proof -
  define ok where "ok res \<longleftrightarrow> scanned (Pos l) l res \<and> loff l < loff (snd res)" for res
  have adv: "ok res" if r: "scanned (Pos l) (advance l) res" for res
  proof -
    have "reads (advance l) (snd res)" using r by (cases res) (simp add: scanned_def)
    then show ?thesis using scanned_trans [OF reads_one r] reads_progress [OF ne] by (simp add: ok_def)
  qed
  have id: "ok (scanIdent u (Pos l) l)" if "isIdentStart u (peekR l) \<or> peekR l = rn CHR 0x5C"
    using scanned_scanIdent scanIdent_progress [OF that] by (simp add: ok_def)
  have num: "ok (scanNumber u (Pos l) l)"
    if "(peekR l < 0x80 \<and> isDecimal (word_of_int (peekR l))) \<or> (peekR l = rn CHR ''.'' \<and> isDecimal (peekAt 1 l))"
  proof (rule adv)
    have "reads (advance l) (scanDigits l)" by (rule scanDigits_starts) (use that ne in auto)
    then show "scanned (Pos l) (advance l) (scanNumber u (Pos l) l)"
      by (rule scanned_trans) (rule scanned_scanNumber)
  qed
  have pun: "ok (scanPunct (Pos l) l)" using scanned_scanPunct [OF ne] by (simp add: ok_def)
  have if_ok: "(b \<Longrightarrow> ok x) \<Longrightarrow> (\<not> b \<Longrightarrow> ok y) \<Longrightarrow> ok (if b then x else y)" for b x y by simp
  have "ok (scanToken u a (Pos l) l)"
    unfolding scanToken_def Let_def
    unfolding scanString_def scanTemplate_def scanRegexp_def
    by (intro if_ok) (erule id num | rule pun adv [OF scanned_scanPrivateIdent]
        adv [OF scanned_stringLoop] adv [OF scanned_templateLoop] adv [OF scanned_regexpLoop])+
  then show ?thesis by (simp add: ok_def)
qed

lemma blockLoop_closed: "blockLoop l = (False, l') \<Longrightarrow> peekR l' = eofRune"
proof (induction l rule: blockLoop.induct)
  case (1 l)
  define l1 where "l1 = (if isLineTerminator (peekR l) then l\<lparr>newlineBefore := True\<rparr> else l)"
  have e: "blockLoop l = (if peekR l = eofRune then (False, l)
      else if peekR l = rn CHR ''*'' \<and> peekAt 1 l1 = bt CHR ''/'' then (True, advance (advance l1))
      else blockLoop (advance l1))"
    by (subst blockLoop.simps) (simp only: Let_def l1_def)
  show ?case using "1.IH" [OF refl _ l1_def] "1.prems" unfolding e by (auto split: if_splits)
qed

text \<open>What \<open>skipSpace\<close> leaves: the end, the start of a token, or an unclosed comment to the end.\<close>

definition spaceSkipped :: "utab \<Rightarrow> lexer \<Rightarrow> token option \<times> lexer \<Rightarrow> bool" where
  "spaceSkipped u l res \<longleftrightarrow> (case res of
     (None, l') \<Rightarrow> reads l l' \<and> skipSpace u l' = (None, l')
   | (Some t, l') \<Rightarrow> \<exists>ls. reads l ls \<and> scanned (Pos ls) ls (t, l') \<and> loff ls < loff l' \<and> peekR l' = eofRune
        \<and> skipSpace u ls = (Some t, l') \<and> tKind t = IllegalT \<and> tMessage t = UnclosedComment)"

lemma spaceSkipped_trans: "reads l l1 \<Longrightarrow> spaceSkipped u l1 res \<Longrightarrow> spaceSkipped u l res"
  unfolding spaceSkipped_def by (auto split: prod.splits option.splits intro: reads_trans)

lemma spaceSkipped_if:
  "(b \<Longrightarrow> spaceSkipped u l x) \<Longrightarrow> (\<not> b \<Longrightarrow> spaceSkipped u l y) \<Longrightarrow> spaceSkipped u l (if b then x else y)"
  by simp

lemma skipSpace_spec: "spaceSkipped u l (skipSpace u l)"
proof (induction u l rule: skipSpace.induct)
  case (1 u l)
  obtain closed l2 where b: "blockLoop (advance (advance l)) = (closed, l2)"
    by (cases "blockLoop (advance (advance l))")
  have rb: "reads (advance l) l2"
    using reads_trans [OF reads_one reads_blockLoop, of "advance l"] b by simp
  have e: "skipSpace u l =
     (if peekR l = eofRune then (None, l)
      else if isLineTerminator (peekR l) then skipSpace u (advance (l\<lparr>newlineBefore := True\<rparr>))
      else if isWhitespace u (peekR l) then skipSpace u (advance l)
      else if peekR l = rn CHR ''/'' \<and> peekAt 1 l = bt CHR ''/'' then
        skipSpace u (advanceWhile (\<lambda>c. \<not> isLineTerminator c) (advance (advance l)))
      else if peekR l = rn CHR ''/'' \<and> peekAt 1 l = bt CHR ''*'' then
        if closed then skipSpace u l2
        else (Some (mkTok IllegalT (Pos l) (tokText (Pos l) l2) UnclosedComment), l2)
      else (None, l))"
    by (subst skipSpace.simps) (simp only: Let_def b prod.case)
  have r1: "reads l (advance (l\<lparr>newlineBefore := True\<rparr>))"
    using reads_one [of l] by simp
  have r2: "reads l l2" by (rule reads_trans [OF reads_one rb])
  have r3: "reads l (advanceWhile (\<lambda>c. \<not> isLineTerminator c) (advance (advance l)))"
    by (rule reads_trans [OF reads_trans [OF reads_one reads_one] reads_advanceWhile])
  note IH = spaceSkipped_trans [OF r1 "1.IH"(1) [OF refl]] spaceSkipped_trans [OF reads_one "1.IH"(2) [OF refl]]
    spaceSkipped_trans [OF r3 "1.IH"(3) [OF refl]] spaceSkipped_trans [OF r2 "1.IH"(4) [OF refl _ _ _ _ _ b [symmetric]]]
  have stay: "spaceSkipped u l (None, l)" if "skipSpace u l = (None, l)"
    using that by (simp add: spaceSkipped_def)
  have comm: "spaceSkipped u l (t, l2)"
    if t: "t = Some (mkTok IllegalT (Pos l) (tokText (Pos l) l2) UnclosedComment)"
      and "\<not> closed" "peekR l \<noteq> eofRune" "skipSpace u l = (t, l2)" for t
  proof -
    have "peekR l2 = eofRune" using blockLoop_closed [of "advance (advance l)" l2] b that(2) by simp
    moreover have "loff l < loff l2" by (rule reads_progress [OF that(3) rb])
    ultimately show ?thesis using r2 that unfolding spaceSkipped_def
      by (auto simp: scanned_def mkTok_def intro!: exI [of _ l])
  qed
  show ?case
    by (subst e, intro spaceSkipped_if)
      ((rule stay, rule trans [OF e], rule if_P, assumption) | (rule IH; assumption)
        | (rule comm, rule refl, assumption, assumption, rule trans [OF e],
            ((subst if_P, assumption) | (subst if_not_P, assumption))+, rule refl)
        | (rule stay, rule trans [OF e], (subst if_not_P, assumption)+, rule refl))+
qed

lemma Next_cases:
  obtains (comment) t ls l' where "Next u a l = (t\<lparr>tNewlineBefore := newlineBefore l'\<rparr>, l')" "reads l ls"
      "scanned (Pos ls) ls (t, l')" "loff ls < loff l'" "peekR l' = eofRune" "tMessage t = UnclosedComment"
      "skipSpace u (l\<lparr>newlineBefore := False\<rparr>) = (Some t, l')" "skipSpace u ls = (Some t, l')"
  | (fin) l1 where "Next u a l = ((mkTok EOFT (Pos l1) [] NoMsg)\<lparr>tNewlineBefore := newlineBefore l1\<rparr>, l1)"
      "reads l l1" "peekR l1 = eofRune"
  | (token) t l1 l' where "Next u a l = (t\<lparr>tNewlineBefore := newlineBefore l1\<rparr>, l')" "reads l l1"
      "peekR l1 \<noteq> eofRune" "scanToken u a (Pos l1) l1 = (t, l')" "scanned (Pos l1) l1 (t, l')" "loff l1 < loff l'"
      "skipSpace u l1 = (None, l1)"
proof -
  obtain o' l1 where s: "skipSpace u (l\<lparr>newlineBefore := False\<rparr>) = (o', l1)"
    by (cases "skipSpace u (l\<lparr>newlineBefore := False\<rparr>)")
  have sp: "spaceSkipped u l (o', l1)"
    using skipSpace_spec [of u "l\<lparr>newlineBefore := False\<rparr>"] unfolding s
    by (cases o') (auto simp: spaceSkipped_def)
  show ?thesis
  proof (cases o')
    case (Some t)
    then obtain ls where "reads l ls" "scanned (Pos ls) ls (t, l1)" "loff ls < loff l1"
        "peekR l1 = eofRune" "skipSpace u ls = (Some t, l1)" "tMessage t = UnclosedComment"
      using sp by (auto simp: spaceSkipped_def)
    moreover have "Next u a l = (t\<lparr>tNewlineBefore := newlineBefore l1\<rparr>, l1)"
      using s Some by (simp add: Next_def)
    ultimately show ?thesis using comment s Some by blast
  next
    case None
    then have r: "reads l l1" "skipSpace u l1 = (None, l1)" using sp by (auto simp: spaceSkipped_def)
    show ?thesis
    proof (cases "peekR l1 = eofRune")
      case True
      then have "Next u a l = ((mkTok EOFT (Pos l1) [] NoMsg)\<lparr>tNewlineBefore := newlineBefore l1\<rparr>, l1)"
        using s None by (simp add: Next_def)
      then show ?thesis using fin r(1) True by blast
    next
      case False
      obtain t l' where t: "scanToken u a (Pos l1) l1 = (t, l')" by (cases "scanToken u a (Pos l1) l1")
      note ok = scanToken_spec [OF False, of u a, unfolded t snd_conv]
      have "Next u a l = (t\<lparr>tNewlineBefore := newlineBefore l1\<rparr>, l')"
        using s None False t ok by (simp add: Next_def Let_def)
      then show ?thesis using token [OF _ r(1) False t _ _ r(2)] ok by blast
    qed
  qed
qed

text \<open>
  C6.  \<open>Next\<close> always makes progress and returns a slice of the source: the token starts at or
  after the cursor, its value is the source text from there to the new cursor, the new cursor is
  within the source and beyond the token's start, and only at the end of the source is the token
  \<open>EOF\<close>.  The safety net against a scanner that consumes nothing is never reached.
\<close>

theorem Next_progress:
  assumes "loff l \<le> length (lsrc l)"
  shows "case Next u a l of (t, l') \<Rightarrow>
     lsrc l' = lsrc l \<and> loff l \<le> posOffset (tPos t) \<and> loff l' \<le> length (lsrc l)
     \<and> tValue t = gosub (lsrc l) (posOffset (tPos t)) (loff l')
     \<and> (if tKind t = EOFT then posOffset (tPos t) = length (lsrc l) \<and> loff l' = length (lsrc l)
        else posOffset (tPos t) < loff l')
     \<and> tMessage t \<noteq> NoProgress \<and> (tKind t = IllegalT \<longleftrightarrow> tMessage t \<noteq> NoMsg)"
proof (cases rule: Next_cases [of u a l])
  case (comment t ls l')
  have "lsrc l' = lsrc ls" "lsrc ls = lsrc l" "loff l \<le> loff ls"
    using comment reads_mono by (auto simp: scanned_def)
  moreover have "loff l' \<le> length (lsrc l)"
    using reads_mono(3) [of ls l'] reads_mono(3) [of l ls] assms comment calculation by (simp add: scanned_def)
  ultimately show ?thesis using comment by (auto simp: scanned_def tokText_def Pos_def)
next
  case (fin l1)
  then have "lsrc l1 = lsrc l" "loff l \<le> loff l1" "loff l1 = length (lsrc l)"
    using reads_mono [OF fin(2)] assms by (auto simp: peekR_eof)
  then show ?thesis using fin by (simp add: mkTok_def Pos_def)
next
  case (token t l1 l')
  have "lsrc l' = lsrc l1" "lsrc l1 = lsrc l" "loff l \<le> loff l1"
    using token reads_mono by (auto simp: scanned_def)
  moreover have "loff l' \<le> length (lsrc l)"
    using reads_mono(3) [of l1 l'] reads_mono(3) [of l l1] assms token calculation by (simp add: scanned_def)
  ultimately show ?thesis using token by (auto simp: scanned_def tokText_def Pos_def)
qed

section \<open>Positions\<close>

lemma peek_decode: "loff l < length (lsrc l) \<Longrightarrow> peek l = decodeRune (drop (loff l) (lsrc l))"
  by (simp add: peek_def Let_def Cons_nth_drop_Suc [symmetric])

lemma decodeRune_take:
  assumes "snd (decodeRune s) \<le> m" "0 < m"
  shows "decodeRune (take m s) = decodeRune s"
proof (cases s)
  case (Cons b0 bs)
  obtain k where m: "m = Suc k" using assms(2) by (cases m) auto
  have k: "k = 0 \<or> k = Suc 0 \<or> k = Suc (Suc 0) \<or> (\<exists>j. k = Suc (Suc (Suc j)))"
    by (metis nat.exhaust)
  note w = assms(1) [unfolded Cons m]
  consider "bs = []" | b1 where "bs = [b1]" | b1 b2 where "bs = [b1, b2]"
    | b1 b2 b3 r where "bs = b1 # b2 # b3 # r"
    by (metis list.exhaust)
  then show ?thesis
  proof cases
    case 2
    from k show ?thesis using w unfolding Cons m 2 by (elim disjE exE) (simp_all add: Let_def split: if_splits)
  next
    case 3
    from k show ?thesis using w unfolding Cons m 3 by (elim disjE exE) (simp_all add: Let_def split: if_splits)
  next
    case 4
    from k show ?thesis using w unfolding Cons m 4 by (elim disjE exE) (simp_all add: Let_def split: if_splits, auto)
  qed (simp add: Cons m)
qed simp

lemma length_encode16one:
  "0 \<le> r \<Longrightarrow> r \<le> 0x10FFFF \<Longrightarrow> length (encode16one r) = (if r > 0xFFFF then 2 else 1)"
  by (simp add: encode16one_def)

text \<open>The line and the column after some runes, from their definition.\<close>

definition lineAfter :: "rune list \<Rightarrow> nat" where
  "lineAfter rs = 1 + length (filter isLineTerminator rs)"

definition colAfter :: "rune list \<Rightarrow> nat" where
  "colAfter rs = 1 + length (encode16 (rev (takeWhile (\<lambda>r. \<not> isLineTerminator r) (rev rs))))"

definition startOf :: "gostring \<Rightarrow> lexer" where
  "startOf s = \<lparr>lsrc = s, loff = 0, lline = 1, lcol = 1, newlineBefore = False\<rparr>"

lemma positions_power:
  "\<exists>rs. lline ((advance ^^ n) (startOf s)) = lineAfter rs \<and> lcol ((advance ^^ n) (startOf s)) = colAfter rs
     \<and> (\<forall>m. loff ((advance ^^ n) (startOf s)) \<le> m \<longrightarrow> m \<le> length s \<longrightarrow>
          runesOf (take m s) = rs @ runesOf (drop (loff ((advance ^^ n) (startOf s))) (take m s)))"
proof (induction n)
  case 0
  show ?case by (rule exI [of _ "[]"]) (simp add: startOf_def lineAfter_def colAfter_def encode16_def)
next
  case (Suc n)
  let ?l = "(advance ^^ n) (startOf s)"
  have src: "lsrc ?l = s" using reads_mono(1) [OF reads_power [where l = "startOf s" and n = n]] by (simp add: startOf_def)
  obtain rs where rs: "lline ?l = lineAfter rs" "lcol ?l = colAfter rs"
    "\<And>m. loff ?l \<le> m \<Longrightarrow> m \<le> length s \<Longrightarrow> runesOf (take m s) = rs @ runesOf (drop (loff ?l) (take m s))"
    using Suc.IH by blast
  show ?case
  proof (cases "loff ?l < length s")
    case False
    then have "advance ?l = ?l" using peek_spec(2) [of ?l] src by (simp add: advance_def)
    then show ?thesis using Suc.IH by simp
  next
    case True
    obtain r w where p: "peek ?l = (r, w)" by (cases "peek ?l")
    have d: "decodeRune (drop (loff ?l) s) = (r, w)" using peek_decode [of ?l] True src p by simp
    have r: "0 \<le> r" "r \<le> 0x10FFFF" "0 < w"
      using decodeRune_scalar [of "drop (loff ?l) s"] decodeRune_width [of "drop (loff ?l) s"] True d
      by (auto simp: validScalar_def)
    have off: "loff (advance ?l) = loff ?l + w" using p by (simp add: advance_off)
    have run: "runesOf (take m s) = (rs @ [r]) @ runesOf (drop (loff ?l + w) (take m s))"
      if m: "loff ?l + w \<le> m" "m \<le> length s" for m
    proof -
      have "drop (loff ?l) (take m s) = take (m - loff ?l) (drop (loff ?l) s)" by (simp add: drop_take)
      moreover have "decodeRune (take (m - loff ?l) (drop (loff ?l) s)) = (r, w)"
        using decodeRune_take [of "drop (loff ?l) s" "m - loff ?l"] d m r(3) by simp
      moreover have "drop (loff ?l) (take m s) \<noteq> []" using m r(3) by simp
      ultimately have "runesOf (drop (loff ?l) (take m s)) = r # runesOf (drop w (drop (loff ?l) (take m s)))"
        using r(3) by (subst runesOf.simps) (simp add: max_def)
      then show ?thesis using rs(3) [of m] m by (simp add: add.commute)
    qed
    have "lline (advance ?l) = lineAfter (rs @ [r])" "lcol (advance ?l) = colAfter (rs @ [r])"
      using p r rs(1,2) length_encode16one [OF r(1,2)]
      by (auto simp: advance_def eofRune_def lineAfter_def colAfter_def encode16_def)
    then show ?thesis using run off by (intro exI [of _ "rs @ [r]"]) simp
  qed
qed

lemma reads_positions:
  assumes "reads (startOf s) l" 
  shows "lline l = lineAfter (runesOf (take (loff l) s)) \<and> lcol l = colAfter (runesOf (take (loff l) s))"
proof -
  obtain n where n: "cursor l = cursor ((advance ^^ n) (startOf s))" using assms by (auto simp: reads_def)
  have le: "loff l \<le> length s"
    using reads_mono(3) [OF assms] by (simp add: startOf_def)
  obtain rs where rs: "lline l = lineAfter rs" "lcol l = colAfter rs"
      "runesOf (take (loff l) s) = rs @ runesOf (drop (loff l) (take (loff l) s))"
    using positions_power [where n = n and s = s] n le by (auto simp: cursor_fields)
  then have "runesOf (take (loff l) s) = rs" by (simp add: runesOf.simps [of "[]"])
  then show ?thesis using rs by simp
qed

text \<open>
  C7.  Positions mean what they say: after reading any tokens of a source from its start, in
  whatever modes, line and column are those of the text before the cursor (lines counted by line
  terminators, columns by UTF-16 code units), so backing out of an empty exponent loses nothing.
\<close>

theorem Next_positions:
  assumes "reads (startOf s) l"
  shows "case Next u a l of (t, l') \<Rightarrow>
     posLine (tPos t) = lineAfter (runesOf (take (posOffset (tPos t)) s))
     \<and> posCol (tPos t) = colAfter (runesOf (take (posOffset (tPos t)) s))
     \<and> lline l' = lineAfter (runesOf (take (loff l') s))
     \<and> lcol l' = colAfter (runesOf (take (loff l') s)) \<and> reads (startOf s) l'"
proof (cases rule: Next_cases [of u a l])
  case (comment t ls l')
  have "reads (startOf s) ls" by (rule reads_trans [OF assms comment(2)])
  moreover from this have "reads (startOf s) l'"
    using comment(3) by (auto simp: scanned_def intro: reads_trans)
  ultimately show ?thesis using comment(1,3) reads_positions by (simp add: scanned_def Pos_def)
next
  case (fin l1)
  have "reads (startOf s) l1" by (rule reads_trans [OF assms fin(2)])
  then show ?thesis using fin(1) reads_positions by (simp add: mkTok_def Pos_def)
next
  case (token t l1 l')
  have "reads (startOf s) l1" by (rule reads_trans [OF assms token(2)])
  moreover from this have "reads (startOf s) l'"
    using token(5) by (auto simp: scanned_def intro: reads_trans)
  ultimately show ?thesis using token(1,5) reads_positions by (simp add: scanned_def Pos_def)
qed

lemma Next_positions_witness:
  "posCol (tPos (fst (Next asciiTab False (New (ascii ''  ab''))))) = 3"
proof -
  have "New (ascii ''  ab'') = startOf (ascii ''  ab'')" by code_simp
  then have "reads (startOf (ascii ''  ab'')) (New (ascii ''  ab''))" by simp
  from Next_positions [OF this, of asciiTab False]
  have "posCol (tPos (fst (Next asciiTab False (New (ascii ''  ab'')))))
      = colAfter (runesOf (take (posOffset (tPos (fst (Next asciiTab False (New (ascii ''  ab'')))))) (ascii ''  ab'')))"
    by (auto split: prod.splits)
  also have "\<dots> = 3" by code_simp
  finally show ?thesis .
qed

lemma Next_progress_witness:
  "tMessage (fst (Next asciiTab True (New (ascii ''@'')))) \<noteq> NoProgress"
proof -
  have "loff (New (ascii ''@'')) \<le> length (lsrc (New (ascii ''@'')))" by code_simp
  from Next_progress [OF this, of asciiTab True] show ?thesis by (auto split: prod.splits)
qed

section \<open>Maximal munch\<close>

text \<open>
  C8.  \<open>scanPunct\<close> takes the longest punctuator: the token is a punctuator that matches at the
  cursor (\<open>?.\<close> does not match before a digit), no longer one matches, and the token is illegal
  exactly when none does.
\<close>

theorem scanPunct_longest:
  "case scanPunct start l of (t, l') \<Rightarrow>
     if \<exists>p \<in> set puncts. punctMatches l p
     then (tValue t, tKind t) \<in> set puncts \<and> punctMatches l (tValue t, tKind t)
       \<and> (\<forall>p \<in> set puncts. punctMatches l p \<longrightarrow> length (fst p) \<le> length (tValue t))
       \<and> loff l' = loff l + length (tValue t)
     else tKind t = IllegalT"
proof (cases "find (punctMatches l) puncts")
  case None
  then have "\<not> (\<exists>p \<in> set puncts. punctMatches l p)" by (auto simp: find_None_iff)
  then show ?thesis using None by (simp add: scanPunct_def illegal_def mkTok_def)
next
  case (Some p)
  have sorted: "sorted_wrt (\<lambda>p q. length (fst q) \<le> length (fst p)) puncts" by code_simp
  obtain i where i: "i < length puncts" "punctMatches l p" "p = puncts ! i"
      "\<And>j. j < i \<Longrightarrow> \<not> punctMatches l (puncts ! j)"
    using Some by (auto simp: find_Some_iff)
  have longest: "length (fst q) \<le> length (fst p)" if q: "q \<in> set puncts" "punctMatches l q" for q
  proof -
    obtain j where j: "j < length puncts" "q = puncts ! j" using q(1) unfolding in_set_conv_nth by metis
    then have "i \<le> j" using i(4) q(2) by (meson not_le)
    then show ?thesis using sorted i j by (cases "i = j") (auto simp: sorted_wrt_iff_nth_less)
  qed
  have p: "p \<in> set puncts" using i by simp
  have "loff ((advance ^^ length (fst p)) l) = loff l + length (fst p)"
    using advance_ascii [of l "fst p" "length (fst p)"] puncts_ok p i(2) by (simp add: punctMatches_def)
  moreover have "\<exists>p \<in> set puncts. punctMatches l p" using p i(2) by blast
  ultimately show ?thesis using Some i(2) p longest by (simp add: scanPunct_def mkTok_def)
qed

lemma scanPunct_longest_witness:
  "4 \<le> length (tValue (fst (scanPunct (Pos (New (ascii ''>>>=x''))) (New (ascii ''>>>=x'')))))"
proof -
  have "(ascii ''>>>='', UShrAssignT) \<in> set puncts" "punctMatches (New (ascii ''>>>=x'')) (ascii ''>>>='', UShrAssignT)"
    "length (ascii ''>>>='') = 4" by code_simp+
  then show ?thesis
    using scanPunct_longest [where start = "Pos (New (ascii ''>>>=x''))" and l = "New (ascii ''>>>=x'')"]
    by (fastforce split: prod.splits if_splits)
qed

section \<open>Reading a whole source\<close>

text \<open>
  The parser reads one token at a time and chooses the mode of the next from those it has seen.
  \<open>token_source\<close> is what it relies on: reading keeps the state well-formed, and every token
  but the last one consumes something.
\<close>

primrec readTokens :: "('m \<Rightarrow> 's \<Rightarrow> 't \<times> 's) \<Rightarrow> ('t \<Rightarrow> bool) \<Rightarrow> ('t list \<Rightarrow> 'm) \<Rightarrow> nat \<Rightarrow> 't list \<Rightarrow> 's
    \<Rightarrow> 't list \<times> 's" where
  "readTokens read stop mode 0 seen s = (seen, s)"
| "readTokens read stop mode (Suc n) seen s =
     (case read (mode seen) s of
        (t, s') \<Rightarrow> if stop t then (seen @ [t], s') else readTokens read stop mode n (seen @ [t]) s')"

locale token_source =
  fixes read :: "'m \<Rightarrow> 's \<Rightarrow> 't \<times> 's" and stop :: "'t \<Rightarrow> bool"
    and good :: "'s \<Rightarrow> bool" and rest :: "'s \<Rightarrow> nat"
    and before :: "'s \<Rightarrow> 't \<Rightarrow> bool" and ordered :: "'t \<Rightarrow> 't \<Rightarrow> bool"
  assumes keeps: "good s \<Longrightarrow> good (snd (read m s))"
    and progress: "good s \<Longrightarrow> \<not> stop (fst (read m s)) \<Longrightarrow> rest (snd (read m s)) < rest s"
    and starts: "good s \<Longrightarrow> before s (fst (read m s))"
    and follows: "good s \<Longrightarrow> before (snd (read m s)) t \<Longrightarrow> ordered (fst (read m s)) t \<and> before s t"
begin

lemma reads_to_stop:
  assumes "good s" "rest s < n"
  shows "\<exists>ts t s'. readTokens read stop mode n seen s = (seen @ ts @ [t], s') \<and> stop t
    \<and> list_all (\<lambda>x. \<not> stop x) ts \<and> length ts \<le> rest s
    \<and> sorted_wrt ordered (ts @ [t]) \<and> list_all (before s) (ts @ [t]) \<and> good s'"
  using assms
proof (induction n arbitrary: seen s)
  case (Suc n)
  obtain x s1 where r: "read (mode seen) s = (x, s1)" by (cases "read (mode seen) s")
  note law = keeps [OF Suc.prems(1), of "mode seen"] progress [OF Suc.prems(1), of "mode seen"]
    starts [OF Suc.prems(1), of "mode seen"]
  show ?case
  proof (cases "stop x")
    case True
    then show ?thesis using r law by (intro exI [of _ "[]"] exI [of _ x] exI [of _ s1]) simp
  next
    case False
    then have "good s1" "rest s1 < rest s" using law r by auto
    then obtain ts t s' where t: "readTokens read stop mode n (seen @ [x]) s1 = ((seen @ [x]) @ ts @ [t], s')"
        "stop t" "list_all (\<lambda>x. \<not> stop x) ts" "length ts \<le> rest s1"
        "sorted_wrt ordered (ts @ [t])" "list_all (before s1) (ts @ [t])" "good s'"
      using Suc.IH [of s1 "seen @ [x]"] Suc.prems(2) by auto
    have "ordered x y \<and> before s y" if "y \<in> set (ts @ [t])" for y
      using follows [OF Suc.prems(1), of "mode seen" y] t(6) that r by (auto simp: list_all_iff)
    then show ?thesis
      using t r False \<open>rest s1 < rest s\<close> law
      by (intro exI [of _ "x # ts"] exI [of _ t] exI [of _ s']) (auto simp: list_all_iff)
  qed
qed simp

end

definition tokenEnd :: "token \<Rightarrow> nat" where
  "tokenEnd t = posOffset (tPos t) + length (tValue t)"

definition inSource :: "lexer \<Rightarrow> bool" where
  "inSource l \<longleftrightarrow> loff l \<le> length (lsrc l)"

lemma Next_result:
  assumes "inSource l" "Next u a l = (t, l')"
  shows "inSource l'" "loff l \<le> posOffset (tPos t)" "loff l' = tokenEnd t"
    "tKind t \<noteq> EOFT \<Longrightarrow> bytesLeft l' < bytesLeft l"
proof -
  have "lsrc l' = lsrc l \<and> loff l \<le> posOffset (tPos t) \<and> loff l' \<le> length (lsrc l)
      \<and> posOffset (tPos t) \<le> loff l' \<and> tValue t = gosub (lsrc l) (posOffset (tPos t)) (loff l')
      \<and> (tKind t \<noteq> EOFT \<longrightarrow> posOffset (tPos t) < loff l')"
  proof (cases rule: Next_cases [of u a l])
    case (comment t1 ls l1)
    then show ?thesis
      using assms reads_mono [of l ls] reads_mono [of ls l1]
      by (auto simp: scanned_def inSource_def tokText_def Pos_def)
  next
    case (fin l1)
    then show ?thesis
      using assms reads_mono [of l l1] by (auto simp: mkTok_def inSource_def Pos_def peekR_eof)
  next
    case (token t1 l1 l2)
    then show ?thesis
      using assms reads_mono [of l l1] reads_mono [of l1 l2]
      by (auto simp: scanned_def inSource_def tokText_def Pos_def)
  qed
  then show "inSource l'" "loff l \<le> posOffset (tPos t)" "loff l' = tokenEnd t"
    "tKind t \<noteq> EOFT \<Longrightarrow> bytesLeft l' < bytesLeft l"
    by (auto simp: inSource_def tokenEnd_def length_gosub bytesLeft_def)
qed

interpretation next_tokens: token_source "Next u" "\<lambda>t. tKind t = EOFT" inSource bytesLeft
    "\<lambda>l t. loff l \<le> posOffset (tPos t)" "\<lambda>s t. tokenEnd s \<le> posOffset (tPos t)" for u
proof
  fix s m
  assume s: "inSource s"
  note n = Next_result [OF s surjective_pairing, of u m]
  show "inSource (snd (Next u m s))" "loff s \<le> posOffset (tPos (fst (Next u m s)))" using n by auto
  show "tKind (fst (Next u m s)) \<noteq> EOFT \<Longrightarrow> bytesLeft (snd (Next u m s)) < bytesLeft s" using n by auto
  fix t
  assume "loff (snd (Next u m s)) \<le> posOffset (tPos t)"
  then show "tokenEnd (fst (Next u m s)) \<le> posOffset (tPos t) \<and> loff s \<le> posOffset (tPos t)"
    using n by (auto simp: tokenEnd_def)
qed

lemma inSource_New: "inSource (New s)"
proof -
  have "reads (startOf s) (New s)"
    using reads_advanceWhile [of "startOf s" "\<lambda>r. \<not> isLineTerminator r"]
    unfolding New_def Let_def startOf_def [symmetric] by simp
  from reads_mono [OF this] show ?thesis by (simp add: inSource_def startOf_def)
qed

lemma bytesLeft_New: "bytesLeft (New s) \<le> length s"
  unfolding New_def Let_def bytesLeft_def using reads_mono(1) [OF reads_advanceWhile] by auto

text \<open>
  C5.  Reading a source to its end terminates, whatever the source, the Unicode tables and the
  modes the parser asks for: at most one token per byte comes before \<open>EOF\<close>, and the tokens are
  in source order without overlapping.
\<close>

theorem lexing_terminates:
  "\<exists>ts t l. readTokens (Next u) (\<lambda>t. tKind t = EOFT) mode (length s + 1) [] (New s) = (ts @ [t], l)
     \<and> tKind t = EOFT \<and> list_all (\<lambda>x. tKind x \<noteq> EOFT) ts \<and> length ts \<le> length s
     \<and> sorted_wrt (\<lambda>x y. tokenEnd x \<le> posOffset (tPos y)) (ts @ [t])"
  using next_tokens.reads_to_stop [of "New s" "length s + 1" u mode "[]"]
    inSource_New [of s] bytesLeft_New [of s]
  by fastforce

section \<open>Reading a token again\<close>

lemma skipSpace_stays:
  assumes "skipSpace u l = (None, l)"
  shows "skipSpace u (l\<lparr>newlineBefore := b\<rparr>) = (None, l\<lparr>newlineBefore := b\<rparr>)"
proof (cases "peekR l = eofRune")
  case True
  then show ?thesis by (subst skipSpace.simps) simp
next
  case ne: False
  obtain closed l2 where b: "blockLoop (advance (advance l)) = (closed, l2)"
    by (cases "blockLoop (advance (advance l))")
  have rb: "reads (advance l) l2"
    using reads_trans [OF reads_one reads_blockLoop, of "advance l"] b by simp
  have no: "skipSpace u l1 \<noteq> (None, l)" if "reads (advance l) l1" for l1
  proof
    assume "skipSpace u l1 = (None, l)"
    then have "reads l1 l" using skipSpace_spec [of u l1] by (simp add: spaceSkipped_def)
    then show False using reads_progress [OF ne reads_trans [OF that]] by blast
  qed
  have r: "reads (advance l) (advance (l\<lparr>newlineBefore := True\<rparr>))" "reads (advance l) (advance l)"
      "reads (advance l) (advanceWhile (\<lambda>c. \<not> isLineTerminator c) (advance (advance l)))"
    by (simp, simp, rule reads_trans [OF reads_one reads_advanceWhile])
  have e: "skipSpace u l =
     (if peekR l = eofRune then (None, l)
      else if isLineTerminator (peekR l) then skipSpace u (advance (l\<lparr>newlineBefore := True\<rparr>))
      else if isWhitespace u (peekR l) then skipSpace u (advance l)
      else if peekR l = rn CHR ''/'' \<and> peekAt 1 l = bt CHR ''/'' then
        skipSpace u (advanceWhile (\<lambda>c. \<not> isLineTerminator c) (advance (advance l)))
      else if peekR l = rn CHR ''/'' \<and> peekAt 1 l = bt CHR ''*'' then
        if closed then skipSpace u l2
        else (Some (mkTok IllegalT (Pos l) (tokText (Pos l) l2) UnclosedComment), l2)
      else (None, l))"
    by (subst skipSpace.simps) (simp only: Let_def b prod.case)
  have f: "\<not> isLineTerminator (peekR l)" "\<not> isWhitespace u (peekR l)"
      "\<not> (peekR l = rn CHR ''/'' \<and> peekAt 1 l = bt CHR ''/'')"
      "\<not> (peekR l = rn CHR ''/'' \<and> peekAt 1 l = bt CHR ''*'')"
    using assms ne no [OF r(1)] no [OF r(2)] no [OF r(3)] no [OF rb] unfolding e
    by (auto split: if_splits)
  show ?thesis
    unfolding skipSpace.simps [of u "l\<lparr>newlineBefore := b\<rparr>"] Let_def peek_newline advance_newline_upd
    using f ne by (simp only: if_False)
qed

lemma scanToken_start: "peekR l \<noteq> eofRune \<Longrightarrow> tPos (fst (scanToken u a (Pos l) l)) = Pos l"
  using scanToken_spec [of l u a] by (auto simp: scanned_def split: prod.splits)

text \<open>
  A token can be read again in the other mode: after any token but \<open>EOF\<close> and an unclosed
  comment, seeking back to its position and reading gives a token that starts at the same place,
  with no line break before it, so the parser may decide late between division and regular
  expression.
\<close>

theorem SeekTo_rereads:
  assumes "loff l \<le> length (lsrc l)" and "Next u a l = (t, l')"
    and "tKind t \<noteq> EOFT" and "tMessage t \<noteq> UnclosedComment"
  shows "tPos (fst (Next u b (SeekTo (tPos t) l'))) = tPos t
    \<and> \<not> tNewlineBefore (fst (Next u b (SeekTo (tPos t) l')))"
proof (cases rule: Next_cases [of u a l])
  case (comment t1 ls l1)
  then show ?thesis using assms(2,4) by simp
next
  case (fin l1)
  then show ?thesis using assms by (simp add: mkTok_def)
next
  case (token t1 l1 l2)
  have t: "tPos t = Pos l1" "l' = l2" using assms(2) token by (auto simp: scanned_def)
  have r: "reads l1 l2" using token(5) by (simp add: scanned_def)
  have le: "loff l1 \<le> length (lsrc l1)" "lsrc l2 = lsrc l1"
    using reads_mono [OF token(2)] assms(1) reads_mono(1) [OF r] by auto
  have c: "(SeekTo (tPos t) l')\<lparr>newlineBefore := False\<rparr> = l1\<lparr>newlineBefore := False\<rparr>"
    using le by (simp add: SeekTo_def t Pos_def)
  let ?l = "l1\<lparr>newlineBefore := False\<rparr>"
  have sk: "skipSpace u ((SeekTo (tPos t) l')\<lparr>newlineBefore := False\<rparr>) = (None, ?l)"
    unfolding c by (rule skipSpace_stays [OF token(7)])
  have ne: "peekR ?l \<noteq> eofRune" using token(3) by simp
  obtain t2 l3 where s: "scanToken u b (Pos ?l) ?l = (t2, l3)" by (cases "scanToken u b (Pos ?l) ?l")
  note ok = scanToken_spec [OF ne, of u b, unfolded s snd_conv]
  have "Next u b (SeekTo (tPos t) l') = (t2\<lparr>tNewlineBefore := False\<rparr>, l3)"
    using sk ne s ok by (simp add: Next_def Let_def)
  then show ?thesis using ok t by (simp add: scanned_def Pos_def)
qed

lemma SeekTo_rereads_witness:
  "tPos (fst (Next asciiTab True (SeekTo (tPos (fst (Next asciiTab False (New (ascii ''/a/'')))))
      (snd (Next asciiTab False (New (ascii ''/a/'')))))))
     = tPos (fst (Next asciiTab False (New (ascii ''/a/''))))"
proof -
  let ?n = "Next asciiTab False (New (ascii ''/a/''))"
  have "loff (New (ascii ''/a/'')) \<le> length (lsrc (New (ascii ''/a/'')))" by code_simp
  moreover have "tKind (fst ?n) \<noteq> EOFT" "tMessage (fst ?n) \<noteq> UnclosedComment" by code_simp+
  ultimately show ?thesis
    using SeekTo_rereads [of "New (ascii ''/a/'')" asciiTab False "fst ?n" "snd ?n" True] by simp
qed

end
