(* ===== verification/JsreSyntax.thy ===== *)
theory JsreSyntax
  imports GoText
begin

text \<open>
  Regular expressions, part one: \<open>pkg/js55/engine/jsre.go\<close> down to the parser.  Nodes are a
  datatype (the source has one struct with a tag), character classes keep the source's split
  into a table for Latin-1 and a list of ranges, and the recursive-descent parser threads its
  state explicitly.  The mutually recursive parser functions carry fuel; \<open>JsreParse\<close> shows that
  the fuel \<open>compileJSRE\<close> gives them is never used up.  Go's \<open>int\<close> wraps, so the bounds of a
  quantifier are reduced with \<open>i64\<close>.
\<close>

section \<open>Character classes\<close>

record charClass =
  clsNeg :: bool
  latin :: "rune \<Rightarrow> bool"
  ranges :: "(rune \<times> rune) list"

definition emptyClass :: charClass where
  "emptyClass = \<lparr>clsNeg = False, latin = (\<lambda>_. False), ranges = []\<rparr>"

definition latinRange :: "rune \<Rightarrow> rune \<Rightarrow> charClass \<Rightarrow> charClass" where
  "latinRange a b c = c\<lparr>latin := (\<lambda>r. latin c r \<or> (a \<le> r \<and> r \<le> b))\<rparr>"

definition addRange :: "rune \<Rightarrow> rune \<Rightarrow> charClass \<Rightarrow> charClass" where
  "addRange a0 b0 c =
     (let (a, b) = (if a0 > b0 then (b0, a0) else (a0, b0)) in
      if b < 256 then latinRange a b c
      else
        let (c1, a1) = (if a < 256 then (latinRange a 255 c, 256) else (c, a))
        in c1\<lparr>ranges := ranges c1 @ [(a1, b)]\<rparr>)"

definition addRune :: "rune \<Rightarrow> charClass \<Rightarrow> charClass" where
  "addRune r = addRange r r"

definition mergeClass :: "charClass \<Rightarrow> charClass \<Rightarrow> charClass" where
  "mergeClass o' c = c\<lparr>latin := (\<lambda>r. latin c r \<or> latin o' r), ranges := ranges c @ ranges o'\<rparr>"

definition hasExact :: "charClass \<Rightarrow> rune \<Rightarrow> bool" where
  "hasExact c r = (if r < 256 then latin c r else (\<exists>rg \<in> set (ranges c). fst rg \<le> r \<and> r \<le> snd rg))"

definition classHas :: "utab \<Rightarrow> charClass \<Rightarrow> rune \<Rightarrow> bool \<Rightarrow> bool" where
  "classHas u c r icase =
     (let ok = hasExact c r;
          ok2 = (if \<not> ok \<and> icase then hasExact c (toLower u r) \<or> hasExact c (toUpper u r) else ok)
      in if clsNeg c then \<not> ok2 else ok2)"

definition wordClass :: charClass where
  "wordClass = addRune 0x5F (addRange 0x61 0x7A (addRange 0x41 0x5A (addRange 0x30 0x39 emptyClass)))"

definition spaceClass :: charClass where
  "spaceClass = addRange 0x2000 0x200A
     (fold addRune [0x9, 0xA, 0xB, 0xC, 0xD, 0x20, 0xA0, 0x1680, 0x2028, 0x2029, 0x202F, 0x205F, 0x3000, 0xFEFF]
        emptyClass)"

definition unicodeClass :: "byte \<Rightarrow> charClass" where
  "unicodeClass kind =
     (if kind = bt CHR ''d'' then addRange 0x30 0x39 emptyClass
      else if kind = bt CHR ''D'' then (addRange 0x30 0x39 emptyClass)\<lparr>clsNeg := True\<rparr>
      else if kind = bt CHR ''w'' then wordClass
      else if kind = bt CHR ''W'' then wordClass\<lparr>clsNeg := True\<rparr>
      else if kind = bt CHR ''s'' then spaceClass
      else if kind = bt CHR ''S'' then spaceClass\<lparr>clsNeg := True\<rparr>
      else emptyClass)"

section \<open>Nodes and the parser's state\<close>

datatype anchorKind = LineStart | LineEnd | WordBound | NotWordBound

datatype jnode = JEmpty | JLit rune | JDot | JCls charClass | JConcat "jnode list" | JAlt "jnode list"
  | JRepeat jnode (repMin: int) (repMax: int) (repLazy: bool)
  | JCap nat gostring jnode
  | JLook jnode (lookNeg: bool) (lookBehind: bool)
  | JBack nat | JAnchor anchorKind

datatype reErr = Trailing | QuantOnAssertion | OutOfOrder | NothingToRepeat | UnclosedGroup
  | EmptyGroup | UnknownGroup | EmptyName | BadName | UnclosedName | DanglingEscape
  | UnknownBackref | UnclosedClass | OutOfFuel

record jparser =
  pat :: gostring
  ppos :: nat
  ncap :: nat
  names :: "gostring list"
  nameIdx :: "gostring \<Rightarrow> nat option"

record jprog =
  root :: jnode
  pncap :: nat
  icase :: bool
  multiline :: bool
  dotAll :: bool
  pnames :: "gostring list"

definition jpeek :: "jparser \<Rightarrow> byte" where
  "jpeek p = (if ppos p \<ge> length (pat p) then 0 else pat p ! ppos p)"

definition jrest :: "jparser \<Rightarrow> gostring" where
  "jrest p = drop (ppos p) (pat p)"

definition skip :: "nat \<Rightarrow> jparser \<Rightarrow> jparser" where
  "skip n p = p\<lparr>ppos := ppos p + n\<rparr>"

text \<open>Sequencing of fallible steps.\<close>

definition andThen :: "'e + 'a \<Rightarrow> ('a \<Rightarrow> 'e + 'b) \<Rightarrow> 'e + 'b" where
  "andThen m f = (case m of Inl e \<Rightarrow> Inl e | Inr x \<Rightarrow> f x)"

lemma andThen_simps [simp]: "andThen (Inl e) f = Inl e" "andThen (Inr x) f = f x"
  by (simp_all add: andThen_def)

lemma andThen_cong [fundef_cong]:
  "m = m' \<Longrightarrow> (\<And>x. m' = Inr x \<Longrightarrow> f x = f' x) \<Longrightarrow> andThen m f = andThen m' f'"
  by (cases m') (simp_all add: andThen_def)

lemma andThen_Inr: "andThen m f = Inr y \<longleftrightarrow> (\<exists>x. m = Inr x \<and> f x = Inr y)"
  by (cases m) auto

text \<open>
  \<open>holds P m\<close>: the step does not run out of fuel, and if it succeeds its result satisfies
  \<open>P\<close>.  The rules follow the code.
\<close>

named_theorems holding \<open>rules for the outcome of a fallible step\<close>

definition holds :: "('a \<Rightarrow> bool) \<Rightarrow> reErr + 'a \<Rightarrow> bool" where
  "holds P m \<longleftrightarrow> (case m of Inl e \<Rightarrow> e \<noteq> OutOfFuel | Inr x \<Rightarrow> P x)"

lemma holds_simps [simp]: "holds P (Inl e) = (e \<noteq> OutOfFuel)" "holds P (Inr x) = P x"
  by (simp_all add: holds_def)

lemma holds_if [holding]: "(b \<Longrightarrow> holds P x) \<Longrightarrow> (\<not> b \<Longrightarrow> holds P y) \<Longrightarrow> holds P (if b then x else y)"
  by simp

lemma holds_andThen [holding]: "holds Q m \<Longrightarrow> (\<And>x. Q x \<Longrightarrow> holds P (f x)) \<Longrightarrow> holds P (andThen m f)"
  by (cases m) simp_all

lemma holds_mono: "holds Q m \<Longrightarrow> (\<And>x. Q x \<Longrightarrow> P x) \<Longrightarrow> holds P m"
  by (cases m) simp_all

section \<open>Quantifiers\<close>

definition isDigitB :: "byte \<Rightarrow> bool" where
  "isDigitB c \<longleftrightarrow> bt CHR ''0'' \<le> c \<and> c \<le> bt CHR ''9''"

function readInt :: "gostring \<Rightarrow> int \<Rightarrow> nat \<Rightarrow> int \<times> nat" where
  "readInt s n i =
     (if i < length s \<and> isDigitB (s ! i)
      then readInt s (i64 (n * 10 + uint (s ! i - bt CHR ''0''))) (i + 1) else (n, i))"
  by pat_completeness auto
termination by (relation "measure (\<lambda>(s, n, i). length s - i)") auto

declare readInt.simps [simp del]

text \<open>What follows the minimum: nothing, an open upper bound, or a maximum.\<close>

definition braceMax :: "int \<Rightarrow> jparser \<Rightarrow> int \<times> jparser" where
  "braceMax mn p =
     (if jpeek p = bt CHR '','' then
        let p1 = skip 1 p in
        if isDigitB (jpeek p1)
        then (case readInt (pat p1) 0 (ppos p1) of (mx, i) \<Rightarrow> (mx, p1\<lparr>ppos := i\<rparr>))
        else (- 1, p1)
      else (mn, p))"

text \<open>\<open>{min,max}\<close>; no result (and no movement) when the brace does not open a quantifier.\<close>

definition braceQuant :: "jparser \<Rightarrow> reErr + (int \<times> int) option \<times> jparser" where
  "braceQuant p =
     (let p1 = skip 1 p in
      if ppos p1 \<ge> length (pat p) \<or> \<not> isDigitB (pat p ! ppos p1) then Inr (None, p)
      else
        (case readInt (pat p) 0 (ppos p1) of (mn, i) \<Rightarrow>
           (case braceMax mn (p1\<lparr>ppos := i\<rparr>) of (mx, p3) \<Rightarrow>
              if jpeek p3 \<noteq> bt CHR ''}'' then Inr (None, p)
              else if mx \<ge> 0 \<and> mx < mn then Inl OutOfOrder
              else Inr (Some (mn, mx), skip 1 p3))))"

definition quantifier :: "jparser \<Rightarrow> reErr + (int \<times> int \<times> bool) option \<times> jparser" where
  "quantifier p =
     (let c = jpeek p;
          r = (if c = bt CHR ''*'' then Inr (Some (0, - 1), skip 1 p)
               else if c = bt CHR ''+'' then Inr (Some (1, - 1), skip 1 p)
               else if c = bt CHR ''?'' then Inr (Some (0, 1), skip 1 p)
               else if c = bt CHR ''{'' then braceQuant p
               else Inr (None, p))
      in andThen r (\<lambda>(q, p1).
           case q of
             None \<Rightarrow> Inr (None, p1)
           | Some (mn, mx) \<Rightarrow>
               if jpeek p1 = bt CHR ''?'' then Inr (Some (mn, mx, True), skip 1 p1)
               else Inr (Some (mn, mx, False), p1)))"

section \<open>Names, hexadecimal digits and escapes\<close>

definition isNameByte :: "byte \<Rightarrow> bool" where
  "isNameByte c \<longleftrightarrow> c = bt CHR ''_'' \<or> c = bt CHR ''$'' \<or> (bt CHR ''A'' \<le> c \<and> c \<le> bt CHR ''Z'')
     \<or> (bt CHR ''a'' \<le> c \<and> c \<le> bt CHR ''z'') \<or> isDigitB c"

function readNameFrom :: "nat \<Rightarrow> jparser \<Rightarrow> reErr + gostring \<times> jparser" where
  "readNameFrom start p =
     (if ppos p < length (pat p) then
        let c = pat p ! ppos p in
        if c = bt CHR ''>'' then
          if ppos p = start then Inl EmptyName
          else Inr (gosub (pat p) start (ppos p), skip 1 p)
        else if \<not> isNameByte c then Inl BadName
        else readNameFrom start (skip 1 p)
      else Inl UnclosedName)"
  by pat_completeness auto
termination by (relation "measure (\<lambda>(start, p). length (pat p) - ppos p)") (auto simp: skip_def)

declare readNameFrom.simps [simp del]

definition readName :: "jparser \<Rightarrow> reErr + gostring \<times> jparser" where
  "readName p = readNameFrom (ppos p) p"

definition hexDigit :: "byte \<Rightarrow> int option" where
  "hexDigit c =
     (if isDigitB c then Some (uint (c - bt CHR ''0''))
      else if bt CHR ''a'' \<le> c \<and> c \<le> bt CHR ''f'' then Some (uint (c - bt CHR ''a'' + 10))
      else if bt CHR ''A'' \<le> c \<and> c \<le> bt CHR ''F'' then Some (uint (c - bt CHR ''A'' + 10))
      else None)"

text \<open>The loop moves the parser also past the digits it read before one that is not a digit.\<close>

fun hexLoop :: "nat \<Rightarrow> int \<Rightarrow> jparser \<Rightarrow> rune option \<times> jparser" where
  "hexLoop 0 v p = (Some v, p)"
| "hexLoop (Suc k) v p =
     (case hexDigit (pat p ! ppos p) of
        None \<Rightarrow> (None, p)
      | Some d \<Rightarrow> hexLoop k (v * 16 + d) (skip 1 p))"

definition readHex :: "nat \<Rightarrow> jparser \<Rightarrow> rune option \<times> jparser" where
  "readHex n p = (if ppos p + n > length (pat p) then (None, p) else hexLoop n 0 p)"

text \<open>The further digits of a back reference, up to 99.\<close>

function backDigits :: "nat \<Rightarrow> jparser \<Rightarrow> nat \<times> jparser" where
  "backDigits idx p =
     (if ppos p < length (pat p) \<and> isDigitB (pat p ! ppos p) then
        let n = idx * 10 + unat (pat p ! ppos p - bt CHR ''0'')
        in if n > 99 then (idx, p) else backDigits n (skip 1 p)
      else (idx, p))"
  by pat_completeness auto
termination by (relation "measure (\<lambda>(idx, p). length (pat p) - ppos p)") (auto simp: skip_def)

declare backDigits.simps [simp del]

text \<open>The result is the node, whether it is an assertion, and the parser.\<close>

definition parseEscape :: "bool \<Rightarrow> jparser \<Rightarrow> reErr + jnode \<times> bool \<times> jparser" where
  "parseEscape inClass p0 =
     (let p1 = skip 1 p0 in
      if ppos p1 \<ge> length (pat p1) then Inl DanglingEscape
      else
        let c = pat p1 ! ppos p1; p = skip 1 p1; lit = (\<lambda>r. Inr (JLit r, False, p)) in
        if c \<in> {bt CHR ''d'', bt CHR ''D'', bt CHR ''w'', bt CHR ''W'', bt CHR ''s'', bt CHR ''S''}
        then Inr (JCls (unicodeClass c), False, p)
        else if c = bt CHR ''b'' then
          (if inClass then lit 8 else Inr (JAnchor WordBound, True, p))
        else if c = bt CHR ''B'' then
          (if inClass then lit 0x42 else Inr (JAnchor NotWordBound, True, p))
        else if c = bt CHR ''n'' then lit 0xA
        else if c = bt CHR ''r'' then lit 0xD
        else if c = bt CHR ''t'' then lit 0x9
        else if c = bt CHR ''f'' then lit 0xC
        else if c = bt CHR ''v'' then lit 0xB
        else if c = bt CHR ''0'' then lit 0
        else if c = bt CHR ''x'' then
          (case readHex 2 p of
             (None, p') \<Rightarrow> Inr (JLit 0x78, False, p') | (Some r, p') \<Rightarrow> Inr (JLit r, False, p'))
        else if c = bt CHR ''u'' then
          (case readHex 4 p of
             (None, p') \<Rightarrow> Inr (JLit 0x75, False, p') | (Some r, p') \<Rightarrow> Inr (JLit r, False, p'))
        else if c = bt CHR ''k'' then
          (if jpeek p = bt CHR ''<'' then
             andThen (readName (skip 1 p)) (\<lambda>(name, p').
               case nameIdx p' name of
                 None \<Rightarrow> Inl UnknownBackref
               | Some idx \<Rightarrow> Inr (JBack idx, False, p'))
           else lit 0x6B)
        else if bt CHR ''1'' \<le> c \<and> c \<le> bt CHR ''9'' \<and> \<not> inClass then
          (case backDigits (unat (c - bt CHR ''0'')) p of (idx, p') \<Rightarrow> Inr (JBack idx, False, p'))
        else
          (case decodeRune (encodeRune8 (uint c) @ jrest p) of
             (r, sz) \<Rightarrow> Inr (JLit r, False, skip (sz - 1) p)))"

end
