(* ===== verification/JsreMatch.thy ===== *)
theory JsreMatch
  imports JsreSyntax
begin

text \<open>
  Regular expressions, part two: the backtracking matcher of \<open>pkg/js55/engine/jsre.go\<close>.  It is
  in continuation-passing style as the source: a continuation says whether the rest matches
  from a position, and everything the closures share (the capture slots, the gas counter, the
  abort flag, the step counter) is a state that runs thread.  A run is a function from that
  state to a verdict and a new state, and the matcher is built from a few combinators of runs,
  so that a property of the combinators is one of the matcher (\<open>JsreRuns\<close>).

  The recursion is on the node; repetition adds a counter.  The interrupt callback is a
  function of the number of steps taken.  Gas is \<open>None\<close> where the source has a nil pointer.
\<close>

section \<open>Runs\<close>

record rst =
  caps :: "int list"
  gas :: "int option"
  aborted :: bool
  steps :: nat

type_synonym run = "rst \<Rightarrow> bool \<times> rst"

definition jsreGasNode :: int where "jsreGasNode = 1"
definition jsreGasBacktrack :: int where "jsreGasBacktrack = 2"
definition jsreMaxInputLen :: nat where "jsreMaxInputLen = 2 ^ 20"

definition ret :: "bool \<Rightarrow> run" where
  "ret b st = (b, st)"

definition bindR :: "run \<Rightarrow> (bool \<Rightarrow> run) \<Rightarrow> run" where
  "bindR m f st = (case m st of (b, st') \<Rightarrow> f b st')"

definition guardR :: "run \<Rightarrow> run \<Rightarrow> run" where
  "guardR m1 m2 = bindR m1 (\<lambda>b. if b then m2 else ret False)"

definition orElse :: "run \<Rightarrow> run \<Rightarrow> run" where
  "orElse m1 m2 = bindR m1 (\<lambda>b. if b then ret True else m2)"

definition unlessAborted :: "run \<Rightarrow> run" where
  "unlessAborted m st = (if aborted st then (False, st) else m st)"

definition withCaps :: "(int list \<Rightarrow> run) \<Rightarrow> run" where
  "withCaps f st = f (caps st) st"

definition charge :: "int \<Rightarrow> run" where
  "charge n st =
     (if aborted st then (False, st)
      else
        (case gas st of
           None \<Rightarrow> (True, st)
         | Some g \<Rightarrow>
             if g \<le> n then (False, st\<lparr>gas := Some 0, aborted := True\<rparr>)
             else (True, st\<lparr>gas := Some (g - n)\<rparr>)))"

type_synonym interrupt = "(nat \<Rightarrow> bool) option"

definition enter :: "interrupt \<Rightarrow> run" where
  "enter irq st =
     (if aborted st then (False, st)
      else
        let st1 = st\<lparr>steps := steps st + 1\<rparr>
        in if (case irq of None \<Rightarrow> False | Some f \<Rightarrow> steps st1 mod 256 = 0 \<and> f (steps st1))
           then (False, st1\<lparr>aborted := True\<rparr>)
           else charge jsreGasNode st1)"

definition capsFit :: "nat \<Rightarrow> int list \<Rightarrow> bool" where
  "capsFit i cs \<longleftrightarrow> i * 2 + 1 < length cs"

definition setCap :: "nat \<Rightarrow> int \<Rightarrow> int \<Rightarrow> run" where
  "setCap i a b st =
     (True, st\<lparr>caps := (if capsFit i (caps st) then (caps st)[i * 2 := a, i * 2 + 1 := b] else caps st)\<rparr>)"

section \<open>Runes of the subject\<close>

definition runeAt :: "gostring \<Rightarrow> nat \<Rightarrow> rune \<times> nat" where
  "runeAt s pos = decodeRune (drop pos s)"

definition eqRune :: "utab \<Rightarrow> jprog \<Rightarrow> rune \<Rightarrow> rune \<Rightarrow> bool" where
  "eqRune u p a b \<longleftrightarrow> a = b \<or> (icase p \<and> toLower u a = toLower u b)"

definition eqFold :: "utab \<Rightarrow> gostring \<Rightarrow> gostring \<Rightarrow> bool" where
  "eqFold u a b \<longleftrightarrow> map (toLower u) (runesOf a) = map (toLower u) (runesOf b)"

definition isNL :: "rune \<Rightarrow> bool" where
  "isNL r \<longleftrightarrow> r = 0xA \<or> r = 0xD \<or> r = 0x2028 \<or> r = 0x2029"

definition prevRune :: "gostring \<Rightarrow> nat \<Rightarrow> rune" where
  "prevRune s pos = (if pos = 0 then 0 else fst (decodeLastRune (take pos s)))"

definition wordRune :: "utab \<Rightarrow> rune \<Rightarrow> bool" where
  "wordRune u r \<longleftrightarrow> r = 0x5F \<or> isLetter u r \<or> isDigit u r"

definition isWordBound :: "utab \<Rightarrow> gostring \<Rightarrow> nat \<Rightarrow> bool" where
  "isWordBound u s pos \<longleftrightarrow>
     wordRune u (prevRune s pos) \<noteq> (pos < length s \<and> wordRune u (fst (runeAt s pos)))"

text \<open>Whether an assertion on the position holds.\<close>

definition anchorHolds :: "utab \<Rightarrow> jprog \<Rightarrow> gostring \<Rightarrow> anchorKind \<Rightarrow> nat \<Rightarrow> bool" where
  "anchorHolds u p s a pos =
     (case a of
        LineStart \<Rightarrow> pos = 0 \<or> (multiline p \<and> isNL (prevRune s pos))
      | LineEnd \<Rightarrow> pos = length s \<or> (multiline p \<and> pos < length s \<and> isNL (fst (runeAt s pos)))
      | WordBound \<Rightarrow> isWordBound u s pos
      | NotWordBound \<Rightarrow> \<not> isWordBound u s pos)"

text \<open>A node that consumes one rune: whether it accepts the rune.\<close>

definition runeMatches :: "utab \<Rightarrow> jprog \<Rightarrow> jnode \<Rightarrow> rune \<Rightarrow> bool" where
  "runeMatches u p n r =
     (case n of
        JLit r' \<Rightarrow> eqRune u p r r'
      | JDot \<Rightarrow> dotAll p \<or> \<not> isNL r
      | JCls c \<Rightarrow> classHas u c r (icase p)
      | _ \<Rightarrow> False)"

section \<open>The matcher\<close>

type_synonym matcher = "nat \<Rightarrow> (nat \<Rightarrow> run) \<Rightarrow> run"

definition stepRune :: "utab \<Rightarrow> jprog \<Rightarrow> gostring \<Rightarrow> jnode \<Rightarrow> matcher" where
  "stepRune u p s n pos k =
     (if pos \<ge> length s then ret False
      else
        (case runeAt s pos of (r, sz) \<Rightarrow> if runeMatches u p n r then k (pos + sz) else ret False))"

primrec walkKids :: "matcher list \<Rightarrow> matcher" where
  "walkKids [] pos k = k pos"
| "walkKids (m # ms) pos k = m pos (\<lambda>np. walkKids ms np k)"

text \<open>The alternatives after the first one are charged for.\<close>

primrec tryKids :: "bool \<Rightarrow> matcher list \<Rightarrow> matcher" where
  "tryKids first [] pos k = ret False"
| "tryKids first (m # ms) pos k =
     guardR (if first then ret True else charge jsreGasBacktrack)
       (orElse (m pos k) (unlessAborted (tryKids False ms pos k)))"

text \<open>
  \<open>take\<close>: \<open>rem\<close> is the number of iterations that are left before \<open>max\<close>.
\<close>

fun takeMore :: "matcher \<Rightarrow> bool \<Rightarrow> int \<Rightarrow> nat \<Rightarrow> int \<Rightarrow> matcher" where
  "takeMore m lazy mn 0 count pos k =
     guardR (charge jsreGasBacktrack)
       (if lazy then (if count \<ge> mn then k pos else ret False) else k pos)"
| "takeMore m lazy mn (Suc rem) count pos k =
     guardR (charge jsreGasBacktrack)
       (if lazy then
          orElse (if count \<ge> mn then k pos else ret False)
            (m pos (\<lambda>np. if np = pos \<and> count \<ge> mn then ret False
                          else takeMore m lazy mn rem (count + 1) np k))
        else
          orElse
            (m pos (\<lambda>np. if np = pos \<and> count \<ge> mn then k pos
                          else takeMore m lazy mn rem (count + 1) np k))
            (unlessAborted (if count \<ge> mn then k pos else ret False)))"

definition repeatMax :: "gostring \<Rightarrow> int \<Rightarrow> int \<Rightarrow> nat \<Rightarrow> int" where
  "repeatMax s mn mx pos = (if mx < 0 then max (int (length s) - int pos + 1) mn else mx)"

definition capture :: "nat \<Rightarrow> matcher \<Rightarrow> matcher" where
  "capture i m pos k =
     withCaps (\<lambda>cs.
       let (oldS, oldE) = (if capsFit i cs then (cs ! (i * 2), cs ! (i * 2 + 1)) else (- 1, - 1))
       in m pos (\<lambda>fin. guardR (setCap i (int pos) (int fin))
            (orElse (k fin) (bindR (setCap i oldS oldE) (\<lambda>_. ret False)))))"

text \<open>The positions before \<open>pos\<close> that the loop of a lookbehind tries, in order.\<close>

function behindFrom :: "gostring \<Rightarrow> nat \<Rightarrow> nat \<Rightarrow> matcher \<Rightarrow> run" where
  "behindFrom s pos start m =
     (if start > pos then ret False
      else
        orElse (m start (\<lambda>fin. ret (fin = pos)))
          (unlessAborted
             (if start = pos then ret False
              else behindFrom s pos (start + max 1 (snd (runeAt s start))) m)))"
  by pat_completeness auto
termination by (relation "measure (\<lambda>(s, pos, start, m). Suc pos - start)") auto

declare behindFrom.simps [simp del]

definition lookAround :: "gostring \<Rightarrow> bool \<Rightarrow> bool \<Rightarrow> matcher \<Rightarrow> matcher" where
  "lookAround s neg behind m pos k =
     bindR (if behind then behindFrom s pos 0 m else m pos (\<lambda>_. ret True))
       (\<lambda>found. unlessAborted (if found \<noteq> neg then k pos else ret False))"

definition backRef :: "utab \<Rightarrow> jprog \<Rightarrow> gostring \<Rightarrow> nat \<Rightarrow> matcher" where
  "backRef u p s i pos k =
     withCaps (\<lambda>cs.
       if \<not> capsFit i cs then ret False
       else
         let a = cs ! (i * 2); b = cs ! (i * 2 + 1)
         in if a < 0 \<or> b < 0 \<or> b < a then ret False
            else
              let frag = gosub s (nat a) (nat b); l = length frag
              in if pos + l > length s then ret False
                 else
                   let got = gosub s pos (pos + l)
                   in if (if icase p then eqFold u got frag else got = frag) then k (pos + l)
                      else ret False)"

primrec exec :: "utab \<Rightarrow> jprog \<Rightarrow> interrupt \<Rightarrow> gostring \<Rightarrow> jnode \<Rightarrow> matcher" where
  "exec u p irq s JEmpty = (\<lambda>pos k. guardR (enter irq) (k pos))"
| "exec u p irq s (JLit r) = (\<lambda>pos k. guardR (enter irq) (stepRune u p s (JLit r) pos k))"
| "exec u p irq s JDot = (\<lambda>pos k. guardR (enter irq) (stepRune u p s JDot pos k))"
| "exec u p irq s (JCls c) = (\<lambda>pos k. guardR (enter irq) (stepRune u p s (JCls c) pos k))"
| "exec u p irq s (JConcat ts) =
     (\<lambda>pos k. guardR (enter irq) (walkKids (map (exec u p irq s) ts) pos k))"
| "exec u p irq s (JAlt ts) =
     (\<lambda>pos k. guardR (enter irq) (tryKids True (map (exec u p irq s) ts) pos k))"
| "exec u p irq s (JRepeat t mn mx lazy) =
     (\<lambda>pos k. guardR (enter irq)
        (takeMore (exec u p irq s t) lazy mn (nat (repeatMax s mn mx pos)) 0 pos k))"
| "exec u p irq s (JCap i name t) =
     (\<lambda>pos k. guardR (enter irq) (capture i (exec u p irq s t) pos k))"
| "exec u p irq s (JLook t neg behind) =
     (\<lambda>pos k. guardR (enter irq) (lookAround s neg behind (exec u p irq s t) pos k))"
| "exec u p irq s (JBack i) = (\<lambda>pos k. guardR (enter irq) (backRef u p s i pos k))"
| "exec u p irq s (JAnchor a) =
     (\<lambda>pos k. guardR (enter irq) (if anchorHolds u p s a pos then k pos else ret False))"

section \<open>Searching\<close>

definition clearCaps :: "nat \<Rightarrow> rst \<Rightarrow> rst" where
  "clearCaps n st = st\<lparr>caps := replicate ((n + 1) * 2) (- 1)\<rparr>"

text \<open>The loop over the start positions; the verdict is paired with the final state.\<close>

function searchFrom :: "utab \<Rightarrow> jprog \<Rightarrow> interrupt \<Rightarrow> gostring \<Rightarrow> nat \<Rightarrow> rst \<Rightarrow> (int list option \<times> bool) \<times> rst" where
  "searchFrom u p irq s i st =
     (case exec u p irq s (root p) i (\<lambda>fin. setCap 0 (int i) (int fin)) (clearCaps (pncap p) st) of
        (ok, st1) \<Rightarrow>
          if ok then ((Some (caps st1), True), st1)
          else if aborted st1 then ((None, False), st1)
          else if i \<ge> length s then ((None, True), st1)
          else searchFrom u p irq s (i + max 1 (snd (runeAt s i))) st1)"
  by pat_completeness auto
termination by (relation "measure (\<lambda>(u, p, irq, s, i, st). Suc (length s) - i)") auto

declare searchFrom.simps [simp del]

definition defaultGas :: int where "defaultGas = 8000000"

text \<open>
  \<open>now\<close> is what the interrupt callback says before the search.  The second result is the gas
  that is left, where the caller passed a counter.
\<close>

definition findSubmatchIndex ::
  "utab \<Rightarrow> jprog \<Rightarrow> bool \<Rightarrow> interrupt \<Rightarrow> gostring \<Rightarrow> int option \<Rightarrow> (int list option \<times> bool) \<times> int option" where
  "findSubmatchIndex u p now irq s g =
     (if irq \<noteq> None \<and> now then ((None, False), g)
      else if length s > jsreMaxInputLen then ((None, False), g)
      else
        let st = \<lparr>caps = [], gas = Some (case g of None \<Rightarrow> defaultGas | Some x \<Rightarrow> x), aborted = False, steps = 0\<rparr>;
            (r, st1) = searchFrom u p irq s 0 st
        in (r, if g = None then None else gas st1))"

definition FindStringSubmatchIndex :: "utab \<Rightarrow> jprog \<Rightarrow> gostring \<Rightarrow> int list option" where
  "FindStringSubmatchIndex u p s = fst (fst (findSubmatchIndex u p False None s (Some defaultGas)))"

definition FindStringSubmatchIndexWithGas ::
  "utab \<Rightarrow> jprog \<Rightarrow> gostring \<Rightarrow> int option \<Rightarrow> (int list option \<times> bool) \<times> int option" where
  "FindStringSubmatchIndexWithGas u p s g = findSubmatchIndex u p False None s g"

definition FindStringSubmatchIndexInterruptible ::
  "utab \<Rightarrow> jprog \<Rightarrow> bool \<Rightarrow> interrupt \<Rightarrow> gostring \<Rightarrow> int option \<Rightarrow> (int list option \<times> bool) \<times> int option" where
  "FindStringSubmatchIndexInterruptible u p now irq s g = findSubmatchIndex u p now irq s g"

section \<open>The RE2 wrapper\<close>

text \<open>
  Patterns that RE2 can run go to Go's \<open>regexp\<close>, the parameter \<open>finder\<close> here (none when the
  wrapper holds no expression); the wrapper charges the length of the subject.
\<close>

definition re2Find :: "(gostring \<Rightarrow> int list option) option \<Rightarrow> gostring \<Rightarrow> int list option" where
  "re2Find finder s = (case finder of None \<Rightarrow> None | Some f \<Rightarrow> f s)"

definition re2WithGas ::
  "(gostring \<Rightarrow> int list option) option \<Rightarrow> gostring \<Rightarrow> int option \<Rightarrow> (int list option \<times> bool) \<times> int option" where
  "re2WithGas finder s g =
     (if length s > jsreMaxInputLen then ((None, False), g)
      else
        (case g of
           None \<Rightarrow> ((re2Find finder s, True), g)
         | Some x \<Rightarrow>
             if x \<le> 0 then ((None, False), g)
             else
               let y = x - int (length s)
               in if y \<le> 0 then ((None, False), Some y) else ((re2Find finder s, True), Some y)))"

definition re2Interruptible ::
  "(gostring \<Rightarrow> int list option) option \<Rightarrow> bool \<Rightarrow> gostring \<Rightarrow> int option \<Rightarrow> (int list option \<times> bool) \<times> int option" where
  "re2Interruptible finder interrupted s g =
     (if interrupted then ((None, False), g) else re2WithGas finder s g)"

end
