(* ===== verification/JsreRuns.thy ===== *)
theory JsreRuns
  imports JsreMatch
begin

text \<open>
  Properties of whole runs of the matcher.  The locale \<open>run_invariant\<close> is a contract for a
  property of runs: it holds of the primitive steps and is closed under the combinators, and
  then it holds of the matcher on every node.  Three instances: the cost of a run in gas
  (\<open>costed\<close>), the work a run can do with the gas it has (\<open>paid\<close>), and the range of the capture
  slots (\<open>keepsCaps\<close>).
\<close>

section \<open>The contract\<close>

lemma runeAt_width: "pos < length s \<Longrightarrow> 0 < snd (runeAt s pos) \<and> pos + snd (runeAt s pos) \<le> length s"
  using decodeRune_width [of "drop pos s"] by (auto simp: runeAt_def)

locale run_invariant =
  fixes good :: "run \<Rightarrow> bool" and fits :: "int list \<Rightarrow> bool" and pair :: "int \<Rightarrow> int \<Rightarrow> bool"
    and irq :: interrupt and s :: gostring
  assumes good_ret: "good (ret b)"
    and good_bind: "good m \<Longrightarrow> (\<And>b. good (f b)) \<Longrightarrow> good (bindR m f)"
    and good_unless: "good m \<Longrightarrow> good (unlessAborted m)"
    and good_charge: "good (charge jsreGasBacktrack)"
    and good_enter: "good (enter irq)"
    and good_withCaps: "(\<And>cs. fits cs \<Longrightarrow> good (h cs)) \<Longrightarrow> good (withCaps h)"
    and good_setCap: "pair a c \<Longrightarrow> good (setCap i a c)"
    and fits_pair: "fits cs \<Longrightarrow> capsFit i cs \<Longrightarrow> pair (cs ! (i * 2)) (cs ! (i * 2 + 1))"
    and pair_none: "pair (- 1) (- 1)"
    and pair_pos: "pos \<le> fin \<Longrightarrow> fin \<le> length s \<Longrightarrow> pair (int pos) (int fin)"
begin

definition goodK :: "nat \<Rightarrow> (nat \<Rightarrow> run) \<Rightarrow> bool" where
  "goodK pos k \<longleftrightarrow> (\<forall>q. pos \<le> q \<and> q \<le> length s \<longrightarrow> good (k q))"

definition goodM :: "matcher \<Rightarrow> bool" where
  "goodM m \<longleftrightarrow> (\<forall>pos k. pos \<le> length s \<longrightarrow> goodK pos k \<longrightarrow> good (m pos k))"

lemma goodMD:
  "goodM m \<Longrightarrow> pos \<le> length s \<Longrightarrow> (\<And>q. pos \<le> q \<Longrightarrow> q \<le> length s \<Longrightarrow> good (k q)) \<Longrightarrow> good (m pos k)"
  by (simp add: goodM_def goodK_def)

lemma goodKD: "goodK pos k \<Longrightarrow> pos \<le> q \<Longrightarrow> q \<le> length s \<Longrightarrow> good (k q)"
  by (simp add: goodK_def)

lemma goodK_le: "goodK pos k \<Longrightarrow> pos \<le> q \<Longrightarrow> goodK q k"
  by (auto simp: goodK_def)

lemma good_guard: "good m1 \<Longrightarrow> good m2 \<Longrightarrow> good (guardR m1 m2)"
  unfolding guardR_def by (rule good_bind) (auto intro: good_ret)

lemma good_orElse: "good m1 \<Longrightarrow> good m2 \<Longrightarrow> good (orElse m1 m2)"
  unfolding orElse_def by (rule good_bind) (auto intro: good_ret)

lemma good_if: "(b \<Longrightarrow> good x) \<Longrightarrow> (\<not> b \<Longrightarrow> good y) \<Longrightarrow> good (if b then x else y)"
  by simp

lemmas good_intros = good_if good_ret good_guard good_orElse good_unless good_charge good_enter

lemma good_stepRune: "pos \<le> length s \<Longrightarrow> goodK pos k \<Longrightarrow> good (stepRune u p s n pos k)"
  using runeAt_width [of pos s] unfolding stepRune_def
  by (auto intro!: good_intros goodKD [of pos k] split: prod.splits)

lemma good_walk:
  "\<forall>m \<in> set ms. goodM m \<Longrightarrow> pos \<le> length s \<Longrightarrow> goodK pos k \<Longrightarrow> good (walkKids ms pos k)"
proof (induction ms arbitrary: pos)
  case (Cons m ms)
  show ?case unfolding walkKids.simps
    by (rule goodMD) (use Cons in \<open>auto intro: goodK_le\<close>)
qed (auto intro: goodKD)

lemma good_try:
  "\<forall>m \<in> set ms. goodM m \<Longrightarrow> pos \<le> length s \<Longrightarrow> goodK pos k \<Longrightarrow> good (tryKids first ms pos k)"
  by (induction ms arbitrary: first) (auto intro!: good_intros simp: goodM_def)

lemma good_takeMore:
  assumes m: "goodM m" and "pos \<le> length s" "goodK pos k"
  shows "good (takeMore m lazy mn rem count pos k)"
  using assms(2,3)
proof (induction rem arbitrary: count pos)
  case 0
  then show ?case by (auto intro!: good_intros intro: goodKD)
next
  case (Suc rem)
  have body: "good (m pos (\<lambda>np. if np = pos \<and> count \<ge> mn then r else takeMore m lazy mn rem (count + 1) np k))"
    if "good r" for r
    by (rule goodMD [OF m Suc.prems(1)]) (auto intro: Suc.IH that goodK_le [OF Suc.prems(2)])
  have "good (k pos)" by (rule goodKD [OF Suc.prems(2)]) (use Suc.prems(1) in auto)
  then show ?case unfolding takeMore.simps by (intro good_intros body)
qed

lemma good_capture:
  assumes "goodM m" "pos \<le> length s" "goodK pos k"
  shows "good (capture i m pos k)"
  unfolding capture_def
proof (rule good_withCaps)
  fix cs assume fits: "fits cs"
  obtain a c where ac: "(if capsFit i cs then (cs ! (i * 2), cs ! (i * 2 + 1)) else (- 1, - 1)) = (a, c)"
    by (cases "if capsFit i cs then (cs ! (i * 2), cs ! (i * 2 + 1)) else (- 1 :: int, - 1)")
  then have slots: "pair a c" using fits_pair [OF fits, of i] pair_none by (auto split: if_splits)
  have "good (m pos (\<lambda>fin. guardR (setCap i (int pos) (int fin))
      (orElse (k fin) (bindR (setCap i a c) (\<lambda>_. ret False)))))"
    by (rule goodMD [OF assms(1,2)])
      (intro good_intros good_bind good_setCap slots pair_pos goodKD [OF assms(3)], assumption+)
  then show "good (let (oldS, oldE) = if capsFit i cs then (cs ! (i * 2), cs ! (i * 2 + 1)) else (- 1, - 1)
      in m pos (\<lambda>fin. guardR (setCap i (int pos) (int fin))
           (orElse (k fin) (bindR (setCap i oldS oldE) (\<lambda>_. ret False)))))"
    unfolding ac by simp
qed

lemma good_behind:
  assumes m: "goodM m" and pos: "pos \<le> length s"
  shows "good (behindFrom s pos start m)"
proof (induction "Suc pos - start" arbitrary: start rule: less_induct)
  case less
  have one: "good (m start (\<lambda>fin. ret (fin = pos)))" if "\<not> start > pos"
    by (rule goodMD [OF m]) (use that pos in \<open>auto intro: good_ret\<close>)
  have more: "good (behindFrom s pos (start + max 1 (snd (runeAt s start))) m)"
    if "\<not> start > pos" "start \<noteq> pos"
    by (rule less) (use that in auto)
  show ?case by (subst behindFrom.simps) (intro good_intros one more)
qed

lemma good_look:
  assumes "goodM m" "pos \<le> length s" "goodK pos k"
  shows "good (lookAround s neg behind m pos k)"
  unfolding lookAround_def
  using goodKD [OF assms(3)] assms(2) good_behind [OF assms(1,2)] goodMD [OF assms(1,2), of "\<lambda>_. ret True"]
  by (intro good_bind good_intros) (auto intro: good_ret)

lemma good_backRef: "pos \<le> length s \<Longrightarrow> goodK pos k \<Longrightarrow> good (backRef u p s i pos k)"
  unfolding backRef_def Let_def
  by (intro good_withCaps good_intros) (auto intro: goodKD)

theorem exec_good: "goodM (exec u p irq s n)"
proof (induction n)
  case (JConcat ts)
  then show ?case by (auto simp: goodM_def intro!: good_intros good_walk)
next
  case (JAlt ts)
  then show ?case by (auto simp: goodM_def intro!: good_intros good_try)
next
  case (JRepeat t mn mx lazy)
  show ?case unfolding goodM_def exec.simps by (intro allI impI good_intros good_takeMore JRepeat)
next
  case (JCap i name t)
  show ?case unfolding goodM_def exec.simps by (intro allI impI good_intros good_capture JCap)
next
  case (JLook t neg behind)
  show ?case unfolding goodM_def exec.simps by (intro allI impI good_intros good_look JLook)
qed (auto simp: goodM_def intro!: good_intros good_stepRune good_backRef intro: goodKD)

lemma exec_whole:
  "pos \<le> length s \<Longrightarrow> good (exec u p irq s n pos (\<lambda>fin. setCap 0 (int pos) (int fin)))"
  by (rule goodMD [OF exec_good]) (auto intro: good_setCap pair_pos)

end

section \<open>Capture slots\<close>

definition pairOk :: "gostring \<Rightarrow> int \<Rightarrow> int \<Rightarrow> bool" where
  "pairOk s a c \<longleftrightarrow> (a = - 1 \<and> c = - 1) \<or> (0 \<le> a \<and> a \<le> c \<and> c \<le> int (length s))"

definition capsOk :: "gostring \<Rightarrow> int list \<Rightarrow> bool" where
  "capsOk s cs \<longleftrightarrow> (\<forall>i. capsFit i cs \<longrightarrow> pairOk s (cs ! (i * 2)) (cs ! (i * 2 + 1)))"

definition keepsCaps :: "gostring \<Rightarrow> run \<Rightarrow> bool" where
  "keepsCaps s m \<longleftrightarrow>
     (\<forall>st. capsOk s (caps st) \<longrightarrow>
       capsOk s (caps (snd (m st))) \<and> length (caps (snd (m st))) = length (caps st))"

lemma capsOk_set: "capsOk s cs \<Longrightarrow> pairOk s a c \<Longrightarrow> capsFit i cs \<Longrightarrow> capsOk s (cs[i * 2 := a, i * 2 + 1 := c])"
  unfolding capsOk_def capsFit_def
proof (intro allI impI)
  fix j assume a: "\<forall>i. i * 2 + 1 < length cs \<longrightarrow> pairOk s (cs ! (i * 2)) (cs ! (i * 2 + 1))" "pairOk s a c"
    "i * 2 + 1 < length cs" "j * 2 + 1 < length (cs[i * 2 := a, i * 2 + 1 := c])"
  have "j * 2 \<noteq> i * 2 + 1" "i * 2 \<noteq> j * 2 + 1" by presburger+
  with a show "pairOk s (cs[i * 2 := a, i * 2 + 1 := c] ! (j * 2)) (cs[i * 2 := a, i * 2 + 1 := c] ! (j * 2 + 1))"
    by (cases "i = j") (auto simp: nth_list_update)
qed

lemma charge_caps [simp]: "caps (snd (charge n st)) = caps st"
  by (simp add: charge_def split: option.split)

lemma enter_caps [simp]: "caps (snd (enter irq st)) = caps st"
  by (simp add: enter_def Let_def)

interpretation slots: run_invariant "keepsCaps s" "capsOk s" "pairOk s" irq s for irq s
proof unfold_locales
  show "keepsCaps s (bindR m f)" if "keepsCaps s m" "\<And>b. keepsCaps s (f b)" for m f
    using that by (fastforce simp: keepsCaps_def bindR_def split: prod.split)
  show "keepsCaps s (withCaps h)" if "\<And>cs. capsOk s cs \<Longrightarrow> keepsCaps s (h cs)" for h
    using that by (auto simp: keepsCaps_def withCaps_def)
  show "keepsCaps s (setCap i a c)" if "pairOk s a c" for i a c
    using that capsOk_set [where s = s and a = a and c = c and i = i] by (auto simp: keepsCaps_def setCap_def)
qed (auto simp: keepsCaps_def ret_def unlessAborted_def pairOk_def capsOk_def)

section \<open>Work\<close>

text \<open>
  What a run does is paid for: every node visit costs at least one unit, save the visit that
  aborts the run.
\<close>

definition wallet :: "rst \<Rightarrow> int" where
  "wallet st = (case gas st of None \<Rightarrow> 0 | Some g \<Rightarrow> max 0 g)"

definition paid :: "run \<Rightarrow> bool" where
  "paid m \<longleftrightarrow>
     (\<forall>st. gas st \<noteq> None \<longrightarrow>
       (let st' = snd (m st) in
         gas st' \<noteq> None \<and> (aborted st \<longrightarrow> aborted st') \<and>
         int (steps st') + wallet st' \<le> int (steps st) + wallet st + of_bool (aborted st' \<and> \<not> aborted st)))"

lemma paidD:
  assumes "paid m" "gas st \<noteq> None"
  shows "gas (snd (m st)) \<noteq> None" "aborted st \<Longrightarrow> aborted (snd (m st))"
    "int (steps (snd (m st))) + wallet (snd (m st)) \<le>
       int (steps st) + wallet st + of_bool (aborted (snd (m st)) \<and> \<not> aborted st)"
  using assms unfolding paid_def Let_def by blast+

lemma paid_bind:
  assumes m: "paid m" and f: "\<And>b. paid (f b)"
  shows "paid (bindR m f)"
  unfolding paid_def Let_def
proof (intro allI impI)
  fix st :: rst assume g: "gas st \<noteq> None"
  obtain b st1 where run: "m st = (b, st1)" by fastforce
  obtain st2 where run2: "snd (f b st1) = st2" by simp
  have bind: "snd (bindR m f st) = st2" by (simp add: bindR_def run run2)
  note one = paidD [OF m g, unfolded run snd_conv]
  note two = paidD [OF f one(1), of b, unfolded run2]
  have "of_bool (aborted st1 \<and> \<not> aborted st) + of_bool (aborted st2 \<and> \<not> aborted st1)
      \<le> (of_bool (aborted st2 \<and> \<not> aborted st) :: int)"
    using one(2) two(2) by (cases "aborted st1"; cases "aborted st"; simp)
  then show "gas (snd (bindR m f st)) \<noteq> None \<and> (aborted st \<longrightarrow> aborted (snd (bindR m f st))) \<and>
      int (steps (snd (bindR m f st))) + wallet (snd (bindR m f st))
      \<le> int (steps st) + wallet st + of_bool (aborted (snd (bindR m f st)) \<and> \<not> aborted st)"
    unfolding bind using one two by (intro conjI impI) (blast, blast, linarith)
qed

lemma paid_charge: "0 \<le> n \<Longrightarrow> paid (charge n)"
  by (auto simp: paid_def charge_def wallet_def Let_def split: option.splits)

lemma paid_enter: "paid (enter irq)"
  unfolding paid_def enter_def
  by (auto simp: Let_def charge_def wallet_def jsreGasNode_def split: option.splits)

interpretation work: run_invariant paid "\<lambda>_. True" "\<lambda>_ _. True" irq s for irq s
proof unfold_locales
  show "paid (bindR m f)" if "paid m" "\<And>b. paid (f b)" for m f
    by (rule paid_bind [OF that])
  show "paid (charge jsreGasBacktrack)" by (rule paid_charge) (simp add: jsreGasBacktrack_def)
  show "paid (enter irq)" by (rule paid_enter)
  show "paid (withCaps h)" if "\<And>cs. True \<Longrightarrow> paid (h cs)" for h
    using that by (auto simp: paid_def withCaps_def)
  show "paid (unlessAborted m)" if "paid m" for m
    using that unfolding paid_def unlessAborted_def Let_def by auto
qed (auto simp: paid_def ret_def setCap_def wallet_def)

lemma search_paid:
  "i \<le> length s \<Longrightarrow> gas st \<noteq> None \<Longrightarrow> st' = snd (searchFrom u p irq s i st) \<Longrightarrow>
   gas st' \<noteq> None \<and> (aborted st \<longrightarrow> aborted st') \<and>
   int (steps st') + wallet st' \<le> int (steps st) + wallet st + of_bool (aborted st' \<and> \<not> aborted st)"
proof (induction u p irq s i st rule: searchFrom.induct)
  case (1 u p irq s i st)
  let ?k = "\<lambda>fin. setCap 0 (int i) (int fin)"
  let ?st = "clearCaps (pncap p) st"
  obtain ok st1 where run: "exec u p irq s (root p) i ?k ?st = (ok, st1)" by fastforce
  have same: "gas ?st = gas st" "aborted ?st = aborted st" "steps ?st = steps st" "wallet ?st = wallet st"
    by (simp_all add: clearCaps_def wallet_def)
  note w = paidD [OF work.exec_whole [OF 1(2), of u p irq "root p"], of ?st, unfolded run same snd_conv, OF 1(3)]
  note unfolded = searchFrom.simps [of u p irq s i st, unfolded run prod.case]
  show ?case
  proof (cases "ok \<or> aborted st1 \<or> i \<ge> length s")
    case True
    then have "st' = st1" using 1(4) by (auto simp: unfolded split: if_splits)
    then show ?thesis using w by auto
  next
    case False
    let ?j = "i + max 1 (snd (runeAt s i))"
    have "?j \<le> length s" using runeAt_width [of i s] False by auto
    with False 1(4) have "gas st' \<noteq> None \<and> (aborted st1 \<longrightarrow> aborted st') \<and>
        int (steps st') + wallet st' \<le> int (steps st1) + wallet st1 + of_bool (aborted st' \<and> \<not> aborted st1)"
      by (intro 1(1) [OF run [symmetric] _ _ _ _ w(1)]) (auto simp: unfolded)
    then show ?thesis using w False by (auto simp: of_bool_def split: if_splits)
  qed
qed

section \<open>Cost\<close>

text \<open>
  A run without an interrupt and without a gas counter does the same as one with enough gas:
  it has a cost, and any amount above it gives the same verdict and leaves the difference.
\<close>

definition unlimited :: "rst \<Rightarrow> bool" where
  "unlimited st \<longleftrightarrow> gas st = None \<and> \<not> aborted st"

definition costs :: "run \<Rightarrow> rst \<Rightarrow> int \<Rightarrow> bool" where
  "costs m st c \<longleftrightarrow>
     0 \<le> c \<and> (\<forall>g > c. m (st\<lparr>gas := Some g\<rparr>) = (fst (m st), snd (m st)\<lparr>gas := Some (g - c)\<rparr>))"

definition costed :: "run \<Rightarrow> bool" where
  "costed m \<longleftrightarrow> (\<forall>st. unlimited st \<longrightarrow> unlimited (snd (m st)) \<and> (\<exists>c. costs m st c))"

lemma costed_bind: "costed m \<Longrightarrow> (\<And>b. costed (f b)) \<Longrightarrow> costed (bindR m f)"
  unfolding costed_def [of "bindR m f"]
proof (intro allI impI)
  fix st assume m: "costed m" and f: "\<And>b. costed (f b)" and st: "unlimited st"
  obtain b st1 where run: "m st = (b, st1)" by fastforce
  obtain c where c: "costs m st c" "unlimited st1" using m st run unfolding costed_def by fastforce
  obtain d where d: "costs (f b) st1 d" "unlimited (snd (f b st1))" using f c(2) unfolding costed_def by fastforce
  have "costs (bindR m f) st (c + d)"
    using c(1) d(1) unfolding costs_def by (auto simp: bindR_def run algebra_simps)
  then show "unlimited (snd (bindR m f st)) \<and> (\<exists>c. costs (bindR m f) st c)"
    using d(2) by (auto simp: bindR_def run)
qed

lemma costed_charge: "0 \<le> n \<Longrightarrow> costed (charge n)"
  unfolding costed_def unlimited_def costs_def charge_def
  by (auto intro!: exI [of _ n])

lemma costed_enter: "costed (enter None)"
  unfolding costed_def unlimited_def costs_def enter_def charge_def
  by (auto simp: Let_def jsreGasNode_def intro!: exI [of _ 1])

interpretation cost: run_invariant costed "\<lambda>_. True" "\<lambda>_ _. True" None s for s
proof unfold_locales
  show "costed (bindR m f)" if "costed m" "\<And>b. costed (f b)" for m f
    by (rule costed_bind [OF that])
  show "costed (charge jsreGasBacktrack)" by (rule costed_charge) (simp add: jsreGasBacktrack_def)
  show "costed (enter None)" by (rule costed_enter)
  show "costed (withCaps h)" if "\<And>cs. True \<Longrightarrow> costed (h cs)" for h
    using that by (auto simp: costed_def costs_def withCaps_def)
qed (auto simp: costed_def costs_def unlimited_def ret_def unlessAborted_def setCap_def intro!: exI [of _ 0])

end
