(* ===== verification/JsreParse.thy ===== *)
theory JsreParse
  imports JsreSyntax
begin

text \<open>
  The pattern parser of \<open>pkg/js55/engine/jsre.go\<close>: character classes, groups, terms and
  alternatives.  Every step that succeeds moves forward, and the fuel of \<open>compileJSRE\<close>, six
  units per remaining byte, is enough for any pattern.
\<close>

section \<open>Escapes move forward\<close>

text \<open>The parser moved forward, over the same pattern, and opened no group.\<close>

definition moved :: "jparser \<Rightarrow> jparser \<Rightarrow> bool" where
  "moved p q \<longleftrightarrow> pat q = pat p \<and> ppos p \<le> ppos q \<and> ncap q = ncap p \<and> names q = names p"

lemma skip_simps [simp]:
  "pat (skip n p) = pat p" "ppos (skip n p) = ppos p + n" "ncap (skip n p) = ncap p"
  "names (skip n p) = names p" "nameIdx (skip n p) = nameIdx p"
  by (simp_all add: skip_def)

lemma moved_simps [simp]: "moved p p" "moved p (skip n p)"
  by (simp_all add: moved_def)

lemma moved_trans: "moved p q \<Longrightarrow> moved q r \<Longrightarrow> moved p r"
  by (auto simp: moved_def)

lemma moved_skip: "moved (skip n p) q \<Longrightarrow> moved p q"
  by (rule moved_trans [OF moved_simps(2)])

lemma readInt_mono: "readInt s n i = (v, j) \<Longrightarrow> i \<le> j"
proof (induction s n i rule: readInt.induct)
  case (1 s n i)
  then show ?case by (subst (asm) readInt.simps) (auto split: if_splits)
qed

lemma readNameFrom_moved: "holds (\<lambda>(v, q). moved p q) (readNameFrom start p)"
proof (induction start p rule: readNameFrom.induct)
  case (1 start p)
  have "holds (\<lambda>(v, q). moved p q) (readNameFrom start (skip 1 p))"
    if "ppos p < length (pat p)" "pat p ! ppos p \<noteq> bt CHR ''>''" "\<not> \<not> isNameByte (pat p ! ppos p)"
    by (rule holds_mono [OF 1 [OF that(1) refl that(2,3)]]) (auto intro: moved_skip)
  then show ?case by (subst readNameFrom.simps) (simp add: Let_def)
qed

lemma hexLoop_moved: "moved p (snd (hexLoop k v p))"
  by (induction k v p rule: hexLoop.induct) (auto split: option.splits intro: moved_skip)

lemma backDigits_moved: "moved p (snd (backDigits idx p))"
proof (induction idx p rule: backDigits.induct)
  case (1 idx p)
  then show ?case by (subst backDigits.simps) (auto simp: Let_def intro: moved_skip)
qed

lemma readName_moved: "holds (\<lambda>(v, q). moved p q) (readName p)"
  unfolding readName_def by (rule readNameFrom_moved)

lemma readHex_moved: "moved p (snd (readHex k p))"
  by (simp add: readHex_def hexLoop_moved)

lemma parseEscape_moved: "holds (\<lambda>(n, a, q). moved p q \<and> ppos p < ppos q) (parseEscape b p)"
proof -
  define p2 where "p2 = skip 1 (skip 1 p)"
  have k: "holds (\<lambda>(n :: jnode, a :: bool, q). moved p2 q) (andThen (readName (skip 1 p2)) f)"
    if "\<And>v q. holds (\<lambda>(n, a, q'). q' = q) (f (v, q))" for f
  proof (rule holds_andThen [OF readName_moved])
    fix x :: "gostring \<times> jparser" assume "case x of (v, q) \<Rightarrow> moved (skip 1 p2) q"
    then show "holds (\<lambda>(n, a, q). moved p2 q) (f x)"
      using that [where v = "fst x" and q = "snd x"] moved_skip [of 1 p2]
      by (cases x; cases "f x") auto
  qed
  have rh: "moved p2 q" if "readHex j p2 = (r, q)" for j r q
    using readHex_moved [of p2 j] that by simp
  have bd: "moved p2 q" if "backDigits j p2 = (r, q)" for j r q
    using backDigits_moved [of p2 j] that by simp
  have "holds (\<lambda>(n, a, q). moved p2 q) (parseEscape b p)"
    unfolding parseEscape_def Let_def p2_def [symmetric]
    by (intro holds_if k) (auto split: prod.splits option.splits dest: rh bd)
  then show ?thesis
    by (rule holds_mono) (auto simp: moved_def p2_def)
qed

section \<open>Character classes\<close>

text \<open>The loop's variables: the class, \<open>pendingDash\<close>, \<open>last\<close> and \<open>hasLast\<close>.\<close>

type_synonym clsState = "charClass \<times> bool \<times> rune \<times> bool"

definition flushLast :: "rune \<Rightarrow> clsState \<Rightarrow> clsState" where
  "flushLast r st = (case st of (cls, pendingDash, lst, hasLast) \<Rightarrow>
     if pendingDash \<and> hasLast then
       ((if lst > r then addRune r (addRune 0x2D (addRune lst cls)) else addRange lst r cls), False, lst, False)
     else ((if hasLast then addRune lst cls else cls), pendingDash, r, True))"

definition classEscape :: "jnode \<Rightarrow> jparser \<Rightarrow> clsState \<Rightarrow> clsState" where
  "classEscape n p st = (case st of (cls, pendingDash, lst, hasLast) \<Rightarrow>
     (case n of
        JCls c \<Rightarrow> (mergeClass c (if hasLast then addRune lst cls else cls), False, lst, False)
      | JLit r \<Rightarrow>
          if pendingDash \<and> hasLast then flushLast r st
          else if jpeek p = bt CHR ''-'' then ((if hasLast then addRune lst cls else cls), False, r, True)
          else flushLast r st
      | _ \<Rightarrow> st))"

function classLoop :: "bool \<Rightarrow> clsState \<Rightarrow> jparser \<Rightarrow> reErr + clsState \<times> jparser" where
  "classLoop first st p =
     (if ppos p < length (pat p) \<and> (pat p ! ppos p \<noteq> bt CHR '']'' \<or> first) then
        if pat p ! ppos p = bt CHR 0x5C then
          andThen (parseEscape True p) (\<lambda>(n, a, p'). classLoop False (classEscape n p' st) p')
        else if pat p ! ppos p = bt CHR ''-'' \<and> snd (snd (snd st)) \<and> ppos p + 1 < length (pat p)
            \<and> pat p ! (ppos p + 1) \<noteq> bt CHR '']'' then
          (case st of (cls, _, lst, hasLast) \<Rightarrow> classLoop False (cls, True, lst, hasLast) (skip 1 p))
        else
          (case decodeRune (jrest p) of (r, sz) \<Rightarrow> classLoop False (flushLast r st) (skip sz p))
      else Inr (st, p))"
  by pat_completeness auto
termination
proof (relation "measure (\<lambda>(first, st, p). length (pat p) - ppos p)")
  fix first :: bool and st :: clsState and p :: jparser and x n y a p'
  assume p: "ppos p < length (pat p) \<and> (pat p ! ppos p \<noteq> bt CHR '']'' \<or> first)"
  show "((False, classEscape n p' st, p'), first, st, p) \<in> measure (\<lambda>(first, st, p). length (pat p) - ppos p)"
    if "parseEscape True p = Inr x" "(n, y) = x" "(a, p') = y"
  proof -
    have "parseEscape True p = Inr (n, a, p')" using that by simp
    then have "pat p' = pat p \<and> ppos p < ppos p'" using parseEscape_moved [of p True] by (simp add: moved_def)
    then show ?thesis using p by auto
  qed
  show "((False, flushLast r st, skip sz p), first, st, p) \<in> measure (\<lambda>(first, st, p). length (pat p) - ppos p)"
    if "(r, sz) = decodeRune (jrest p)" for r sz
  proof -
    have "jrest p \<noteq> []" using p by (simp add: jrest_def)
    then have "1 \<le> snd (decodeRune (jrest p))" using decodeRune_width by blast
    then have "1 \<le> sz" unfolding that [symmetric] by simp
    moreover have "ppos p < length (pat p)" using p by simp
    ultimately have "length (pat p) - (ppos p + sz) < length (pat p) - ppos p" by linarith
    then show ?thesis by simp
  qed
qed auto

declare classLoop.simps [simp del]

definition parseClass :: "jparser \<Rightarrow> reErr + charClass \<times> jparser" where
  "parseClass p0 =
     (let p1 = skip 1 p0;
          neg = (jpeek p1 = bt CHR ''^'');
          p2 = (if neg then skip 1 p1 else p1)
      in andThen (classLoop True (emptyClass\<lparr>clsNeg := neg\<rparr>, False, 0, False) p2)
           (\<lambda>(st, p). case st of (cls, pendingDash, lst, hasLast) \<Rightarrow>
              let c1 = (if hasLast then addRune lst cls else cls);
                  c2 = (if pendingDash then addRune 0x2D c1 else c1)
              in if jpeek p \<noteq> bt CHR '']'' then Inl UnclosedClass else Inr (c2, skip 1 p)))"

section \<open>Groups, terms and alternatives\<close>

text \<open>A group's closing parenthesis.\<close>

definition closeGroup :: "(jnode \<Rightarrow> jnode) \<Rightarrow> bool \<Rightarrow> jnode \<times> jparser \<Rightarrow> reErr + jnode option \<times> bool \<times> jparser" where
  "closeGroup f assertion r = (case r of (inner, p) \<Rightarrow>
     if jpeek p \<noteq> bt CHR '')'' then Inl UnclosedGroup else Inr (Some (f inner), assertion, skip 1 p))"

definition newCapture :: "gostring \<Rightarrow> jparser \<Rightarrow> jparser" where
  "newCapture name p = p\<lparr>ncap := ncap p + 1, names := names p @ [name]\<rparr>"

definition hasPrefixB :: "gostring \<Rightarrow> string \<Rightarrow> bool" where
  "hasPrefixB s w \<longleftrightarrow> take (length w) s = map bt w"

fun disjunction :: "nat \<Rightarrow> jparser \<Rightarrow> reErr + jnode \<times> jparser"
and altLoop :: "nat \<Rightarrow> jnode list \<Rightarrow> jparser \<Rightarrow> reErr + jnode \<times> jparser"
and alternative :: "nat \<Rightarrow> jnode list \<Rightarrow> jparser \<Rightarrow> reErr + jnode \<times> jparser"
and jterm :: "nat \<Rightarrow> jparser \<Rightarrow> reErr + jnode option \<times> jparser"
and atom :: "nat \<Rightarrow> jparser \<Rightarrow> reErr + jnode option \<times> bool \<times> jparser"
and parseGroup :: "nat \<Rightarrow> jparser \<Rightarrow> reErr + jnode option \<times> bool \<times> jparser" where
  "disjunction 0 p = Inl OutOfFuel"
| "disjunction (Suc n) p =
     andThen (alternative n [] p) (\<lambda>(left, p1).
       if jpeek p1 \<noteq> bt CHR ''|'' then Inr (left, p1) else altLoop n [left] p1)"
| "altLoop 0 alts p = Inl OutOfFuel"
| "altLoop (Suc n) alts p =
     (if jpeek p = bt CHR ''|'' then
        andThen (alternative n [] (skip 1 p)) (\<lambda>(a, p1). altLoop n (alts @ [a]) p1)
      else Inr (JAlt alts, p))"
| "alternative 0 terms p = Inl OutOfFuel"
| "alternative (Suc n) terms p =
     (let c = jpeek p in
      if c = 0 \<or> c = bt CHR ''|'' \<or> c = bt CHR '')'' then
        Inr ((case terms of [] \<Rightarrow> JEmpty | [t] \<Rightarrow> t | _ \<Rightarrow> JConcat terms), p)
      else
        andThen (jterm n p) (\<lambda>(t, p1).
          alternative n (case t of None \<Rightarrow> terms | Some t' \<Rightarrow> terms @ [t']) p1))"
| "jterm 0 p = Inl OutOfFuel"
| "jterm (Suc n) p =
     andThen (atom n p) (\<lambda>(t, assertion, p1).
       case t of
         None \<Rightarrow> Inr (None, p1)
       | Some a \<Rightarrow>
           andThen (quantifier p1) (\<lambda>(q, p2).
             case q of
               None \<Rightarrow> Inr (Some a, p2)
             | Some (mn, mx, lazy) \<Rightarrow>
                 if assertion then Inl QuantOnAssertion
                 else Inr (Some (JRepeat a mn mx lazy), p2)))"
| "atom 0 p = Inl OutOfFuel"
| "atom (Suc n) p =
     (if ppos p \<ge> length (pat p) then Inr (None, False, p)
      else
        let c = pat p ! ppos p in
        if c = bt CHR ''^'' then Inr (Some (JAnchor LineStart), True, skip 1 p)
        else if c = bt CHR ''$'' then Inr (Some (JAnchor LineEnd), True, skip 1 p)
        else if c = bt CHR ''.'' then Inr (Some JDot, False, skip 1 p)
        else if c = bt CHR ''['' then andThen (parseClass p) (\<lambda>(cls, p1). Inr (Some (JCls cls), False, p1))
        else if c = bt CHR ''('' then parseGroup n p
        else if c = bt CHR 0x5C then
          andThen (parseEscape False p) (\<lambda>(t, assertion, p1). Inr (Some t, assertion, p1))
        else if c = bt CHR ''|'' \<or> c = bt CHR '')'' then Inr (None, False, p)
        else if c = bt CHR ''*'' \<or> c = bt CHR ''+'' \<or> c = bt CHR ''?'' then Inl NothingToRepeat
        else if c = bt CHR ''{'' then
          andThen (braceQuant p) (\<lambda>(q, p1).
            if q \<noteq> None then Inl NothingToRepeat else Inr (Some (JLit 0x7B), False, skip 1 p))
        else (case decodeRune (jrest p) of (r, sz) \<Rightarrow> Inr (Some (JLit r), False, skip sz p)))"
| "parseGroup 0 p = Inl OutOfFuel"
| "parseGroup (Suc n) p0 =
     (let p = skip 1 p0 in
      if jpeek p \<noteq> bt CHR ''?'' then
        let p1 = newCapture [] p
        in andThen (disjunction n p1) (closeGroup (JCap (ncap p1) []) False)
      else
        let p1 = skip 1 p; rest = jrest p1 in
        if rest = [] then Inl EmptyGroup
        else if hasPrefixB rest '':'' then andThen (disjunction n (skip 1 p1)) (closeGroup id False)
        else if hasPrefixB rest ''='' then
          andThen (disjunction n (skip 1 p1)) (closeGroup (\<lambda>t. JLook t False False) True)
        else if hasPrefixB rest ''!'' then
          andThen (disjunction n (skip 1 p1)) (closeGroup (\<lambda>t. JLook t True False) True)
        else if hasPrefixB rest ''<='' then
          andThen (disjunction n (skip 2 p1)) (closeGroup (\<lambda>t. JLook t False True) True)
        else if hasPrefixB rest ''<!'' then
          andThen (disjunction n (skip 2 p1)) (closeGroup (\<lambda>t. JLook t True True) True)
        else if hasPrefixB rest ''<'' then
          andThen (readName (skip 1 p1)) (\<lambda>(name, p2).
            let p3 = newCapture name p2; idx = ncap p3
            in andThen (disjunction n (p3\<lparr>nameIdx := (nameIdx p3)(name := Some idx)\<rparr>))
                 (closeGroup (JCap idx name) False))
        else Inl UnknownGroup)"

definition compileFuel :: "jparser \<Rightarrow> nat" where
  "compileFuel p = 6 * (length (pat p) - ppos p) + 6"

definition compileJSRE :: "gostring \<Rightarrow> gostring \<Rightarrow> reErr + jprog" where
  "compileJSRE pattern flags =
     (let p = \<lparr>pat = pattern, ppos = 0, ncap = 0, names = [[]], nameIdx = (\<lambda>_. None)\<rparr>;
          fs = runesOf flags
      in andThen (disjunction (compileFuel p) p) (\<lambda>(n, p1).
           if ppos p1 < length (pat p1) then Inl Trailing
           else Inr \<lparr>root = n, pncap = ncap p1, icase = (0x69 \<in> set fs), multiline = (0x6D \<in> set fs),
             dotAll = (0x73 \<in> set fs), pnames = names p1\<rparr>))"

section \<open>The parser's invariant\<close>

text \<open>The groups of a node in the order of their opening parentheses, with their names.\<close>

primrec capsOf :: "jnode \<Rightarrow> (nat \<times> gostring) list" where
  "capsOf JEmpty = []"
| "capsOf (JLit r) = []"
| "capsOf JDot = []"
| "capsOf (JCls c) = []"
| "capsOf (JConcat ts) = concat (map capsOf ts)"
| "capsOf (JAlt ts) = concat (map capsOf ts)"
| "capsOf (JRepeat t mn mx lazy) = capsOf t"
| "capsOf (JCap i name t) = (i, name) # capsOf t"
| "capsOf (JLook t neg behind) = capsOf t"
| "capsOf (JBack i) = []"
| "capsOf (JAnchor k) = []"

text \<open>The parser moved forward and opened the groups \<open>cs\<close>, numbered in order.\<close>

definition grew :: "jparser \<Rightarrow> (nat \<times> gostring) list \<Rightarrow> jparser \<Rightarrow> bool" where
  "grew p cs q \<longleftrightarrow> pat q = pat p \<and> ppos p \<le> ppos q \<and> ncap p \<le> ncap q
     \<and> map fst cs = [Suc (ncap p) ..< Suc (ncap q)] \<and> names q = names p @ map snd cs"

definition jleft :: "jparser \<Rightarrow> nat" where
  "jleft p = length (pat p) - ppos p"

lemma grew_refl [simp]: "grew p [] p"
  by (simp add: grew_def)

lemma grew_trans: "grew p cs q \<Longrightarrow> grew q ds r \<Longrightarrow> grew p (cs @ ds) r"
proof -
  assume a: "grew p cs q" "grew q ds r"
  then have "[Suc (ncap p) ..< Suc (ncap q)] @ [Suc (ncap q) ..< Suc (ncap r)] = [Suc (ncap p) ..< Suc (ncap r)]"
    using upt_add_eq_append [of "Suc (ncap p)" "Suc (ncap q)" "ncap r - ncap q"] by (simp add: grew_def)
  then show ?thesis using a by (simp add: grew_def)
qed

lemma grew_moved: "grew p cs q \<Longrightarrow> moved q r \<Longrightarrow> grew p cs r"
  by (auto simp: grew_def moved_def)

lemma moved_grew: "moved p q \<Longrightarrow> grew q cs r \<Longrightarrow> grew p cs r"
  by (auto simp: grew_def moved_def)

lemma moved_grew_Nil: "moved p q \<Longrightarrow> grew p [] q"
  by (auto simp: grew_def moved_def)

lemma grew_left: "grew p cs q \<Longrightarrow> jleft q \<le> jleft p"
  by (auto simp: grew_def jleft_def)

lemma grew_left_strict: "grew p cs q \<Longrightarrow> ppos p < ppos q \<Longrightarrow> ppos p < length (pat p) \<Longrightarrow> jleft q < jleft p"
  by (auto simp: grew_def jleft_def)

lemma jpeek_nonzero: "jpeek p \<noteq> 0 \<Longrightarrow> ppos p < length (pat p) \<and> pat p ! ppos p = jpeek p"
  by (auto simp: jpeek_def split: if_splits)

lemma bt_nonzero: "bt CHR ''|'' \<noteq> 0" "bt CHR ''('' \<noteq> 0" "bt CHR ''{'' \<noteq> 0"
  by (simp_all add: bt_def)

lemma braceMax_moved: "moved p (snd (braceMax mn p))"
  by (auto simp: braceMax_def Let_def moved_def split: prod.splits dest: readInt_mono)

lemma braceQuant_moved: "holds (\<lambda>(q, r). moved p r) (braceQuant p)"
proof -
  obtain mn i where r: "readInt (pat p) 0 (ppos (skip 1 p)) = (mn, i)"
    by (cases "readInt (pat p) 0 (ppos (skip 1 p))")
  obtain mx p3 where x: "braceMax mn ((skip 1 p)\<lparr>ppos := i\<rparr>) = (mx, p3)"
    by (cases "braceMax mn ((skip 1 p)\<lparr>ppos := i\<rparr>)")
  have "moved p ((skip 1 p)\<lparr>ppos := i\<rparr>)" using readInt_mono [OF r] by (simp add: moved_def)
  then have "moved p p3" using braceMax_moved [of "(skip 1 p)\<lparr>ppos := i\<rparr>" mn] x by (auto intro: moved_trans)
  then have "moved p (skip 1 p3)" by (simp add: moved_def)
  then show ?thesis unfolding braceQuant_def Let_def r x prod.case by simp
qed

lemma quantifier_moved: "holds (\<lambda>(q, r). moved p r) (quantifier p)"
proof -
  have q: "holds (\<lambda>(q :: (int \<times> int) option, r). moved p r)
     (if jpeek p = bt CHR ''*'' then Inr (Some (0, - 1), skip 1 p)
      else if jpeek p = bt CHR ''+'' then Inr (Some (1, - 1), skip 1 p)
      else if jpeek p = bt CHR ''?'' then Inr (Some (0, 1), skip 1 p)
      else if jpeek p = bt CHR ''{'' then braceQuant p
      else Inr (None, p))"
    using braceQuant_moved [of p] by simp
  show ?thesis
    unfolding quantifier_def Let_def
    by (rule holds_andThen [OF q]) (auto split: option.splits simp: moved_def)
qed

lemma classLoop_moved: "holds (\<lambda>(st', q). moved p q) (classLoop first st p)"
proof (induction first st p rule: classLoop.induct)
  case (1 first st p)
  note IH = 1
  show ?case
  proof (cases "ppos p < length (pat p) \<and> (pat p ! ppos p \<noteq> bt CHR '']'' \<or> first)")
    case False
    then show ?thesis unfolding classLoop.simps [of first st p]
      by (simp only: if_False holds_simps prod.case moved_simps)
  next
    case more: True
    show ?thesis
    proof (cases "pat p ! ppos p = bt CHR 0x5C")
      case True
      have "holds (\<lambda>(st', q). moved p q)
          (andThen (parseEscape True p) (\<lambda>(n, a, p'). classLoop False (classEscape n p' st) p'))"
      proof (cases "parseEscape True p")
        case (Inl e)
        then show ?thesis using parseEscape_moved [of p True] by simp
      next
        case (Inr x)
        obtain n a p' where x: "x = (n, a, p')" by (cases x)
        have m: "moved p p'" using parseEscape_moved [of p True] Inr x by simp
        have "holds (\<lambda>(st', q). moved p' q) (classLoop False (classEscape n p' st) p')"
          by (rule IH(1) [OF more True Inr [unfolded x] refl refl])
        then show ?thesis using Inr x m by (auto intro: holds_mono moved_trans)
      qed
      then show ?thesis using more True by (subst classLoop.simps) simp
    next
      case ne: False
      show ?thesis
      proof (cases "pat p ! ppos p = bt CHR ''-'' \<and> snd (snd (snd st)) \<and> ppos p + 1 < length (pat p)
          \<and> pat p ! (ppos p + 1) \<noteq> bt CHR '']''")
        case True
        obtain cls pd lst hl where st: "st = (cls, pd, lst, hl)" by (cases st)
        have "holds (\<lambda>(st', q). moved (skip 1 p) q) (classLoop False (cls, True, lst, hl) (skip 1 p))"
          by (rule IH(2) [OF more ne True st [symmetric] refl refl])
        then have "holds (\<lambda>(st', q). moved p q) (classLoop False (cls, True, lst, hl) (skip 1 p))"
          by (rule holds_mono) (auto intro: moved_skip)
        then show ?thesis using more ne True st by (subst classLoop.simps) simp
      next
        case nd: False
        obtain r sz where d: "decodeRune (jrest p) = (r, sz)" by (cases "decodeRune (jrest p)")
        have "holds (\<lambda>(st', q). moved (skip sz p) q) (classLoop False (flushLast r st) (skip sz p))"
          by (rule IH(3) [OF more ne nd d [symmetric]])
        then have h: "holds (\<lambda>(st', q). moved p q) (classLoop False (flushLast r st) (skip sz p))"
          by (rule holds_mono) (auto intro: moved_skip)
        have "classLoop first st p = classLoop False (flushLast r st) (skip sz p)"
          unfolding classLoop.simps [of first st p] if_P [OF more] if_not_P [OF ne] if_not_P [OF nd] d prod.case
          by (rule refl)
        then show ?thesis using h by simp
      qed
    qed
  qed
qed

lemma parseClass_moved: "holds (\<lambda>(c, q). moved p q \<and> ppos p < ppos q) (parseClass p)"
proof -
  define p2 where "p2 = (if jpeek (skip 1 p) = bt CHR ''^'' then skip 1 (skip 1 p) else skip 1 p)"
  have p2: "moved p p2" "ppos p < ppos p2" by (simp_all add: p2_def moved_def)
  show ?thesis
    unfolding parseClass_def Let_def p2_def [symmetric]
    by (rule holds_andThen [OF classLoop_moved]) (use p2 in \<open>auto simp: moved_def\<close>)
qed

lemma holds_conj: "holds P m \<Longrightarrow> holds Q m \<Longrightarrow> holds (\<lambda>x. P x \<and> Q x) m"
  by (cases m) simp_all

lemma parseEscape_caps: "holds (\<lambda>(n, a, q). capsOf n = []) (parseEscape b p)"
proof -
  define p2 where "p2 = skip 1 (skip 1 p)"
  have k: "holds (\<lambda>(n, a :: bool, q :: jparser). capsOf n = []) (andThen (readName (skip 1 p2)) f)"
    if "\<And>v q. holds (\<lambda>(n, a, q'). capsOf n = []) (f (v, q))" for f
  proof (rule holds_andThen [OF readName_moved])
    show "holds (\<lambda>(n, a, q). capsOf n = []) (f x)" for x
      using that [where v = "fst x" and q = "snd x"] by simp
  qed
  show ?thesis
    unfolding parseEscape_def Let_def p2_def [symmetric]
    by (intro holds_if k) (auto split: prod.splits option.splits)
qed

definition stops :: "jparser \<Rightarrow> bool" where
  "stops p \<longleftrightarrow> jpeek p = 0 \<or> jpeek p = bt CHR ''|'' \<or> jpeek p = bt CHR '')''"

lemma closeGroup_grew:
  assumes "\<And>t. capsOf (f t) = cs @ capsOf t" and "grew p cs p1" and "ppos p < ppos p1" and "grew p1 (capsOf t) q"
  shows "holds (\<lambda>(r, a, q'). (\<exists>t'. r = Some t' \<and> grew p (capsOf t') q') \<and> ppos p < ppos q') (closeGroup f b (t, q))"
proof -
  have "grew p (cs @ capsOf t) (skip 1 q)" by (rule grew_moved [OF grew_trans [OF assms(2,4)]]) simp
  moreover have "ppos p < ppos (skip 1 q)" using assms(3,4) by (simp add: grew_def)
  ultimately show ?thesis using assms(1) by (simp add: closeGroup_def)
qed

text \<open>What each of the six functions does with enough fuel: it does not run out of it, and it grows.\<close>

definition okDisj :: "nat \<Rightarrow> bool" where
  "okDisj n \<longleftrightarrow> (\<forall>p. 6 * jleft p + 5 \<le> n \<longrightarrow> holds (\<lambda>(t, q). grew p (capsOf t) q) (disjunction n p))"

definition okAlts :: "nat \<Rightarrow> bool" where
  "okAlts n \<longleftrightarrow> (\<forall>alts p. 6 * jleft p + 4 \<le> n \<longrightarrow> alts \<noteq> [] \<longrightarrow>
     holds (\<lambda>(t, q). \<exists>cs. capsOf t = concat (map capsOf alts) @ cs \<and> grew p cs q) (altLoop n alts p))"

definition okAlternative :: "nat \<Rightarrow> bool" where
  "okAlternative n \<longleftrightarrow> (\<forall>terms p. 6 * jleft p + 4 \<le> n \<longrightarrow>
     holds (\<lambda>(t, q). \<exists>cs. capsOf t = concat (map capsOf terms) @ cs \<and> grew p cs q) (alternative n terms p))"

definition okTerm :: "nat \<Rightarrow> bool" where
  "okTerm n \<longleftrightarrow> (\<forall>p. 6 * jleft p + 3 \<le> n \<longrightarrow> \<not> stops p \<longrightarrow>
     holds (\<lambda>(r, q). (\<exists>t. r = Some t \<and> grew p (capsOf t) q) \<and> ppos p < ppos q) (jterm n p))"

definition okAtom :: "nat \<Rightarrow> bool" where
  "okAtom n \<longleftrightarrow> (\<forall>p. 6 * jleft p + 2 \<le> n \<longrightarrow> \<not> stops p \<longrightarrow>
     holds (\<lambda>(r, a, q). (\<exists>t. r = Some t \<and> grew p (capsOf t) q) \<and> ppos p < ppos q) (atom n p))"

definition okGroup :: "nat \<Rightarrow> bool" where
  "okGroup n \<longleftrightarrow> (\<forall>p. 6 * jleft p + 1 \<le> n \<longrightarrow> ppos p < length (pat p) \<longrightarrow>
     holds (\<lambda>(r, a, q). (\<exists>t. r = Some t \<and> grew p (capsOf t) q) \<and> ppos p < ppos q) (parseGroup n p))"

lemma parser_ok: "okDisj n \<and> okAlts n \<and> okAlternative n \<and> okTerm n \<and> okAtom n \<and> okGroup n"
proof (induction n)
  case 0
  then show ?case
    by (simp add: okDisj_def okAlts_def okAlternative_def okTerm_def okAtom_def okGroup_def)
next
  case (Suc n)
  have IH: "6 * jleft p + 5 \<le> n \<Longrightarrow> holds (\<lambda>(t, q). grew p (capsOf t) q) (disjunction n p)"
    "6 * jleft p + 4 \<le> n \<Longrightarrow> alts \<noteq> [] \<Longrightarrow>
       holds (\<lambda>(t, q). \<exists>cs. capsOf t = concat (map capsOf alts) @ cs \<and> grew p cs q) (altLoop n alts p)"
    "6 * jleft p + 4 \<le> n \<Longrightarrow>
       holds (\<lambda>(t, q). \<exists>cs. capsOf t = concat (map capsOf terms) @ cs \<and> grew p cs q) (alternative n terms p)"
    "6 * jleft p + 3 \<le> n \<Longrightarrow> \<not> stops p \<Longrightarrow>
       holds (\<lambda>(r, q). (\<exists>t. r = Some t \<and> grew p (capsOf t) q) \<and> ppos p < ppos q) (jterm n p)"
    "6 * jleft p + 2 \<le> n \<Longrightarrow> \<not> stops p \<Longrightarrow>
       holds (\<lambda>(r, a, q). (\<exists>t. r = Some t \<and> grew p (capsOf t) q) \<and> ppos p < ppos q) (atom n p)"
    "6 * jleft p + 1 \<le> n \<Longrightarrow> ppos p < length (pat p) \<Longrightarrow>
       holds (\<lambda>(r, a, q). (\<exists>t. r = Some t \<and> grew p (capsOf t) q) \<and> ppos p < ppos q) (parseGroup n p)"
    for p alts terms
    using Suc.IH by (simp_all add: okDisj_def okAlts_def okAlternative_def okTerm_def okAtom_def okGroup_def)
  have g1: "okDisj (Suc n)"
    unfolding okDisj_def
  proof (intro allI impI)
    fix p1 assume 1: "6 * jleft p1 + 5 \<le> Suc n"
    have a: "holds (\<lambda>(t, q). grew p1 (capsOf t) q) (alternative n [] p1)"
      by (rule holds_mono [OF IH(3)]) (use 1 in auto)
    show "holds (\<lambda>(t, q). grew p1 (capsOf t) q) (disjunction (Suc n) p1)"
      unfolding disjunction.simps
    proof (rule holds_andThen [OF a], clarify)
      fix t q assume g: "grew p1 (capsOf t) q"
      have "holds (\<lambda>(t', q'). \<exists>cs. capsOf t' = concat (map capsOf [t]) @ cs \<and> grew q cs q') (altLoop n [t] q)"
        by (rule IH(2)) (use 1 grew_left [OF g] in auto)
      then have "holds (\<lambda>(t', q'). grew p1 (capsOf t') q') (altLoop n [t] q)"
        by (rule holds_mono) (auto intro: grew_trans [OF g])
      then show "holds (\<lambda>(t, q). grew p1 (capsOf t) q)
          (if jpeek q \<noteq> bt CHR ''|'' then Inr (t, q) else altLoop n [t] q)" using g by simp
    qed
  qed
  have g2: "okAlts (Suc n)"
    unfolding okAlts_def
  proof (intro allI impI)
    fix alts p2 assume 2: "6 * jleft p2 + 4 \<le> Suc n" "alts \<noteq> ([] :: jnode list)"
    show "holds (\<lambda>(t, q). \<exists>cs. capsOf t = concat (map capsOf alts) @ cs \<and> grew p2 cs q) (altLoop (Suc n) alts p2)"
    proof (cases "jpeek p2 = bt CHR ''|''")
      case False
      then show ?thesis by (simp add: exI [of _ "[]"])
    next
      case True
      then have len: "ppos p2 < length (pat p2)" using jpeek_nonzero [of p2] bt_nonzero by simp
      have l: "jleft (skip 1 p2) < jleft p2" using len by (simp add: jleft_def)
      have a: "holds (\<lambda>(t, q). grew (skip 1 p2) (capsOf t) q) (alternative n [] (skip 1 p2))"
        by (rule holds_mono [OF IH(3)]) (use 2 l in auto)
      have "holds (\<lambda>(t, q). \<exists>cs. capsOf t = concat (map capsOf alts) @ cs \<and> grew p2 cs q)
          (andThen (alternative n [] (skip 1 p2)) (\<lambda>(a, p1). altLoop n (alts @ [a]) p1))"
      proof (rule holds_andThen [OF a], clarify)
        fix t q assume g: "grew (skip 1 p2) (capsOf t) q"
        then have g2: "grew p2 (capsOf t) q" by (rule moved_grew [rotated]) simp
        have "holds (\<lambda>(t', q'). \<exists>cs. capsOf t' = concat (map capsOf (alts @ [t])) @ cs \<and> grew q cs q')
            (altLoop n (alts @ [t]) q)"
          by (rule IH(2)) (use 2 grew_left [OF g] l in auto)
        then show "holds (\<lambda>(t, q). \<exists>cs. capsOf t = concat (map capsOf alts) @ cs \<and> grew p2 cs q)
            (altLoop n (alts @ [t]) q)"
          by (rule holds_mono) (auto intro: grew_trans [OF g2])
      qed
      then show ?thesis using True by simp
    qed
  qed
  have g3: "okAlternative (Suc n)"
    unfolding okAlternative_def
  proof (intro allI impI)
    fix terms p3 assume 3: "6 * jleft p3 + 4 \<le> Suc n"
    show "holds (\<lambda>(t, q). \<exists>cs. capsOf t = concat (map capsOf terms) @ cs \<and> grew p3 cs q) (alternative (Suc n) terms p3)"
    proof (cases "stops p3")
      case True
      have "capsOf (case terms of [] \<Rightarrow> JEmpty | [t] \<Rightarrow> t | _ \<Rightarrow> JConcat terms) = concat (map capsOf terms)"
        by (simp split: list.split)
      then show ?thesis using True by (simp add: stops_def Let_def exI [of _ "[]"])
    next
      case False
      have len: "ppos p3 < length (pat p3)" using jpeek_nonzero [of p3] False by (auto simp: stops_def)
      have a: "holds (\<lambda>(r, q). (\<exists>t. r = Some t \<and> grew p3 (capsOf t) q) \<and> ppos p3 < ppos q) (jterm n p3)"
        by (rule IH(4)) (use 3 False in auto)
      have "holds (\<lambda>(t, q). \<exists>cs. capsOf t = concat (map capsOf terms) @ cs \<and> grew p3 cs q)
          (andThen (jterm n p3) (\<lambda>(t, p1).
            alternative n (case t of None \<Rightarrow> terms | Some t' \<Rightarrow> terms @ [t']) p1))"
      proof (rule holds_andThen [OF a], clarify)
        fix t q assume g: "grew p3 (capsOf t) q" "ppos p3 < ppos q"
        have "holds (\<lambda>(t', q'). \<exists>cs. capsOf t' = concat (map capsOf (terms @ [t])) @ cs \<and> grew q cs q')
            (alternative n (terms @ [t]) q)"
          by (rule IH(3)) (use 3 grew_left_strict [OF g len] in auto)
        then show "holds (\<lambda>(t, q). \<exists>cs. capsOf t = concat (map capsOf terms) @ cs \<and> grew p3 cs q)
            (alternative n (case Some t of None \<Rightarrow> terms | Some t' \<Rightarrow> terms @ [t']) q)"
          unfolding option.case by (rule holds_mono) (auto intro: grew_trans [OF g(1)])
      qed
      then show ?thesis using False by (simp add: stops_def Let_def)
    qed
  qed
  have g4: "okTerm (Suc n)"
    unfolding okTerm_def
  proof (intro allI impI)
    fix p4 assume 4: "6 * jleft p4 + 3 \<le> Suc n" "\<not> stops p4"
    have a: "holds (\<lambda>(r, a, q). (\<exists>t. r = Some t \<and> grew p4 (capsOf t) q) \<and> ppos p4 < ppos q) (atom n p4)"
      by (rule IH(5)) (use 4 in auto)
    show "holds (\<lambda>(r, q). (\<exists>t. r = Some t \<and> grew p4 (capsOf t) q) \<and> ppos p4 < ppos q) (jterm (Suc n) p4)"
      unfolding jterm.simps
    proof (rule holds_andThen [OF a], clarify)
      fix ass q t assume g: "grew p4 (capsOf t) q" "ppos p4 < ppos q"
      show "holds (\<lambda>(r, q). (\<exists>t. r = Some t \<and> grew p4 (capsOf t) q) \<and> ppos p4 < ppos q)
        (case Some t of None \<Rightarrow> Inr (None, q) | Some a \<Rightarrow> andThen (quantifier q) (\<lambda>(qu, p2).
           case qu of None \<Rightarrow> Inr (Some a, p2)
           | Some (mn, mx, lazy) \<Rightarrow> if ass then Inl QuantOnAssertion
               else Inr (Some (JRepeat a mn mx lazy), p2)))"
        unfolding option.case
      proof (rule holds_andThen [OF quantifier_moved], clarify)
        fix qu r assume m: "moved q r"
        have "grew p4 (capsOf t) r" "ppos p4 < ppos r" using grew_moved [OF g(1) m] g(2) m by (auto simp: moved_def)
        then show "holds (\<lambda>(r, q). (\<exists>t. r = Some t \<and> grew p4 (capsOf t) q) \<and> ppos p4 < ppos q)
          (case qu of None \<Rightarrow> Inr (Some t, r)
           | Some (mn, mx, lazy) \<Rightarrow> if ass then Inl QuantOnAssertion else Inr (Some (JRepeat t mn mx lazy), r))"
          by (auto split: option.splits prod.splits)
      qed
    qed
  qed
  have g5: "okAtom (Suc n)"
    unfolding okAtom_def
  proof (intro allI impI)
    fix p5 assume 5: "6 * jleft p5 + 2 \<le> Suc n" "\<not> stops p5"
    let ?P = "\<lambda>(r, a :: bool, q). (\<exists>t. r = Some t \<and> grew p5 (capsOf t) q) \<and> ppos p5 < ppos q"
    have len: "ppos p5 < length (pat p5)" "pat p5 ! ppos p5 = jpeek p5"
      using jpeek_nonzero [of p5] 5 by (auto simp: stops_def)
    have ns: "\<not> (pat p5 ! ppos p5 = bt CHR ''|'' \<or> pat p5 ! ppos p5 = bt CHR '')'')"
      using 5(2) len by (simp add: stops_def)
    have one: "holds ?P (Inr (Some t, b, skip k p5))" if "capsOf t = []" "0 < k" for t b k
      using that moved_grew_Nil [of p5 "skip k p5"] by simp
    have cls: "holds ?P (andThen (parseClass p5) (\<lambda>(cls, p1). Inr (Some (JCls cls), False, p1)))"
      by (rule holds_andThen [OF parseClass_moved]) (auto intro: moved_grew_Nil)
    have grp: "holds ?P (parseGroup n p5)" by (rule IH(6)) (use 5 len in auto)
    have esc: "holds ?P (andThen (parseEscape False p5) (\<lambda>(t, assertion, p1). Inr (Some t, assertion, p1)))"
      by (rule holds_andThen [OF holds_conj [OF parseEscape_moved parseEscape_caps]])
        (auto intro: moved_grew_Nil)
    have brace: "holds ?P (andThen (braceQuant p5) (\<lambda>(q, p1).
        if q \<noteq> None then Inl NothingToRepeat else Inr (Some (JLit 0x7B), False, skip 1 p5)))"
      by (rule holds_andThen [OF braceQuant_moved]) (use one [of "JLit 0x7B" 1] in auto)
    obtain r sz where d: "decodeRune (jrest p5) = (r, sz)" by (cases "decodeRune (jrest p5)")
    have "0 < sz" using decodeRune_width [of "jrest p5"] len d by (simp add: jrest_def)
    then have lit: "holds ?P (case decodeRune (jrest p5) of (r, sz) \<Rightarrow> Inr (Some (JLit r), False, skip sz p5))"
      unfolding d prod.case by (intro one) simp_all
    have nl: "\<not> length (pat p5) \<le> ppos p5" using len by simp
    show "holds (\<lambda>(r, a, q). (\<exists>t. r = Some t \<and> grew p5 (capsOf t) q) \<and> ppos p5 < ppos q) (atom (Suc n) p5)"
      unfolding atom.simps Let_def if_not_P [OF nl]
      by (intro holds_if, (rule one, simp, simp)+, rule cls, rule grp, rule esc, erule notE [OF ns],
          simp only: holds_simps reErr.distinct not_False_eq_True simp_thms, rule brace, rule lit)
  qed
  have g6: "okGroup (Suc n)"
    unfolding okGroup_def
  proof (intro allI impI)
    fix p6 assume 6: "6 * jleft p6 + 1 \<le> Suc n" "ppos p6 < length (pat p6)"
    let ?P = "\<lambda>(r, a :: bool, q). (\<exists>t. r = Some t \<and> grew p6 (capsOf t) q) \<and> ppos p6 < ppos q"
    have body: "holds ?P (andThen (disjunction n p1) (closeGroup f b))"
      if g: "grew p6 cs p1" "ppos p6 < ppos p1" and f: "\<And>t. capsOf (f t) = cs @ capsOf t" for p1 f b cs
    proof -
      have "6 * jleft p1 + 5 \<le> n" using grew_left_strict [OF g 6(2)] 6(1) by simp
      from IH(1) [OF this] show ?thesis
        by (rule holds_andThen) (clarify, rule closeGroup_grew [OF f g])
    qed
    have skp: "grew p6 [] (skip k p6)" for k by (simp add: moved_grew_Nil)
    have sk: "skip i (skip j p6) = skip (j + i) p6" for i j by (simp add: skip_def)
    have new: "grew p6 [(Suc (ncap p), name)] (newCapture name p)"
      if "moved p6 p" for p name
      using that by (simp add: grew_def newCapture_def moved_def)
    have plain: "holds ?P (andThen (disjunction n (newCapture [] (skip 1 p6)))
        (closeGroup (JCap (ncap (newCapture [] (skip 1 p6))) []) False))"
      by (rule body [OF new]) (simp_all add: newCapture_def)
    have named: "holds ?P (andThen (readName (skip (1 + 1 + 1) p6)) (\<lambda>(name, p2).
        andThen (disjunction n ((newCapture name p2)\<lparr>nameIdx :=
            (nameIdx (newCapture name p2))(name := Some (ncap (newCapture name p2)))\<rparr>))
          (closeGroup (JCap (ncap (newCapture name p2)) name) False)))"
    proof (rule holds_andThen [OF readName_moved], clarify)
      fix name p2 assume m: "moved (skip (1 + 1 + 1) p6) p2"
      have "grew p6 [(Suc (ncap p2), name)] ((newCapture name p2)\<lparr>nameIdx := x\<rparr>)" for x
        using new [OF moved_skip [OF m], of name] by (simp add: grew_def)
      then show "holds ?P (andThen (disjunction n ((newCapture name p2)\<lparr>nameIdx :=
            (nameIdx (newCapture name p2))(name := Some (ncap (newCapture name p2)))\<rparr>))
          (closeGroup (JCap (ncap (newCapture name p2)) name) False))"
        by (rule body) (use m in \<open>simp_all add: newCapture_def moved_def\<close>)
    qed
    have look: "holds ?P (andThen (disjunction n (skip k p6)) (closeGroup f b))"
      if "0 < k" "\<And>t. capsOf (f t) = capsOf t" for k f b
      by (rule body [OF skp]) (use that in simp_all)
    show "holds (\<lambda>(r, a, q). (\<exists>t. r = Some t \<and> grew p6 (capsOf t) q) \<and> ppos p6 < ppos q) (parseGroup (Suc n) p6)"
      unfolding parseGroup.simps Let_def sk
      by (intro holds_if, rule plain, simp only: holds_simps reErr.distinct not_False_eq_True simp_thms,
          (rule look, simp, simp)+, rule named, simp only: holds_simps reErr.distinct not_False_eq_True simp_thms)
  qed
  show ?case using g1 g2 g3 g4 g5 g6 by blast
qed

text \<open>
  C22.  Compiling terminates on every pattern: the parser never runs out of the fuel that
  \<open>compileJSRE\<close> gives it, six units per byte.  In a compiled program the groups are numbered from
  1 to \<open>ncap\<close> in the order of their opening parentheses, and the list of names has one entry for
  the whole match and one for each group, its own.
\<close>

theorem compile_numbers_groups:
  "case compileJSRE pattern flags of
     Inl e \<Rightarrow> e \<noteq> OutOfFuel
   | Inr g \<Rightarrow> map fst (capsOf (root g)) = [1 ..< Suc (pncap g)]
       \<and> pnames g = [] # map snd (capsOf (root g))"
proof -
  let ?p = "\<lparr>pat = pattern, ppos = 0, ncap = 0, names = [[]], nameIdx = (\<lambda>_. None)\<rparr> :: jparser"
  have "okDisj (compileFuel ?p)" using parser_ok by blast
  then have "holds (\<lambda>(t, q). grew ?p (capsOf t) q) (disjunction (compileFuel ?p) ?p)"
    by (simp add: okDisj_def compileFuel_def jleft_def)
  then have "holds (\<lambda>g. map fst (capsOf (root g)) = [1 ..< Suc (pncap g)]
      \<and> pnames g = [] # map snd (capsOf (root g))) (compileJSRE pattern flags)"
    unfolding compileJSRE_def Let_def
    by (rule holds_andThen) (auto simp: grew_def)
  then show ?thesis by (cases "compileJSRE pattern flags") (simp_all only: holds_simps sum.case not_False_eq_True)
qed

section \<open>Quantifier bounds\<close>

text \<open>A node whose quantifiers have their bounds in order; what the parser builds has.\<close>

primrec repOk :: "jnode \<Rightarrow> bool" where
  "repOk JEmpty = True"
| "repOk (JLit r) = True"
| "repOk JDot = True"
| "repOk (JCls c) = True"
| "repOk (JConcat ts) = list_all id (map repOk ts)"
| "repOk (JAlt ts) = list_all id (map repOk ts)"
| "repOk (JRepeat t mn mx lazy) = (repOk t \<and> (mx < 0 \<or> mn \<le> mx))"
| "repOk (JCap i name t) = repOk t"
| "repOk (JLook t neg behind) = repOk t"
| "repOk (JBack i) = True"
| "repOk (JAnchor k) = True"

definition ordered :: "(int \<times> int) option \<Rightarrow> bool" where
  "ordered q \<longleftrightarrow> (case q of None \<Rightarrow> True | Some (mn, mx) \<Rightarrow> mx < 0 \<or> mn \<le> mx)"

lemma braceQuant_ordered: "holds (\<lambda>(q, r). ordered q) (braceQuant p)"
  by (auto simp: braceQuant_def Let_def ordered_def split: prod.splits)

lemma quantifier_ordered:
  "holds (\<lambda>(q, r). ordered (map_option (\<lambda>(mn, mx, lazy). (mn, mx)) q)) (quantifier p)"
proof -
  have q: "holds (\<lambda>(q, r). ordered q)
     (if jpeek p = bt CHR ''*'' then Inr (Some (0, - 1), skip 1 p)
      else if jpeek p = bt CHR ''+'' then Inr (Some (1, - 1), skip 1 p)
      else if jpeek p = bt CHR ''?'' then Inr (Some (0, 1), skip 1 p)
      else if jpeek p = bt CHR ''{'' then braceQuant p
      else Inr (None, p))"
    using braceQuant_ordered [of p] by (simp add: ordered_def)
  show ?thesis
    unfolding quantifier_def Let_def
    by (rule holds_andThen [OF q]) (auto simp: ordered_def split: option.splits)
qed

lemma parseEscape_repOk: "holds (\<lambda>(n, a, q). repOk n) (parseEscape b p)"
proof -
  define p2 where "p2 = skip 1 (skip 1 p)"
  have k: "holds (\<lambda>(n, a :: bool, q :: jparser). repOk n) (andThen (readName (skip 1 p2)) f)"
    if "\<And>v q. holds (\<lambda>(n, a, q'). repOk n) (f (v, q))" for f
  proof (rule holds_andThen [OF readName_moved])
    show "holds (\<lambda>(n, a, q). repOk n) (f x)" for x
      using that [where v = "fst x" and q = "snd x"] by simp
  qed
  show ?thesis
    unfolding parseEscape_def Let_def p2_def [symmetric]
    by (intro holds_if k) (auto split: prod.splits option.splits)
qed

text \<open>\<open>gives P m\<close>: a success satisfies \<open>P\<close>; nothing is said about errors.\<close>

definition gives :: "('a \<Rightarrow> bool) \<Rightarrow> reErr + 'a \<Rightarrow> bool" where
  "gives P m \<longleftrightarrow> (\<forall>x. m = Inr x \<longrightarrow> P x)"

lemma gives_simps [simp]: "gives P (Inl e)" "gives P (Inr x) = P x"
  by (simp_all add: gives_def)

lemma gives_if: "(b \<Longrightarrow> gives P x) \<Longrightarrow> (\<not> b \<Longrightarrow> gives P y) \<Longrightarrow> gives P (if b then x else y)"
  by simp

lemma gives_andThen: "gives Q m \<Longrightarrow> (\<And>x. Q x \<Longrightarrow> gives P (f x)) \<Longrightarrow> gives P (andThen m f)"
  by (cases m) (auto simp: gives_def)

lemma holds_gives: "holds P m \<Longrightarrow> gives P m"
  by (cases m) auto

lemma gives_any: "gives (\<lambda>_. True) m"
  by (simp add: gives_def)

lemma closeGroup_repOk:
  "(\<And>t. repOk t \<Longrightarrow> repOk (f t)) \<Longrightarrow> repOk (fst x) \<Longrightarrow> gives (\<lambda>(r, a, q). pred_option repOk r) (closeGroup f b x)"
  by (cases x) (simp add: closeGroup_def)

lemma parser_repOk:
  "(\<forall>p. gives (\<lambda>(t, q). repOk t) (disjunction n p))
   \<and> (\<forall>alts p. list_all repOk alts \<longrightarrow> gives (\<lambda>(t, q). repOk t) (altLoop n alts p))
   \<and> (\<forall>terms p. list_all repOk terms \<longrightarrow> gives (\<lambda>(t, q). repOk t) (alternative n terms p))
   \<and> (\<forall>p. gives (\<lambda>(r, q). pred_option repOk r) (jterm n p))
   \<and> (\<forall>p. gives (\<lambda>(r, a, q). pred_option repOk r) (atom n p))
   \<and> (\<forall>p. gives (\<lambda>(r, a, q). pred_option repOk r) (parseGroup n p))"
proof (induction n)
  case 0
  show ?case by simp
next
  case (Suc n)
  then have d: "\<And>p. gives (\<lambda>(t, q). repOk t) (disjunction n p)"
    and al: "\<And>alts p. list_all repOk alts \<Longrightarrow> gives (\<lambda>(t, q). repOk t) (altLoop n alts p)"
    and a: "\<And>terms p. list_all repOk terms \<Longrightarrow> gives (\<lambda>(t, q). repOk t) (alternative n terms p)"
    and t: "\<And>p. gives (\<lambda>(r, q). pred_option repOk r) (jterm n p)"
    and at: "\<And>p. gives (\<lambda>(r, a, q). pred_option repOk r) (atom n p)"
    and g: "\<And>p. gives (\<lambda>(r, a, q). pred_option repOk r) (parseGroup n p)"
    by blast+
  have 1: "gives (\<lambda>(t, q). repOk t) (disjunction (Suc n) p)" for p
    unfolding disjunction.simps by (rule gives_andThen [OF a]) (auto intro!: al)
  have 2: "gives (\<lambda>(t, q). repOk t) (altLoop (Suc n) alts p)" if "list_all repOk alts" for alts p
    unfolding altLoop.simps
    by (rule gives_if, rule gives_andThen [OF a]) (use that in \<open>auto intro!: al simp: list.pred_map comp_def\<close>)
  have 3: "gives (\<lambda>(t, q). repOk t) (alternative (Suc n) terms p)" if "list_all repOk terms" for terms p
    unfolding alternative.simps Let_def
  proof (rule gives_if)
    show "gives (\<lambda>(t, q). repOk t)
        (Inr (case terms of [] \<Rightarrow> JEmpty | [t] \<Rightarrow> t | _ \<Rightarrow> JConcat terms, p))"
      using that by (auto simp: list.pred_map comp_def split: list.split)
    show "gives (\<lambda>(t, q). repOk t) (andThen (jterm n p)
        (\<lambda>(t, p1). alternative n (case t of None \<Rightarrow> terms | Some t' \<Rightarrow> terms @ [t']) p1))"
      by (rule gives_andThen [OF t]) (use that in \<open>auto intro!: a split: option.splits\<close>)
  qed
  have 4: "gives (\<lambda>(r, q). pred_option repOk r) (jterm (Suc n) p)" for p
    unfolding jterm.simps
  proof (rule gives_andThen [OF at], clarify)
    fix r ass q assume r: "pred_option repOk r"
    show "gives (\<lambda>(r, q). pred_option repOk r)
        (case r of None \<Rightarrow> Inr (None, q) | Some a \<Rightarrow> andThen (quantifier q) (\<lambda>(qu, p2).
           case qu of None \<Rightarrow> Inr (Some a, p2)
           | Some (mn, mx, lazy) \<Rightarrow> if ass then Inl QuantOnAssertion
               else Inr (Some (JRepeat a mn mx lazy), p2)))"
    proof (cases r)
      case (Some b)
      show ?thesis unfolding Some option.case
        by (rule gives_andThen [OF holds_gives [OF quantifier_ordered]])
          (use r Some in \<open>auto simp: ordered_def split: option.splits\<close>)
    qed simp
  qed
  have e: "gives (\<lambda>(r, a, q). pred_option repOk r)
      (andThen (parseEscape b p) (\<lambda>(t, assertion, p1). Inr (Some t, assertion, p1)))" for b p
    by (rule gives_andThen [OF holds_gives [OF parseEscape_repOk]]) auto
  have 5: "gives (\<lambda>(r, a, q). pred_option repOk r) (atom (Suc n) p)" for p
    unfolding atom.simps Let_def
    by (intro gives_if) (rule g e | (rule gives_andThen [OF gives_any], simp split: prod.split)
      | simp split: prod.split)+
  have c: "gives (\<lambda>(r, a, q). pred_option repOk r) (andThen (disjunction n p) (closeGroup f b))"
    if "\<And>t. repOk t \<Longrightarrow> repOk (f t)" for p f b
    by (rule gives_andThen [OF d], rule closeGroup_repOk) (use that in auto)
  have 6: "gives (\<lambda>(r, a, q). pred_option repOk r) (parseGroup (Suc n) p)" for p
    unfolding parseGroup.simps Let_def
    by (intro gives_if) ((rule c; simp) | (rule gives_andThen [OF gives_any], clarify, rule c; simp) | simp)+
  show ?case using 1 2 3 4 5 6 by blast
qed

lemma compile_repOk: "compileJSRE pattern flags = Inr g \<Longrightarrow> repOk (root g)"
proof -
  have "gives (\<lambda>g. repOk (root g)) (compileJSRE pattern flags)"
    unfolding compileJSRE_def Let_def
  proof (rule gives_andThen)
    show "gives (\<lambda>(t, q). repOk t) (disjunction n p)" for n p using parser_repOk by blast
  qed auto
  then show "compileJSRE pattern flags = Inr g \<Longrightarrow> repOk (root g)" by simp
qed

end
