(* ===== verification/JsreSpec.thy ===== *)
theory JsreSpec
  imports JsreRuns JsreParse
begin

text \<open>
  What the matcher decides.  A node denotes a relation between the position where it starts and
  the positions where it can end (\<open>ends\<close>), written without order, gas, continuations or capture
  slots: repetition is any number of iterations within its bounds.  Without back references,
  an unlimited run of the matcher on a node succeeds exactly when some end is accepted by the
  continuation; the bound on the iterations and the rule that an iteration must not be empty
  lose nothing.  The search is then the leftmost match, with any gas above the cost of the run.
\<close>

section \<open>The denotation of a node\<close>

definition runeStep :: "gostring \<Rightarrow> nat \<Rightarrow> nat \<Rightarrow> bool" where
  "runeStep s a b \<longleftrightarrow> a < length s \<and> b = a + snd (runeAt s a)"

definition runeStarts :: "gostring \<Rightarrow> nat set" where
  "runeStarts s = {i. (runeStep s)\<^sup>*\<^sup>* 0 i}"

primrec seqEnds :: "(nat \<Rightarrow> nat set) list \<Rightarrow> nat \<Rightarrow> nat set" where
  "seqEnds [] pos = {pos}"
| "seqEnds (e # es) pos = (\<Union>q \<in> e pos. seqEnds es q)"

primrec iterEnds :: "nat \<Rightarrow> (nat \<Rightarrow> nat set) \<Rightarrow> nat \<Rightarrow> nat set" where
  "iterEnds 0 e pos = {pos}"
| "iterEnds (Suc j) e pos = (\<Union>q \<in> e pos. iterEnds j e q)"

definition runeEnds :: "utab \<Rightarrow> jprog \<Rightarrow> gostring \<Rightarrow> jnode \<Rightarrow> nat \<Rightarrow> nat set" where
  "runeEnds u p s n pos =
     (if pos < length s \<and> runeMatches u p n (fst (runeAt s pos)) then {pos + snd (runeAt s pos)} else {})"

primrec ends :: "utab \<Rightarrow> jprog \<Rightarrow> gostring \<Rightarrow> jnode \<Rightarrow> nat \<Rightarrow> nat set" where
  "ends u p s JEmpty = (\<lambda>pos. {pos})"
| "ends u p s (JLit r) = runeEnds u p s (JLit r)"
| "ends u p s JDot = runeEnds u p s JDot"
| "ends u p s (JCls c) = runeEnds u p s (JCls c)"
| "ends u p s (JConcat ts) = seqEnds (map (ends u p s) ts)"
| "ends u p s (JAlt ts) = (\<lambda>pos. \<Union>e \<in> set (map (ends u p s) ts). e pos)"
| "ends u p s (JRepeat t mn mx lazy) =
     (\<lambda>pos. {q. \<exists>j. mn \<le> int j \<and> (mx < 0 \<or> int j \<le> mx) \<and> q \<in> iterEnds j (ends u p s t) pos})"
| "ends u p s (JCap i name t) = ends u p s t"
| "ends u p s (JLook t neg behind) =
     (\<lambda>pos. if neg \<noteq> (if behind then \<exists>a \<in> runeStarts s. a \<le> pos \<and> pos \<in> ends u p s t a
                       else ends u p s t pos \<noteq> {})
            then {pos} else {})"
| "ends u p s (JBack i) = (\<lambda>pos. {})"
| "ends u p s (JAnchor a) = (\<lambda>pos. if anchorHolds u p s a pos then {pos} else {})"

primrec noBack :: "jnode \<Rightarrow> bool" where
  "noBack JEmpty = True"
| "noBack (JLit r) = True"
| "noBack JDot = True"
| "noBack (JCls c) = True"
| "noBack (JConcat ts) = list_all id (map noBack ts)"
| "noBack (JAlt ts) = list_all id (map noBack ts)"
| "noBack (JRepeat t mn mx lazy) = noBack t"
| "noBack (JCap i name t) = noBack t"
| "noBack (JLook t neg behind) = noBack t"
| "noBack (JBack i) = False"
| "noBack (JAnchor k) = True"

section \<open>Positions\<close>

definition forward :: "gostring \<Rightarrow> (nat \<Rightarrow> nat set) \<Rightarrow> bool" where
  "forward s e \<longleftrightarrow> (\<forall>pos q. pos \<le> length s \<longrightarrow> q \<in> e pos \<longrightarrow> pos \<le> q \<and> q \<le> length s)"

lemma forwardD: "forward s e \<Longrightarrow> q \<in> e pos \<Longrightarrow> pos \<le> length s \<Longrightarrow> pos \<le> q \<and> q \<le> length s"
  unfolding forward_def by blast

lemma forwardI: "(\<And>pos q. pos \<le> length s \<Longrightarrow> q \<in> e pos \<Longrightarrow> pos \<le> q \<and> q \<le> length s) \<Longrightarrow> forward s e"
  unfolding forward_def by blast

lemma forward_ext: "forward s e \<Longrightarrow> (\<And>pos. e pos = f pos) \<Longrightarrow> forward s f"
  by (simp add: ext [of e f])

lemma forward_comp:
  assumes e: "forward s e" and f: "forward s f"
  shows "forward s (\<lambda>pos. \<Union>q \<in> e pos. f q)"
proof (rule forwardI)
  fix pos r assume pos: "pos \<le> length s" and "r \<in> (\<Union>q \<in> e pos. f q)"
  then obtain q where q: "q \<in> e pos" "r \<in> f q" by blast
  show "pos \<le> r \<and> r \<le> length s"
    using forwardD [OF e q(1) pos] forwardD [OF f q(2)] by auto
qed

lemma forward_seq: "(\<And>e. e \<in> set es \<Longrightarrow> forward s e) \<Longrightarrow> forward s (seqEnds es)"
proof (induction es)
  case (Cons e es)
  then have "forward s e" "forward s (seqEnds es)" by simp_all
  then have "forward s (\<lambda>pos. \<Union>q \<in> e pos. seqEnds es q)" by (rule forward_comp)
  then show ?case by (rule forward_ext) simp
qed (rule forwardI, simp)

lemma forward_iter: "forward s e \<Longrightarrow> forward s (iterEnds j e)"
proof (induction j)
  case (Suc j)
  then have "forward s (\<lambda>pos. \<Union>q \<in> e pos. iterEnds j e q)" by (intro forward_comp)
  then show ?case by (rule forward_ext) simp
qed (rule forwardI, simp)

lemma forward_rune: "forward s (runeEnds u p s n)"
proof (rule forwardI)
  fix pos q assume "q \<in> runeEnds u p s n pos"
  then have "pos < length s" "q = pos + snd (runeAt s pos)" by (auto simp: runeEnds_def split: if_splits)
  then show "pos \<le> q \<and> q \<le> length s" using runeAt_width [of pos s] by simp
qed

lemma forward_ends: "forward s (ends u p s n)"
proof (induction n)
  case (JConcat ts)
  show ?case unfolding ends.simps by (rule forward_seq) (use JConcat in auto)
next
  case (JAlt ts)
  show ?case by (rule forwardI) (use JAlt in \<open>auto dest: forwardD\<close>)
next
  case (JRepeat t mn mx lazy)
  show ?case by (rule forwardI) (auto dest: forwardD [OF forward_iter [OF JRepeat]])
next
  case (JLook t neg behind)
  show ?case by (rule forwardI) (simp split: if_splits)
next
  case (JAnchor a)
  show ?case by (rule forwardI) (simp split: if_splits)
qed (auto intro: forward_rune forwardI)

lemma runeStep_less: "runeStep s a b \<Longrightarrow> a < b \<and> b \<le> length s"
  using runeAt_width [of a s] by (auto simp: runeStep_def)

lemma runeStep_le: "(runeStep s)\<^sup>*\<^sup>* a b \<Longrightarrow> a \<le> b"
  by (induction rule: rtranclp_induct) (auto dest: runeStep_less)

lemma runeStep_unfold:
  "(runeStep s)\<^sup>*\<^sup>* a x \<longleftrightarrow> x = a \<or> (a < length s \<and> (runeStep s)\<^sup>*\<^sup>* (a + max 1 (snd (runeAt s a))) x)"
proof -
  have "runeStep s a b \<longleftrightarrow> a < length s \<and> b = a + max 1 (snd (runeAt s a))" for b
    using runeAt_width [of a s] by (auto simp: runeStep_def)
  then show ?thesis by (metis converse_rtranclp_into_rtranclp converse_rtranclpE rtranclp.rtrancl_refl)
qed

section \<open>Decided runs\<close>

text \<open>
  \<open>decides N P m b\<close>: unlimited runs of \<open>m\<close> give the verdict \<open>b\<close> whatever the state, keep the
  \<open>N\<close> capture slots, and a success leaves a state that satisfies \<open>P\<close>.
\<close>

definition free :: "nat \<Rightarrow> rst \<Rightarrow> bool" where
  "free N st \<longleftrightarrow> unlimited st \<and> length (caps st) = N"

definition decides :: "nat \<Rightarrow> (rst \<Rightarrow> bool) \<Rightarrow> run \<Rightarrow> bool \<Rightarrow> bool" where
  "decides N P m b \<longleftrightarrow>
     (\<forall>st. free N st \<longrightarrow> fst (m st) = b \<and> free N (snd (m st)) \<and> (b \<longrightarrow> P (snd (m st))))"

abbreviation decidesAny :: "nat \<Rightarrow> run \<Rightarrow> bool \<Rightarrow> bool" where
  "decidesAny N \<equiv> decides N (\<lambda>_. True)"

lemma dec_ret: "decidesAny N (ret b) b" "decides N P (ret False) False"
  by (simp_all add: decides_def ret_def)

lemma dec_bind: "decidesAny N m b \<Longrightarrow> decides N P (f b) c \<Longrightarrow> decides N P (bindR m f) c"
  by (fastforce simp: decides_def bindR_def split: prod.split)

lemma dec_guard: "decidesAny N m1 b1 \<Longrightarrow> (b1 \<Longrightarrow> decides N P m2 b2) \<Longrightarrow> decides N P (guardR m1 m2) (b1 \<and> b2)"
  unfolding guardR_def by (rule dec_bind [where b = b1]) (auto intro: dec_ret)

lemma dec_orElse: "decides N P m1 b1 \<Longrightarrow> decides N P m2 b2 \<Longrightarrow> decides N P (orElse m1 m2) (b1 \<or> b2)"
  by (fastforce simp: decides_def orElse_def bindR_def ret_def split: prod.split)

lemma dec_unless: "decides N P m b \<Longrightarrow> decides N P (unlessAborted m) b"
  by (simp add: decides_def unlessAborted_def free_def unlimited_def)

lemma dec_charge: "decidesAny N (charge n) True"
  by (simp add: decides_def charge_def free_def unlimited_def)

lemma dec_enter: "decidesAny N (enter None) True"
  by (simp add: decides_def enter_def charge_def free_def unlimited_def Let_def)

lemma dec_setCap: "decidesAny N (setCap i a c) True"
  by (simp add: decides_def setCap_def free_def unlimited_def)

lemma dec_withCaps: "(\<And>cs. decides N P (h cs) b) \<Longrightarrow> decides N P (withCaps h) b"
  by (simp add: decides_def withCaps_def)

lemma dec_if: "(c \<Longrightarrow> decides N P m1 b1) \<Longrightarrow> (\<not> c \<Longrightarrow> decides N P m2 b2) \<Longrightarrow>
   decides N P (if c then m1 else m2) (if c then b1 else b2)"
  by simp

lemma dec_eq: "decides N P m b \<Longrightarrow> b = b' \<Longrightarrow> decides N P m b'"
  by simp

lemma dec_entered: "decides N P m b \<Longrightarrow> decides N P (guardR (enter None) m) b"
  using dec_guard [OF dec_enter, of N P m b] by simp

lemma dec_charged: "decides N P m b \<Longrightarrow> decides N P (guardR (charge n) m) b"
  using dec_guard [OF dec_charge, of N P m b] by simp

text \<open>A matcher that decides whether some end of \<open>e\<close> is accepted.\<close>

definition decM :: "gostring \<Rightarrow> (nat \<Rightarrow> nat set) \<Rightarrow> matcher \<Rightarrow> bool" where
  "decM s e m \<longleftrightarrow>
     (\<forall>pos k A N P. pos \<le> length s \<longrightarrow> (\<forall>q \<in> e pos. decides N P (k q) (A q)) \<longrightarrow>
        decides N P (m pos k) (\<exists>q \<in> e pos. A q))"

lemma decMD:
  "decM s e m \<Longrightarrow> pos \<le> length s \<Longrightarrow> (\<And>q. q \<in> e pos \<Longrightarrow> decides N P (k q) (A q)) \<Longrightarrow>
   decides N P (m pos k) (\<exists>q \<in> e pos. A q)"
  by (simp add: decM_def)

lemma decMI:
  "(\<And>pos k A N P. pos \<le> length s \<Longrightarrow> (\<And>q. q \<in> e pos \<Longrightarrow> decides N P (k q) (A q)) \<Longrightarrow>
     decides N P (m pos k) (\<exists>q \<in> e pos. A q)) \<Longrightarrow> decM s e m"
  by (simp add: decM_def)

lemma decM_rune: "decM s (runeEnds u p s n) (stepRune u p s n)"
  by (rule decMI)
    (auto simp: stepRune_def runeEnds_def dec_ret split: prod.splits)

lemma decM_walk:
  assumes "\<And>t. t \<in> set ts \<Longrightarrow> decM s (e t) (m t) \<and> forward s (e t)"
  shows "decM s (seqEnds (map e ts)) (walkKids (map m ts))"
  using assms
proof (induction ts)
  case (Cons t ts)
  have t: "decM s (e t) (m t)" "forward s (e t)" and ts: "decM s (seqEnds (map e ts)) (walkKids (map m ts))"
    using Cons by simp_all
  show ?case
  proof (rule decMI)
    fix pos k A N P assume pos: "pos \<le> length s"
      and k: "\<And>q. q \<in> seqEnds (map e (t # ts)) pos \<Longrightarrow> decides N P (k q) (A q)"
    have "decides N P (m t pos (\<lambda>np. walkKids (map m ts) np k)) (\<exists>q \<in> e t pos. \<exists>r \<in> seqEnds (map e ts) q. A r)"
      by (rule decMD [OF t(1) pos], rule decMD [OF ts])
        (use forwardD [OF t(2) _ pos] k in auto)
    then show "decides N P (walkKids (map m (t # ts)) pos k) (\<exists>q \<in> seqEnds (map e (t # ts)) pos. A q)"
      by simp
  qed
qed (auto intro!: decMI)

lemma decM_try:
  assumes "\<And>t. t \<in> set ts \<Longrightarrow> decM s (e t) (m t)"
  shows "decM s (\<lambda>pos. \<Union>f \<in> set (map e ts). f pos) (tryKids first (map m ts))"
  using assms
proof (induction ts arbitrary: first)
  case (Cons t ts)
  have t: "decM s (e t) (m t)"
    and ts: "decM s (\<lambda>pos. \<Union>f \<in> set (map e ts). f pos) (tryKids False (map m ts))"
    using Cons by simp_all
  show ?case
  proof (rule decMI)
    fix pos k A N P assume pos: "pos \<le> length s"
      and k: "\<And>q. q \<in> (\<Union>f \<in> set (map e (t # ts)). f pos) \<Longrightarrow> decides N P (k q) (A q)"
    have free: "decidesAny N (if first then ret True else charge jsreGasBacktrack) True"
      by (simp add: dec_ret dec_charge)
    have one: "decides N P (m t pos k) (\<exists>q \<in> e t pos. A q)"
      by (rule decMD [OF t pos]) (use k in auto)
    have rest: "decides N P (tryKids False (map m ts) pos k) (\<exists>q \<in> (\<Union>f \<in> set (map e ts). f pos). A q)"
      by (rule decMD [OF ts pos]) (use k in auto)
    have "decides N P (tryKids first (map m (t # ts)) pos k)
        (True \<and> ((\<exists>q \<in> e t pos. A q) \<or> (\<exists>q \<in> (\<Union>f \<in> set (map e ts). f pos). A q)))"
      unfolding list.map tryKids.simps by (intro dec_guard free dec_orElse one dec_unless rest)
    then show "decides N P (tryKids first (map m (t # ts)) pos k)
        (\<exists>q \<in> (\<Union>f \<in> set (map e (t # ts)). f pos). A q)"
      by (rule dec_eq) auto
  qed
qed (auto intro!: decMI dec_ret)

lemma decM_capture: "decM s e m \<Longrightarrow> decM s e (capture i m)"
proof (rule decMI)
  fix pos k A N P assume m: "decM s e m" and pos: "pos \<le> length s"
    and k: "\<And>q. q \<in> e pos \<Longrightarrow> decides N P (k q) (A q)"
  have tail: "decides N P (guardR (setCap i (int pos) (int fin)) (orElse (k fin) (bindR (setCap i a c) (\<lambda>_. ret False)))) (A fin)"
    if "fin \<in> e pos" for fin a c
  proof -
    have undo: "decides N P (bindR (setCap i a c) (\<lambda>_. ret False)) False"
      by (rule dec_bind [OF dec_setCap dec_ret(2)])
    show ?thesis
      using dec_guard [OF dec_setCap dec_orElse [OF k [OF that] undo]] by simp
  qed
  have body: "decides N P (m pos (\<lambda>fin. guardR (setCap i (int pos) (int fin))
      (orElse (k fin) (bindR (setCap i a c) (\<lambda>_. ret False))))) (\<exists>q \<in> e pos. A q)" for a c
    by (rule decMD [OF m pos tail])
  show "decides N P (capture i m pos k) (\<exists>q \<in> e pos. A q)"
    unfolding capture_def
    by (rule dec_withCaps) (auto intro: body split: prod.split)
qed

section \<open>Repetition\<close>

text \<open>What the loop can reach with \<open>rem\<close> more iterations, \<open>count\<close> of them done.\<close>

definition reaches :: "(nat \<Rightarrow> nat set) \<Rightarrow> int \<Rightarrow> (nat \<Rightarrow> bool) \<Rightarrow> nat \<Rightarrow> int \<Rightarrow> nat \<Rightarrow> bool" where
  "reaches e mn A rem count pos \<longleftrightarrow> (\<exists>j \<le> rem. mn \<le> count + int j \<and> (\<exists>q \<in> iterEnds j e pos. A q))"

lemma reaches_0: "mn \<le> count \<Longrightarrow> reaches e mn A 0 count pos \<longleftrightarrow> A pos"
  by (auto simp: reaches_def)

lemma reaches_stop: "mn \<le> count \<Longrightarrow> A pos \<Longrightarrow> reaches e mn A rem count pos"
  unfolding reaches_def by (intro exI [of _ 0]) auto

lemma reaches_step:
  "q \<in> e pos \<Longrightarrow> reaches e mn A rem (count + 1) q \<Longrightarrow> reaches e mn A (Suc rem) count pos"
  unfolding reaches_def
  by (elim exE conjE, rule_tac x = "Suc j" in exI) (auto simp: algebra_simps)

text \<open>An empty iteration that is not needed can be left out.\<close>

lemma iter_nonempty_first:
  "mn \<le> count \<Longrightarrow> r \<in> iterEnds j e pos \<Longrightarrow> A r \<Longrightarrow> j \<le> Suc rem \<Longrightarrow>
   A pos \<or> (\<exists>q \<in> e pos. q \<noteq> pos \<and> reaches e mn A rem (count + 1) q)"
proof (induction j)
  case (Suc j)
  then obtain q where q: "q \<in> e pos" "r \<in> iterEnds j e q" by auto
  show ?case
  proof (cases "q = pos")
    case True
    then show ?thesis using Suc q by simp
  next
    case False
    have "reaches e mn A rem (count + 1) q"
      unfolding reaches_def using Suc.prems q by (intro exI [of _ j]) auto
    then show ?thesis using q False by blast
  qed
qed simp

lemma reaches_unfold:
  "reaches e mn A (Suc rem) count pos \<longleftrightarrow>
     (mn \<le> count \<and> A pos) \<or>
     (\<exists>q \<in> e pos. \<not> (q = pos \<and> mn \<le> count) \<and> reaches e mn A rem (count + 1) q)" (is "_ \<longleftrightarrow> ?r")
proof
  assume "reaches e mn A (Suc rem) count pos"
  then obtain j r where j: "j \<le> Suc rem" "mn \<le> count + int j" "r \<in> iterEnds j e pos" "A r"
    by (auto simp: reaches_def)
  show ?r
  proof (cases "mn \<le> count")
    case True
    then show ?thesis using iter_nonempty_first [where A = A, OF True j(3,4,1)] by blast
  next
    case False
    then obtain i where i: "j = Suc i" using j(2) by (cases j) auto
    then obtain q where q: "q \<in> e pos" "r \<in> iterEnds i e q" using j(3) by auto
    have "reaches e mn A rem (count + 1) q"
      unfolding reaches_def using j i q by (intro exI [of _ i]) auto
    then show ?thesis using q False by blast
  qed
qed (auto intro: reaches_stop reaches_step)

lemma takeMore_decides:
  assumes m: "decM s e m" and e: "forward s e"
  shows "pos \<le> length s \<Longrightarrow> mn \<le> count + int rem \<Longrightarrow>
    (\<And>j q. mn \<le> count + int j \<Longrightarrow> j \<le> rem \<Longrightarrow> q \<in> iterEnds j e pos \<Longrightarrow> decides N P (k q) (A q)) \<Longrightarrow>
    decides N P (takeMore m lazy mn rem count pos k) (reaches e mn A rem count pos)"
proof (induction rem arbitrary: count pos)
  case 0
  have "decides N P (k pos) (A pos)" using 0(3) [of 0 pos] 0(2) by simp
  then show ?case using 0(2) by (simp add: reaches_0 dec_charged)
next
  case (Suc rem)
  let ?done = "mn \<le> count"
  let ?more = "\<lambda>np. reaches e mn A rem (count + 1) np"
  have stop: "?done \<Longrightarrow> decides N P (k pos) (A pos)" using Suc(4) [of 0 pos] by simp
  have more: "decides N P (takeMore m lazy mn rem (count + 1) q k) (?more q)" if q: "q \<in> e pos" for q
  proof (rule Suc.IH)
    show "q \<le> length s" using forwardD [OF e q Suc(2)] by simp
    show "mn \<le> count + 1 + int rem" using Suc(3) by simp
    show "decides N P (k r) (A r)" if "mn \<le> count + 1 + int j" "j \<le> rem" "r \<in> iterEnds j e q" for j r
      by (rule Suc(4) [of "Suc j"]) (use that q in \<open>auto simp: algebra_simps\<close>)
  qed
  have body: "decides N P (m pos (\<lambda>np. if np = pos \<and> ?done then r else takeMore m lazy mn rem (count + 1) np k))
      (\<exists>q \<in> e pos. if q = pos \<and> ?done then b else ?more q)"
    if "?done \<Longrightarrow> decides N P r b" for r b
    by (rule decMD [OF m Suc(2)], rule dec_if) (use that more in auto)
  show ?case
  proof (cases lazy)
    case True
    have "decides N P (takeMore m lazy mn (Suc rem) count pos k)
        ((if ?done then A pos else False) \<or> (\<exists>q \<in> e pos. if q = pos \<and> ?done then False else ?more q))"
      unfolding takeMore.simps if_P [OF True]
      by (intro dec_charged dec_orElse dec_if stop dec_ret body)
    then show ?thesis by (rule dec_eq) (auto simp: reaches_unfold)
  next
    case False
    have "decides N P (takeMore m lazy mn (Suc rem) count pos k)
        ((\<exists>q \<in> e pos. if q = pos \<and> ?done then A pos else ?more q) \<or> (if ?done then A pos else False))"
      unfolding takeMore.simps if_not_P [OF False]
      by (intro dec_charged dec_orElse dec_if dec_unless stop dec_ret body)
    then show ?thesis by (rule dec_eq) (auto simp: reaches_unfold)
  qed
qed

text \<open>More iterations than there are bytes left can be shortened, down to the minimum.\<close>

lemma iter_shorten:
  assumes e: "forward s e"
  shows "r \<in> iterEnds (Suc j) e pos \<Longrightarrow> pos \<le> length s \<Longrightarrow>
    Suc j \<le> length s - pos \<or> r \<in> iterEnds j e pos"
proof (induction j arbitrary: pos)
  case 0
  then show ?case using forwardD [OF e] by (cases "r = pos") fastforce+
next
  case (Suc j)
  then obtain q where q: "q \<in> e pos" "r \<in> iterEnds (Suc j) e q" by auto
  have qle: "pos \<le> q" "q \<le> length s" using forwardD [OF e q(1) Suc.prems(2)] by auto
  show ?case
  proof (cases "q = pos")
    case True
    then show ?thesis using q by simp
  next
    case False
    have "Suc j \<le> length s - q \<or> r \<in> iterEnds j e q" by (rule Suc.IH [OF q(2) qle(2)])
    then show ?thesis using q(1) qle False by auto
  qed
qed

lemma iter_bounded:
  assumes e: "forward s e" and pos: "pos \<le> length s"
  shows "r \<in> iterEnds j e pos \<Longrightarrow> mn \<le> int j \<Longrightarrow>
    \<exists>i \<le> nat (max (int (length s) - int pos + 1) mn). mn \<le> int i \<and> r \<in> iterEnds i e pos"
proof (induction j)
  case 0
  then show ?case by (intro exI [of _ 0]) simp
next
  case (Suc j)
  show ?case
  proof (cases "int (Suc j) \<le> max (int (length s) - int pos + 1) mn")
    case True
    then show ?thesis using Suc.prems by (intro exI [of _ "Suc j"]) auto
  next
    case False
    then have "r \<in> iterEnds j e pos" using iter_shorten [OF e Suc.prems(1) pos] pos by auto
    then show ?thesis using Suc.IH False by auto
  qed
qed

lemma repeat_reaches:
  assumes e: "forward s e" and pos: "pos \<le> length s"
  shows "reaches e mn A (nat (repeatMax s mn mx pos)) 0 pos \<longleftrightarrow>
    (\<exists>q \<in> {q. \<exists>j. mn \<le> int j \<and> (mx < 0 \<or> int j \<le> mx) \<and> q \<in> iterEnds j e pos}. A q)"
proof (cases "mx < 0")
  case True
  show ?thesis unfolding reaches_def repeatMax_def if_P [OF True]
    using True iter_bounded [OF e pos, of _ _ mn] by simp blast
next
  case False
  then have "j \<le> nat (repeatMax s mn mx pos) \<longleftrightarrow> int j \<le> mx" for j by (auto simp: repeatMax_def)
  then show ?thesis using False by (auto simp: reaches_def)
qed

lemma decM_repeat:
  assumes m: "decM s e m" and e: "forward s e" and ok: "mx < 0 \<or> mn \<le> mx"
  shows "decM s (\<lambda>pos. {q. \<exists>j. mn \<le> int j \<and> (mx < 0 \<or> int j \<le> mx) \<and> q \<in> iterEnds j e pos})
    (\<lambda>pos k. takeMore m lazy mn (nat (repeatMax s mn mx pos)) 0 pos k)"
proof (rule decMI)
  fix pos k A N P assume pos: "pos \<le> length s"
    and k: "\<And>q. q \<in> {q. \<exists>j. mn \<le> int j \<and> (mx < 0 \<or> int j \<le> mx) \<and> q \<in> iterEnds j e pos} \<Longrightarrow>
      decides N P (k q) (A q)"
  have "decides N P (takeMore m lazy mn (nat (repeatMax s mn mx pos)) 0 pos k)
      (reaches e mn A (nat (repeatMax s mn mx pos)) 0 pos)"
  proof (rule takeMore_decides [OF m e pos])
    show "mn \<le> 0 + int (nat (repeatMax s mn mx pos))" using ok by (auto simp: repeatMax_def)
    fix j q assume j: "mn \<le> 0 + int j" "j \<le> nat (repeatMax s mn mx pos)" "q \<in> iterEnds j e pos"
    then have "mx < 0 \<or> int j \<le> mx" by (auto simp: repeatMax_def split: if_splits)
    with j show "decides N P (k q) (A q)" by (intro k) auto
  qed
  then show "decides N P (takeMore m lazy mn (nat (repeatMax s mn mx pos)) 0 pos k)
      (\<exists>q \<in> {q. \<exists>j. mn \<le> int j \<and> (mx < 0 \<or> int j \<le> mx) \<and> q \<in> iterEnds j e pos}. A q)"
    by (simp only: repeat_reaches [OF e pos])
qed

section \<open>Looking around\<close>

lemma behind_decides:
  assumes m: "decM s e m" and pos: "pos \<le> length s"
  shows "decidesAny N (behindFrom s pos start m)
    (\<exists>a. (runeStep s)\<^sup>*\<^sup>* start a \<and> a \<le> pos \<and> pos \<in> e a)"
proof (induction "Suc pos - start" arbitrary: start rule: less_induct)
  case less
  let ?next = "start + max 1 (snd (runeAt s start))"
  let ?hit = "\<lambda>i. \<exists>a. (runeStep s)\<^sup>*\<^sup>* i a \<and> a \<le> pos \<and> pos \<in> e a"
  show ?case
  proof (cases "start > pos")
    case True
    then have "\<not> ?hit start" using runeStep_le [of s start] by fastforce
    then show ?thesis using True dec_ret(1) [of N False] by (subst behindFrom.simps) (simp del: not_ex)
  next
    case False
    have one: "decidesAny N (m start (\<lambda>fin. ret (fin = pos))) (\<exists>q \<in> e start. q = pos)"
      by (rule decMD [OF m]) (use False pos in \<open>auto intro: dec_ret\<close>)
    have rest: "decidesAny N (if start = pos then ret False else behindFrom s pos ?next m)
        (if start = pos then False else ?hit ?next)"
      by (rule dec_if) (use False in \<open>auto intro!: dec_ret less\<close>)
    have "decidesAny N (behindFrom s pos start m)
        ((\<exists>q \<in> e start. q = pos) \<or> (if start = pos then False else ?hit ?next))"
      unfolding behindFrom.simps [of s pos start] if_not_P [OF False]
      by (rule dec_orElse [OF one dec_unless [OF rest]])
    moreover have "?hit start \<longleftrightarrow> pos \<in> e start \<or> (start < length s \<and> ?hit ?next)"
      using False runeStep_unfold [of s start] by (metis not_le)
    moreover have "\<not> ?hit ?next" if "start = pos" using runeStep_le [of s ?next] that by fastforce
    ultimately show ?thesis using False pos by (auto elim!: dec_eq split: if_splits)
  qed
qed

lemma decM_look:
  assumes m: "decM s e m"
  shows "decM s (\<lambda>pos. if neg \<noteq> (if behind then \<exists>a \<in> runeStarts s. a \<le> pos \<and> pos \<in> e a else e pos \<noteq> {})
      then {pos} else {}) (lookAround s neg behind m)"
proof (rule decMI)
  fix pos k A N P
  let ?found = "if behind then \<exists>a \<in> runeStarts s. a \<le> pos \<and> pos \<in> e a else e pos \<noteq> {}"
  assume pos: "pos \<le> length s"
    and k: "\<And>q. q \<in> (if neg \<noteq> ?found then {pos} else {}) \<Longrightarrow> decides N P (k q) (A q)"
  have ahead: "decidesAny N (m pos (\<lambda>_. ret True)) (\<exists>q \<in> e pos. True)"
    by (rule decMD [OF m pos dec_ret(1)])
  have found: "decidesAny N (if behind then behindFrom s pos 0 m else m pos (\<lambda>_. ret True)) ?found"
    by (rule dec_if)
      (use behind_decides [OF m pos, of N 0] ahead in \<open>auto simp: runeStarts_def elim!: dec_eq\<close>)
  have "decides N P (lookAround s neg behind m pos k) (if ?found \<noteq> neg then A pos else False)"
    unfolding lookAround_def
    by (rule dec_bind [OF found], intro dec_unless dec_if dec_ret k) auto
  then show "decides N P (lookAround s neg behind m pos k)
      (\<exists>q \<in> (if neg \<noteq> ?found then {pos} else {}). A q)"
    by (rule dec_eq) auto
qed

section \<open>The matcher\<close>

lemma decM_entered: "decM s e m \<Longrightarrow> decM s e (\<lambda>pos k. guardR (enter None) (m pos k))"
  unfolding decM_def by (blast intro: dec_entered)

theorem exec_decides: "repOk n \<Longrightarrow> noBack n \<Longrightarrow> decM s (ends u p s n) (exec u p None s n)"
proof (induction n)
  case JEmpty
  then show ?case by (simp add: decM_def dec_entered)
next
  case (JConcat ts)
  show ?case unfolding exec.simps ends.simps
    by (rule decM_entered, rule decM_walk) (use JConcat in \<open>auto simp: list_all_iff forward_ends\<close>)
next
  case (JAlt ts)
  show ?case unfolding exec.simps ends.simps
    by (rule decM_entered, rule decM_try) (use JAlt in \<open>auto simp: list_all_iff\<close>)
next
  case (JRepeat t mn mx lazy)
  show ?case unfolding exec.simps ends.simps
    by (rule decM_entered, rule decM_repeat) (use JRepeat forward_ends in auto)
next
  case (JCap i name t)
  then show ?case by (simp add: decM_entered [OF decM_capture])
next
  case (JLook t neg behind)
  then show ?case unfolding exec.simps ends.simps by (intro decM_entered decM_look) simp
next
  case (JAnchor a)
  then show ?case by (auto simp: decM_def intro!: dec_entered dec_ret)
qed (auto intro: decM_entered [OF decM_rune])

section \<open>The search\<close>

definition leftmostFrom :: "utab \<Rightarrow> jprog \<Rightarrow> gostring \<Rightarrow> nat \<Rightarrow> int list option \<Rightarrow> bool" where
  "leftmostFrom u p s i r = (case r of
     None \<Rightarrow> \<forall>x. (runeStep s)\<^sup>*\<^sup>* i x \<longrightarrow> ends u p s (root p) x = {}
   | Some cs \<Rightarrow> \<exists>x y. cs ! 0 = int x \<and> cs ! 1 = int y \<and> (runeStep s)\<^sup>*\<^sup>* i x \<and> y \<in> ends u p s (root p) x
       \<and> (\<forall>x' < x. (runeStep s)\<^sup>*\<^sup>* i x' \<longrightarrow> ends u p s (root p) x' = {}))"

text \<open>The verdict is about the rune starts of the subject, from its first byte on.\<close>

definition leftmost :: "utab \<Rightarrow> jprog \<Rightarrow> gostring \<Rightarrow> int list option \<Rightarrow> bool" where
  "leftmost u p s r = (case r of
     None \<Rightarrow> \<forall>x \<in> runeStarts s. ends u p s (root p) x = {}
   | Some cs \<Rightarrow> \<exists>x y. cs ! 0 = int x \<and> cs ! 1 = int y \<and> x \<in> runeStarts s \<and> y \<in> ends u p s (root p) x
       \<and> (\<forall>x' \<in> runeStarts s. x' < x \<longrightarrow> ends u p s (root p) x' = {}))"

lemma leftmost_0: "leftmostFrom u p s 0 r \<longleftrightarrow> leftmost u p s r"
  by (auto simp: leftmostFrom_def leftmost_def runeStarts_def split: option.split)

lemma leftmost_step:
  assumes none: "ends u p s (root p) i = {}"
    and rest: "i < length s \<Longrightarrow> leftmostFrom u p s (i + max 1 (snd (runeAt s i))) r" and "i \<ge> length s \<Longrightarrow> r = None"
  shows "leftmostFrom u p s i r"
proof (cases r)
  case None
  then show ?thesis using assms unfolding leftmostFrom_def by (auto simp: runeStep_unfold [of s i])
next
  case (Some cs)
  then have i: "i < length s" using assms(3) by (cases "i < length s") auto
  obtain x y where "cs ! 0 = int x" "cs ! 1 = int y" "(runeStep s)\<^sup>*\<^sup>* (i + max 1 (snd (runeAt s i))) x"
    "y \<in> ends u p s (root p) x"
    "\<forall>x' < x. (runeStep s)\<^sup>*\<^sup>* (i + max 1 (snd (runeAt s i))) x' \<longrightarrow> ends u p s (root p) x' = {}"
    using rest [OF i] by (auto simp: leftmostFrom_def Some)
  then show ?thesis
    unfolding leftmostFrom_def Some option.case
    by (intro exI [of _ x] exI [of _ y] conjI) (use none i runeStep_unfold [of s i] in auto)
qed

lemma first_exec:
  assumes ok: "repOk (root p)" "noBack (root p)" and i: "i \<le> length s"
  shows "decides ((pncap p + 1) * 2)
    (\<lambda>st. caps st ! 0 = int i \<and> (\<exists>y \<in> ends u p s (root p) i. caps st ! 1 = int y))
    (exec u p None s (root p) i (\<lambda>fin. setCap 0 (int i) (int fin))) (ends u p s (root p) i \<noteq> {})"
proof (rule dec_eq)
  show "decides ((pncap p + 1) * 2)
    (\<lambda>st. caps st ! 0 = int i \<and> (\<exists>y \<in> ends u p s (root p) i. caps st ! 1 = int y))
    (exec u p None s (root p) i (\<lambda>fin. setCap 0 (int i) (int fin))) (\<exists>q \<in> ends u p s (root p) i. True)"
    by (rule decMD [OF exec_decides [OF ok] i])
      (auto simp: decides_def setCap_def capsFit_def free_def unlimited_def)
qed auto

lemma clearCaps_gas: "clearCaps n (st\<lparr>gas := g\<rparr>) = (clearCaps n st)\<lparr>gas := g\<rparr>"
  by (cases st) (simp add: clearCaps_def)

lemma search_unlimited:
  assumes ok: "repOk (root p)" "noBack (root p)"
  shows "i \<le> length s \<Longrightarrow> unlimited st \<Longrightarrow>
    (\<exists>r st' c. searchFrom u p None s i st = ((r, True), st') \<and> leftmostFrom u p s i r \<and> 0 \<le> c \<and>
       (\<forall>g > c. searchFrom u p None s i (st\<lparr>gas := Some g\<rparr>) = ((r, True), st'\<lparr>gas := Some (g - c)\<rparr>)))"
proof (induction "Suc (length s) - i" arbitrary: i st rule: less_induct)
  case less
  let ?m = "exec u p None s (root p) i (\<lambda>fin. setCap 0 (int i) (int fin))"
  let ?st = "clearCaps (pncap p) st"
  let ?j = "i + max 1 (snd (runeAt s i))"
  obtain b st1 where run: "?m ?st = (b, st1)" by fastforce
  have free: "free ((pncap p + 1) * 2) ?st" using less(3) by (simp add: free_def unlimited_def clearCaps_def)
  note dec = first_exec [OF ok less(2), of u, unfolded decides_def, rule_format, OF free, unfolded run fst_conv snd_conv]
  have ul: "unlimited ?st" "unlimited st1" using free dec by (auto simp: free_def)
  obtain c where c: "costs ?m ?st c"
    using cost.exec_whole [OF less(2), of u p "root p"] ul(1) unfolding costed_def by blast
  have costs: "0 \<le> c" "?m (clearCaps (pncap p) (st\<lparr>gas := Some g\<rparr>)) = (b, st1\<lparr>gas := Some (g - c)\<rparr>)" if "g > c" for g
    using c that unfolding costs_def run by (auto simp: clearCaps_gas)
  have c0: "0 \<le> c" using c by (simp add: costs_def)
  note unfolded = searchFrom.simps [of u p None s i st, unfolded run prod.case]
  have unfolded': "searchFrom u p None s i (st\<lparr>gas := Some g\<rparr>) =
      (if b then ((Some (caps st1), True), st1\<lparr>gas := Some (g - c)\<rparr>)
       else if i \<ge> length s then ((None, True), st1\<lparr>gas := Some (g - c)\<rparr>)
       else searchFrom u p None s ?j (st1\<lparr>gas := Some (g - c)\<rparr>))" if "g > c" for g
    using costs(2) [OF that] ul(2) by (subst searchFrom.simps) (simp add: unlimited_def)
  consider (hit) b | (out) "\<not> b" "i \<ge> length s" | (next_start) "\<not> b" "i < length s" by linarith
  then show ?case
  proof cases
    case hit
    have "leftmostFrom u p s i (Some (caps st1))"
      using dec hit runeStep_le [of s i] unfolding leftmostFrom_def by fastforce
    then show ?thesis
      using hit c0 by (intro exI [of _ "Some (caps st1)"] exI [of _ st1] exI [of _ c]) (simp add: unfolded unfolded')
  next
    case out
    have "leftmostFrom u p s i None" by (rule leftmost_step) (use dec out in auto)
    then show ?thesis
      using out c0 ul(2)
      by (intro exI [of _ None] exI [of _ st1] exI [of _ c]) (simp add: unfolded unfolded' unlimited_def)
  next
    case next_start
    have j: "?j \<le> length s" "i < ?j" using runeAt_width [of i s] next_start by auto
    obtain r st' d where d: "searchFrom u p None s ?j st1 = ((r, True), st')" "leftmostFrom u p s ?j r" "0 \<le> d"
      "\<forall>g > d. searchFrom u p None s ?j (st1\<lparr>gas := Some g\<rparr>) = ((r, True), st'\<lparr>gas := Some (g - d)\<rparr>)"
    proof -
      have "Suc (length s) - ?j < Suc (length s) - i" using j by simp
      from less(1) [OF this j(1) ul(2)] show thesis using that by blast
    qed
    have "leftmostFrom u p s i r" by (rule leftmost_step) (use dec next_start d in auto)
    moreover have "searchFrom u p None s i (st\<lparr>gas := Some g\<rparr>) = ((r, True), st'\<lparr>gas := Some (g - (c + d))\<rparr>)"
      if "g > c + d" for g
      using that d(3,4) c0 next_start by (simp add: unfolded' algebra_simps)
    ultimately show ?thesis
      using next_start c0 d(1,3) ul(2)
      by (intro exI [of _ r] exI [of _ st'] exI [of _ "c + d"]) (simp add: unfolded unlimited_def)
  qed
qed

text \<open>
  C21. The search is the leftmost match.  For a compiled pattern without back references and a
  subject within the size limit there is an amount of gas above which the search always
  finishes, and its verdict is exact: no match only if the pattern, read as a relation on
  positions, has no end from any rune start; a match otherwise, whose first two slots are the
  least rune start with an end and one of its ends.
\<close>

theorem search_leftmost:
  assumes "compileJSRE pattern flags = Inr p" "noBack (root p)" "length s \<le> jsreMaxInputLen"
  shows "\<exists>G. \<forall>g \<ge> G. \<exists>r. fst (findSubmatchIndex u p False None s (Some g)) = (r, True) \<and> leftmost u p s r"
proof -
  let ?st = "\<lparr>caps = [], gas = None, aborted = False, steps = 0\<rparr> :: rst"
  have "unlimited ?st" by (simp add: unlimited_def)
  with search_unlimited [OF compile_repOk [OF assms(1)] assms(2) le0 this, of u]
  obtain r st' c where r: "leftmostFrom u p s 0 r"
    "\<forall>g > c. searchFrom u p None s 0 (?st\<lparr>gas := Some g\<rparr>) = ((r, True), st'\<lparr>gas := Some (g - c)\<rparr>)" by blast
  have "fst (findSubmatchIndex u p False None s (Some g)) = (r, True)" if "g \<ge> c + 1" for g
    using r(2) [rule_format, of g] that assms(3) by (simp add: findSubmatchIndex_def Let_def)
  then show ?thesis using r(1) leftmost_0 by blast
qed

text \<open>
  C24. Gas bounds the work.  Whatever the pattern and the subject, a search visits at most one
  node more than it has units of gas, so a pattern that backtracks without end stops.
\<close>

theorem search_work_bounded:
  "int (steps (snd (searchFrom u p irq s 0 \<lparr>caps = [], gas = Some g, aborted = False, steps = 0\<rparr>))) \<le> max 0 g + 1"
  using search_paid [OF le0 _ refl, of "\<lparr>caps = [], gas = Some g, aborted = False, steps = 0\<rparr>" u p irq s]
  by (auto simp: wallet_def of_bool_def split: option.splits if_splits)

lemma capsOk_unset: "capsOk s (replicate n (- 1))"
  by (simp add: capsOk_def capsFit_def pairOk_def)

lemma clear_caps: "caps (clearCaps n st) = replicate ((n + 1) * 2) (- 1)"
  by (simp add: clearCaps_def)

lemma searchFrom_caps:
  "i \<le> length s \<Longrightarrow> searchFrom u p irq s i st = ((Some cs, ok), st') \<Longrightarrow>
   capsOk s cs \<and> length cs = (pncap p + 1) * 2"
proof (induction u p irq s i st rule: searchFrom.induct)
  case (1 u p irq s i st)
  obtain b st1 where run: "exec u p irq s (root p) i (\<lambda>fin. setCap 0 (int i) (int fin)) (clearCaps (pncap p) st) = (b, st1)"
    by fastforce
  have "capsOk s (caps (clearCaps (pncap p) st))" "length (caps (clearCaps (pncap p) st)) = (pncap p + 1) * 2"
    by (simp_all only: clear_caps capsOk_unset length_replicate)
  then have st1: "capsOk s (caps st1)" "length (caps st1) = (pncap p + 1) * 2"
    using slots.exec_whole [OF 1(2), of u p irq "root p"] run by (fastforce simp: keepsCaps_def)+
  note result = 1(3) [unfolded searchFrom.simps [of u p irq s i st] run prod.case]
  show ?case
  proof (cases "b \<or> aborted st1 \<or> i \<ge> length s")
    case True
    then show ?thesis using result st1 by (auto split: if_splits)
  next
    case False
    then have "i + max 1 (snd (runeAt s i)) \<le> length s" using runeAt_width [of i s] by auto
    then show ?thesis using 1(1) [OF run [symmetric]] result False by auto
  qed
qed

text \<open>
  C23. A match is safe to slice.  The slots of a result are two per group, the whole match
  included, and each pair is either unset or a range inside the subject: the engine slices the
  subject with them without a bounds check of its own.
\<close>

theorem captures_in_range:
  assumes "fst (findSubmatchIndex u p now irq s g) = (Some cs, ok)" "i \<le> pncap p"
  shows "i * 2 + 1 < length cs \<and>
    ((cs ! (i * 2) = - 1 \<and> cs ! (i * 2 + 1) = - 1) \<or>
     (0 \<le> cs ! (i * 2) \<and> cs ! (i * 2) \<le> cs ! (i * 2 + 1) \<and> cs ! (i * 2 + 1) \<le> int (length s)))"
proof -
  let ?st = "\<lparr>caps = [], gas = Some (case g of None \<Rightarrow> defaultGas | Some x \<Rightarrow> x), aborted = False, steps = 0\<rparr> :: rst"
  obtain st' where "searchFrom u p irq s 0 ?st = ((Some cs, ok), st')"
    using assms(1) by (cases "searchFrom u p irq s 0 ?st") (auto simp: findSubmatchIndex_def Let_def split: if_splits prod.splits)
  then have "capsOk s cs" "length cs = (pncap p + 1) * 2" using searchFrom_caps [OF le0] by blast+
  then show ?thesis using assms(2) by (simp add: capsOk_def capsFit_def pairOk_def)
qed

section \<open>A concrete pattern\<close>

text \<open>
  Rules that evaluate the parser and the matcher on a closed argument: fuel as a numeral, and
  no look at a continuation before its argument is known.
\<close>

lemma andThen_weak: "m = m' \<Longrightarrow> andThen m f = andThen m' f" by simp

lemmas parser_numeral =
  disjunction.simps(2) [of "pred_numeral k" for k, folded numeral_eq_Suc]
  altLoop.simps(2) [of "pred_numeral k" for k, folded numeral_eq_Suc]
  alternative.simps(2) [of "pred_numeral k" for k, folded numeral_eq_Suc]
  jterm.simps(2) [of "pred_numeral k" for k, folded numeral_eq_Suc]
  atom.simps(2) [of "pred_numeral k" for k, folded numeral_eq_Suc]
  parseGroup.simps(2) [of "pred_numeral k" for k, folded numeral_eq_Suc]

lemmas parser_defs = compileJSRE_def compileFuel_def parser_numeral bt_def jpeek_def closeGroup_def
  newCapture_def skip_def quantifier_def jrest_def Let_def

lemmas run_defs = findSubmatchIndex_def searchFrom.simps jsreMaxInputLen_def ret_def bindR_def guardR_def orElse_def
  unlessAborted_def withCaps_def charge_def enter_def capsFit_def setCap_def runeAt_def eqRune_def runeMatches_def
  stepRune_def capture_def clearCaps_def jsreGasNode_def jsreGasBacktrack_def repeatMax_def Let_def

lemma takeMore_numeral:
  "takeMore m lazy mn (numeral k) count pos kont = takeMore m lazy mn (Suc (pred_numeral k)) count pos kont"
  by (simp only: numeral_eq_Suc)

lemma replicate_numeral: "replicate (numeral k) x = x # replicate (pred_numeral k) x"
  by (simp add: numeral_eq_Suc)

text \<open>\<open>(a)*\<close>\<close>

definition starA :: jprog where
  "starA = \<lparr>root = JRepeat (JCap 1 [] (JLit 0x61)) 0 (- 1) False, pncap = 1, icase = False,
     multiline = False, dotAll = False, pnames = [[], []]\<rparr>"

lemma compile_starA: "compileJSRE (map bt ''(a)*'') [] = Inr starA"
  by (simp add: parser_defs starA_def cong: andThen_weak)

lemma run_starA: "fst (findSubmatchIndex asciiTab starA False None [0x61] (Some 1000)) = (Some [0, 1, 0, 1], True)"
  by (simp add: run_defs starA_def takeMore_numeral replicate_numeral)

theorem search_leftmost_witness:
  "\<exists>G. \<forall>g \<ge> G. \<exists>r. fst (findSubmatchIndex asciiTab starA False None [0x61] (Some g)) = (r, True) \<and>
     leftmost asciiTab starA [0x61] r"
  by (rule search_leftmost [OF compile_starA]) (simp_all add: starA_def jsreMaxInputLen_def)

theorem captures_in_range_witness:
  "[0, 1, 0, 1 :: int] ! 2 \<le> [0, 1, 0, 1] ! 3"
  using captures_in_range [OF run_starA, of 1] by (simp add: starA_def)

section \<open>Character classes\<close>

lemma latinRange_has: "hasExact (latinRange a b c) r \<longleftrightarrow> hasExact c r \<or> (r < 256 \<and> a \<le> r \<and> r \<le> b)"
  by (simp add: hasExact_def latinRange_def)

lemma addRange_has: "hasExact (addRange a b c) r \<longleftrightarrow> hasExact c r \<or> (min a b \<le> r \<and> r \<le> max a b)"
  by (auto simp: addRange_def Let_def latinRange_has hasExact_def latinRange_def min_def max_def)

lemma mergeClass_has: "hasExact (mergeClass o' c) r \<longleftrightarrow> hasExact c r \<or> hasExact o' r"
  by (auto simp: hasExact_def mergeClass_def)

lemma emptyClass_has [simp]: "\<not> hasExact emptyClass r"
  by (simp add: hasExact_def emptyClass_def)

text \<open>
  C25. The split of a class into a table for Latin-1 and a list of ranges is exact: a class to
  which ranges were added, in any order and with their ends in either order, has exactly the
  runes of the ranges, whether they lie below 256, above, or across.
\<close>

theorem class_has_ranges:
  "hasExact (fold (\<lambda>(a, b). addRange a b) rs emptyClass) r \<longleftrightarrow> (\<exists>(a, b) \<in> set rs. min a b \<le> r \<and> r \<le> max a b)"
proof -
  have "hasExact (fold (\<lambda>(a, b). addRange a b) rs c) r \<longleftrightarrow>
      hasExact c r \<or> (\<exists>(a, b) \<in> set rs. min a b \<le> r \<and> r \<le> max a b)" for c
    by (induction rs arbitrary: c) (auto simp: addRange_has split: prod.splits)
  then show ?thesis by simp
qed

text \<open>The escapes \<open>\D\<close>, \<open>\W\<close> and \<open>\S\<close> alone are the complements of \<open>\d\<close>, \<open>\w\<close> and \<open>\s\<close>.\<close>

lemma negated_escape_alone:
  assumes "e \<in> {0x44, 0x57, 0x53}"
  shows "classHas u (unicodeClass e) r False \<longleftrightarrow> \<not> hasExact (unicodeClass e) r"
proof -
  have "clsNeg (unicodeClass e)" using assms by (auto simp: unicodeClass_def bt_def)
  then show ?thesis by (simp add: classHas_def)
qed

text \<open>
  C26. A negated escape inside a class loses its negation.  Wherever the loop that reads a class
  meets \<open>\D\<close>, \<open>\W\<close> or \<open>\S\<close>, whatever it has read before, it goes on with a class that has in
  addition (to the rune that was pending) exactly the runes which the escape, outside a class, does
  not accept.
\<close>

theorem negated_escape_in_class:
  assumes "e \<in> {0x44, 0x57, 0x53}" "ppos p + 1 < length (pat p)" "pat p ! ppos p = 0x5C" "pat p ! (ppos p + 1) = e"
  shows "\<exists>c. classLoop first (cls, pendingDash, lst, hasLast) p = classLoop False (c, False, lst, False) (skip 2 p)
    \<and> clsNeg c = clsNeg cls
    \<and> (\<forall>u r. hasExact c r \<longleftrightarrow> hasExact cls r \<or> (hasLast \<and> r = lst) \<or> \<not> classHas u (unicodeClass e) r False)"
proof -
  let ?c = "mergeClass (unicodeClass e) (if hasLast then addRune lst cls else cls)"
  have "parseEscape True p = Inr (JCls (unicodeClass e), False, skip 2 p)"
    using assms by (auto simp: parseEscape_def skip_def bt_def)
  then have "classLoop first (cls, pendingDash, lst, hasLast) p = classLoop False (?c, False, lst, False) (skip 2 p)"
    using assms by (subst classLoop.simps) (auto simp: bt_def classEscape_def)
  moreover have "clsNeg ?c = clsNeg cls" by (simp add: mergeClass_def addRune_def addRange_def latinRange_def Let_def)
  moreover have "hasExact ?c r \<longleftrightarrow> hasExact cls r \<or> (hasLast \<and> r = lst) \<or> \<not> classHas u (unicodeClass e) r False" for u r
    unfolding negated_escape_alone [OF assms(1)] mergeClass_has by (auto simp: addRune_def addRange_has)
  ultimately show ?thesis by blast
qed

theorem negated_escape_in_class_witness:
  "\<exists>c. classLoop False (emptyClass, False, 0x61, True)
        \<lparr>pat = [0x5B, 0x61, 0x5C, 0x44, 0x5D], ppos = 2, ncap = 0, names = [[]], nameIdx = (\<lambda>_. None)\<rparr>
      = classLoop False (c, False, 0x61, False)
        (skip 2 \<lparr>pat = [0x5B, 0x61, 0x5C, 0x44, 0x5D], ppos = 2, ncap = 0, names = [[]], nameIdx = (\<lambda>_. None)\<rparr>)
    \<and> (\<forall>r. hasExact c r \<longleftrightarrow> r = 0x61 \<or> 0x30 \<le> r \<and> r \<le> 0x39)"
proof -
  let ?p = "\<lparr>pat = [0x5B, 0x61, 0x5C, 0x44, 0x5D], ppos = 2, ncap = 0, names = [[]], nameIdx = (\<lambda>_. None)\<rparr> :: jparser"
  have alone: "\<not> classHas u (unicodeClass 0x44) r False \<longleftrightarrow> 0x30 \<le> r \<and> r \<le> 0x39" for u r
  proof -
    have "unicodeClass 0x44 = (addRange 0x30 0x39 emptyClass)\<lparr>clsNeg := True\<rparr>" by (simp add: unicodeClass_def bt_def)
    moreover have "hasExact (c\<lparr>clsNeg := True\<rparr>) r = hasExact c r" for c :: charClass by (simp add: hasExact_def)
    ultimately show ?thesis using negated_escape_alone [where e = "0x44" and u = u and r = r] by (simp add: addRange_has)
  qed
  obtain c where c: "classLoop False (emptyClass, False, 0x61, True) ?p = classLoop False (c, False, 0x61, False) (skip 2 ?p)"
    "hasExact c r \<longleftrightarrow> hasExact emptyClass r \<or> (True \<and> r = 0x61) \<or> \<not> classHas u (unicodeClass 0x44) r False" for u r
    using negated_escape_in_class [where e = "0x44" and p = ?p and first = False and cls = emptyClass and pendingDash = False
        and lst = "0x61" and hasLast = True] by auto
  show ?thesis by (intro exI [of _ c] conjI c(1)) (simp add: c(2) [where u = undefined] alone)
qed

end
