(* ===== verification/Ast.thy ===== *)
theory Ast
  imports Lexer
begin

text \<open>
  The syntax tree of \<open>ast.go\<close>.

  \<open>ast.Node\<close> is one interface that every node type implements, and so it is one datatype here,
  with a constructor per node type whose first argument is the position in \<open>Base\<close>; \<open>NilNode\<close>
  is a nil interface or pointer.  The parser keeps a map of the expressions that were written in
  parentheses, keyed by the node; here the node itself is wrapped in \<open>Parens\<close>, and a type switch
  looks through the wrapper (\<open>bare\<close>).
\<close>

section \<open>Nodes\<close>

datatype (plugins only: code size) node =
    NilNode
  | Parens node
  | Ident position gostring
  | PrivateName position gostring
  | NumberLit position gostring
  | BigIntLit position gostring
  | StringLit position gostring
  | BoolLit position bool
  | NullLit position
  | RegExpLit position gostring
  | TemplateLit position "gostring list" "node list"
  | TaggedTemplate position node node
  | ThisExpr position
  | SuperExpr position
  | MetaProperty position gostring gostring
  | ArrayLit position "node list" bool
  | Property position node node bool bool string bool
  | ObjectLit position "node list" bool
  | FunctionExpr position node "node list" node bool bool
  | ArrowFunction position "node list" node bool
  | ClassExpr position node node "node list"
  | ClassMember position node node string bool bool
  | UnaryExpr position gostring node
  | UpdateExpr position gostring bool node
  | BinaryExpr position gostring node node
  | LogicalExpr position gostring node node
  | AssignExpr position gostring node node
  | ConditionalExpr position node node node
  | CallExpr position node "node list" bool
  | NewExpr position node "node list"
  | MemberExpr position node node bool bool
  | ChainExpr position node
  | SequenceExpr position "node list"
  | SpreadElement position node
  | YieldExpr position node bool
  | AwaitExpr position node
  | ArrayPattern position "node list"
  | ObjectPattern position "node list"
  | AssignPattern position node node
  | RestElement position node
  | BlockStmt position "node list"
  | ExpressionStmt position node
  | EmptyStmt position
  | DebuggerStmt position
  | VarDeclarator position node node
  | VarDecl position gostring "node list"
  | FunctionDecl position node
  | ClassDecl position node
  | ReturnStmt position node
  | IfStmt position node node node
  | ForStmt position node node node node
  | ForInStmt position node node node bool bool
  | WhileStmt position node node
  | DoWhileStmt position node node
  | BreakStmt position node
  | ContinueStmt position node
  | LabeledStmt position node node
  | ThrowStmt position node
  | CatchClause position node node
  | TryStmt position node node node
  | SwitchCase position node "node list"
  | SwitchStmt position node "node list"
  | WithStmt position node node
  | ImportSpecifier position node node string
  | ImportDecl position "node list" node
  | ExportSpecifier position node node
  | ExportDecl position node "node list" node bool bool node
  | Program position "node list" bool

text \<open>Expressions and statements are the nodes the source marks as such.\<close>

type_synonym expr = node
type_synonym stmt = node

definition bare :: "node \<Rightarrow> node" where
  "bare e = (case e of Parens x \<Rightarrow> x | _ \<Rightarrow> e)"

definition marked :: "node \<Rightarrow> bool" where
  "marked e \<longleftrightarrow> (case e of Parens x \<Rightarrow> True | _ \<Rightarrow> False)"

definition mark :: "node \<Rightarrow> node" where
  "mark e = Parens (bare e)"

text \<open>Nothing asks a nil node for its position.\<close>

definition noPos :: position where
  "noPos = \<lparr>posOffset = 0, posLine = 0, posCol = 0\<rparr>"

primrec nodePos :: "node \<Rightarrow> position" where
  "nodePos NilNode = noPos"
| "nodePos (Parens e) = nodePos e"
| "nodePos (Ident p _) = p"
| "nodePos (PrivateName p _) = p"
| "nodePos (NumberLit p _) = p"
| "nodePos (BigIntLit p _) = p"
| "nodePos (StringLit p _) = p"
| "nodePos (BoolLit p _) = p"
| "nodePos (NullLit p) = p"
| "nodePos (RegExpLit p _) = p"
| "nodePos (TemplateLit p _ _) = p"
| "nodePos (TaggedTemplate p _ _) = p"
| "nodePos (ThisExpr p) = p"
| "nodePos (SuperExpr p) = p"
| "nodePos (MetaProperty p _ _) = p"
| "nodePos (ArrayLit p _ _) = p"
| "nodePos (Property p _ _ _ _ _ _) = p"
| "nodePos (ObjectLit p _ _) = p"
| "nodePos (FunctionExpr p _ _ _ _ _) = p"
| "nodePos (ArrowFunction p _ _ _) = p"
| "nodePos (ClassExpr p _ _ _) = p"
| "nodePos (ClassMember p _ _ _ _ _) = p"
| "nodePos (UnaryExpr p _ _) = p"
| "nodePos (UpdateExpr p _ _ _) = p"
| "nodePos (BinaryExpr p _ _ _) = p"
| "nodePos (LogicalExpr p _ _ _) = p"
| "nodePos (AssignExpr p _ _ _) = p"
| "nodePos (ConditionalExpr p _ _ _) = p"
| "nodePos (CallExpr p _ _ _) = p"
| "nodePos (NewExpr p _ _) = p"
| "nodePos (MemberExpr p _ _ _ _) = p"
| "nodePos (ChainExpr p _) = p"
| "nodePos (SequenceExpr p _) = p"
| "nodePos (SpreadElement p _) = p"
| "nodePos (YieldExpr p _ _) = p"
| "nodePos (AwaitExpr p _) = p"
| "nodePos (ArrayPattern p _) = p"
| "nodePos (ObjectPattern p _) = p"
| "nodePos (AssignPattern p _ _) = p"
| "nodePos (RestElement p _) = p"
| "nodePos (BlockStmt p _) = p"
| "nodePos (ExpressionStmt p _) = p"
| "nodePos (EmptyStmt p) = p"
| "nodePos (DebuggerStmt p) = p"
| "nodePos (VarDeclarator p _ _) = p"
| "nodePos (VarDecl p _ _) = p"
| "nodePos (FunctionDecl p _) = p"
| "nodePos (ClassDecl p _) = p"
| "nodePos (ReturnStmt p _) = p"
| "nodePos (IfStmt p _ _ _) = p"
| "nodePos (ForStmt p _ _ _ _) = p"
| "nodePos (ForInStmt p _ _ _ _ _) = p"
| "nodePos (WhileStmt p _ _) = p"
| "nodePos (DoWhileStmt p _ _) = p"
| "nodePos (BreakStmt p _) = p"
| "nodePos (ContinueStmt p _) = p"
| "nodePos (LabeledStmt p _ _) = p"
| "nodePos (ThrowStmt p _) = p"
| "nodePos (CatchClause p _ _) = p"
| "nodePos (TryStmt p _ _ _) = p"
| "nodePos (SwitchCase p _ _) = p"
| "nodePos (SwitchStmt p _ _) = p"
| "nodePos (WithStmt p _ _) = p"
| "nodePos (ImportSpecifier p _ _ _) = p"
| "nodePos (ImportDecl p _ _) = p"
| "nodePos (ExportSpecifier p _ _) = p"
| "nodePos (ExportDecl p _ _ _ _ _ _) = p"
| "nodePos (Program p _ _) = p"

end
