(* ===== verification/AstOps.thy ===== *)
theory AstOps
  imports Ast
begin

text \<open>
  The functions of the parser that work on trees alone: names without escapes (\<open>identName\<close>), the
  cover grammar (\<open>toPattern\<close>, \<open>pattern.go\<close>), bound names and the names that \<open>var\<close> declares.
  Whether a target was in parentheses is never asked, so \<open>toPattern\<close> drops the mark.
\<close>

section \<open>Names\<close>

text \<open>\<open>identName\<close> resolves the escapes of a name; the accumulator has the width of an \<open>int\<close>.\<close>

definition hexAcc :: "int \<Rightarrow> rune \<Rightarrow> int" where
  "hexAcc cp h =
     (if rn CHR ''0'' \<le> h \<and> h \<le> rn CHR ''9'' then i64 (cp * 16 + (h - rn CHR ''0''))
      else if rn CHR ''a'' \<le> h \<and> h \<le> rn CHR ''f'' then i64 (cp * 16 + (h - rn CHR ''a'') + 10)
      else if rn CHR ''A'' \<le> h \<and> h \<le> rn CHR ''F'' then i64 (cp * 16 + (h - rn CHR ''A'') + 10)
      else cp)"

definition writeRune :: "int \<Rightarrow> gostring" where
  "writeRune cp = encodeRune8 (signed_take_bit 31 cp)"

function unescapeName :: "gostring \<Rightarrow> gostring" where
  "unescapeName v =
     (case v of
        [] \<Rightarrow> []
      | c # rest \<Rightarrow>
          if c \<noteq> bt CHR 0x5C \<or> rest = [] \<or> hd rest \<noteq> bt CHR ''u'' then c # unescapeName rest
          else
            let digits = tl rest
            in if digits \<noteq> [] \<and> hd digits = bt CHR ''{'' then
                 let inner = takeWhile (\<lambda>h. h \<noteq> bt CHR ''}'') (tl digits)
                 in writeRune (fold (\<lambda>h cp. hexAcc cp (uint h)) inner 0)
                    @ unescapeName (drop (length inner + 2) digits)
               else if length digits \<ge> 4 then
                 writeRune (fold (\<lambda>h cp. hexAcc cp h) (runesOf (take 4 digits)) 0) @ unescapeName (drop 4 digits)
               else c # unescapeName rest)"
  by pat_completeness auto
termination by (relation "measure length") auto

declare unescapeName.simps [simp del]

definition identName :: "gostring \<Rightarrow> gostring" where
  "identName v = (if bt CHR 0x5C \<notin> set v then v else unescapeName v)"

section \<open>Targets and patterns\<close>

definition isSimpleTarget :: "expr \<Rightarrow> bool" where
  "isSimpleTarget e = (case bare e of Ident _ _ \<Rightarrow> True | MemberExpr _ _ _ _ _ \<Rightarrow> True | _ \<Rightarrow> False)"

text \<open>A failure of \<open>toPattern\<close> carries its message and the position it is reported at.\<close>

datatype patErr = StrictTarget | GeneratorTarget | RestTrailingCommaErr | RestNotLast | RestWithInitialiser
  | MethodInPattern | CompoundDefault | BadTarget

type_synonym 'a orPatErr = "(patErr \<times> position) + 'a"

fun bindE :: "'e + 'a \<Rightarrow> ('a \<Rightarrow> 'e + 'b) \<Rightarrow> 'e + 'b" where
  "bindE (Inl e) f = Inl e"
| "bindE (Inr x) f = f x"

lemma bindE_cong [fundef_cong]:
  "x = y \<Longrightarrow> (\<And>a. y = Inr a \<Longrightarrow> f a = g a) \<Longrightarrow> bindE x f = bindE y g"
  by (cases y) simp_all

text \<open>The loops over elements: \<open>step\<close> is applied to each with whether it is the last.\<close>

fun eachElement :: "(bool \<Rightarrow> node \<Rightarrow> 'e + node) \<Rightarrow> node list \<Rightarrow> 'e + node list" where
  "eachElement step [] = Inr []"
| "eachElement step (x # xs) =
     bindE (step (xs = []) x) (\<lambda>y. bindE (eachElement step xs) (\<lambda>ys. Inr (y # ys)))"

lemma eachElement_cong [fundef_cong]:
  assumes "xs = ys" "\<And>b x. x \<in> set ys \<Longrightarrow> f b x = g b x"
  shows "eachElement f xs = eachElement g ys"
proof -
  have "(\<And>b x. x \<in> set ys \<Longrightarrow> f b x = g b x) \<Longrightarrow> eachElement f ys = eachElement g ys"
    by (induction ys) (auto intro!: bindE_cong)
  then show ?thesis using assms by simp
qed

definition isAssignPattern :: "node \<Rightarrow> bool" where
  "isAssignPattern e = (case e of AssignPattern _ _ _ \<Rightarrow> True | _ \<Rightarrow> False)"

lemma elem_smaller: "x \<in> set xs \<Longrightarrow> size x < Suc (size_list size xs)"
  by (metis le_imp_less_Suc order.refl size_list_estimation')

function toPattern :: "bool \<Rightarrow> bool \<Rightarrow> expr \<Rightarrow> expr orPatErr" where
  "toPattern strict gen e =
     (case e of
        Parens x \<Rightarrow> toPattern strict gen x
      | Ident p name \<Rightarrow>
          if strict \<and> name \<in> {ascii ''arguments'', ascii ''eval'', ascii ''yield''} then Inl (StrictTarget, p)
          else if gen \<and> name = ascii ''yield'' then Inl (GeneratorTarget, p)
          else Inr e
      | MemberExpr _ _ _ _ _ \<Rightarrow> Inr e
      | ArrayPattern _ _ \<Rightarrow> Inr e
      | ObjectPattern _ _ \<Rightarrow> Inr e
      | RestElement _ _ \<Rightarrow> Inr e
      | AssignPattern p target def \<Rightarrow>
          bindE (toPattern strict gen target) (\<lambda>t. Inr (AssignPattern p t def))
      | ArrayLit p elements trailing \<Rightarrow>
          if trailing then Inl (RestTrailingCommaErr, p)
          else bindE (eachElement (\<lambda>last el.
                  case el of
                    NilNode \<Rightarrow> Inr NilNode
                  | SpreadElement sp arg \<Rightarrow>
                      if \<not> last then Inl (RestNotLast, sp)
                      else bindE (toPattern strict gen arg) (\<lambda>a.
                             if isAssignPattern a then Inl (RestWithInitialiser, sp) else Inr (RestElement sp a))
                  | _ \<Rightarrow> toPattern strict gen el) elements)
                (\<lambda>els. Inr (ArrayPattern p els))
      | ObjectLit p props trailing \<Rightarrow>
          if trailing then Inl (RestTrailingCommaErr, p)
          else bindE (eachElement (\<lambda>last prop.
                  case prop of
                    Property q key val computed shorthand kind method \<Rightarrow>
                      if kind = ''spread'' then
                        (if \<not> last then Inl (RestNotLast, q)
                         else bindE (toPattern strict gen val) (\<lambda>v.
                                Inr (Property q NilNode v False False ''rest'' False)))
                      else if method \<or> kind = ''get'' \<or> kind = ''set'' then Inl (MethodInPattern, q)
                      else bindE (toPattern strict gen val) (\<lambda>v. Inr (Property q key v computed shorthand kind method))
                  | _ \<Rightarrow> Inr prop) props)
                (\<lambda>ps. Inr (ObjectPattern p ps))
      | AssignExpr p op target val \<Rightarrow>
          if op \<noteq> ascii ''='' then Inl (CompoundDefault, p)
          else bindE (toPattern strict gen target) (\<lambda>t. Inr (AssignPattern p t val))
      | SpreadElement p arg \<Rightarrow> bindE (toPattern strict gen arg) (\<lambda>a. Inr (RestElement p a))
      | _ \<Rightarrow> Inl (BadTarget, nodePos e))"
  by pat_completeness auto
termination
  by (relation "measure (\<lambda>(strict, gen, e). size e)") (auto dest!: elem_smaller)

declare toPattern.simps [simp del]

section \<open>Bound names\<close>

text \<open>
  \<open>boundNameDup\<close>: the first name that is bound twice, empty for none, and the names seen.
\<close>

fun eachBound :: "(node \<Rightarrow> gostring list \<Rightarrow> gostring \<times> gostring list) \<Rightarrow> node list \<Rightarrow> gostring list \<Rightarrow> gostring \<times> gostring list" where
  "eachBound step [] seen = ([], seen)"
| "eachBound step (x # xs) seen =
     (case step x seen of (d, seen1) \<Rightarrow> if d \<noteq> [] then (d, seen1) else eachBound step xs seen1)"

lemma eachBound_cong [fundef_cong]:
  assumes "xs = ys" "s = t" "\<And>x u. x \<in> set ys \<Longrightarrow> f x u = g x u"
  shows "eachBound f xs s = eachBound g ys t"
proof -
  have "(\<And>x u. x \<in> set ys \<Longrightarrow> f x u = g x u) \<Longrightarrow> eachBound f ys t = eachBound g ys t"
    by (induction ys arbitrary: t) (auto split: prod.splits)
  then show ?thesis using assms by simp
qed

function boundNameDup :: "node \<Rightarrow> gostring list \<Rightarrow> gostring \<times> gostring list" where
  "boundNameDup e seen =
     (case e of
        Parens x \<Rightarrow> boundNameDup x seen
      | Ident _ name \<Rightarrow> if name \<in> set seen then (name, seen) else ([], name # seen)
      | ArrayPattern _ els \<Rightarrow> eachBound (\<lambda>el sn. if el = NilNode then ([], sn) else boundNameDup el sn) els seen
      | ObjectPattern _ props \<Rightarrow>
          eachBound (\<lambda>prop sn. case prop of Property _ _ val _ _ _ _ \<Rightarrow> boundNameDup val sn | _ \<Rightarrow> ([], sn)) props seen
      | AssignPattern _ target _ \<Rightarrow> boundNameDup target seen
      | RestElement _ arg \<Rightarrow> boundNameDup arg seen
      | _ \<Rightarrow> ([], seen))"
  by pat_completeness auto
termination
  by (relation "measure (\<lambda>(e, seen). size e)") (auto dest!: elem_smaller)

declare boundNameDup.simps [simp del]

text \<open>\<open>collectVarDeclaredNames\<close>, as the list of the names it adds to the set.\<close>

function collectVarDeclaredNames :: "stmt \<Rightarrow> gostring list" where
  "collectVarDeclaredNames st =
     (case st of
        VarDecl _ declKind decls \<Rightarrow>
          if declKind \<noteq> ascii ''var'' then []
          else concat (map (\<lambda>d. case d of VarDeclarator _ target _ \<Rightarrow> snd (boundNameDup target []) | _ \<Rightarrow> []) decls)
      | BlockStmt _ body \<Rightarrow> concat (map collectVarDeclaredNames body)
      | IfStmt _ _ c a \<Rightarrow> collectVarDeclaredNames c @ collectVarDeclaredNames a
      | WhileStmt _ _ body \<Rightarrow> collectVarDeclaredNames body
      | DoWhileStmt _ body _ \<Rightarrow> collectVarDeclaredNames body
      | ForStmt _ init _ _ body \<Rightarrow>
          (case init of VarDecl _ _ _ \<Rightarrow> collectVarDeclaredNames init | _ \<Rightarrow> []) @ collectVarDeclaredNames body
      | ForInStmt _ left _ body _ _ \<Rightarrow>
          (case left of VarDecl _ _ _ \<Rightarrow> collectVarDeclaredNames left | _ \<Rightarrow> []) @ collectVarDeclaredNames body
      | TryStmt _ block handler finalizer \<Rightarrow>
          collectVarDeclaredNames block
          @ (case handler of CatchClause _ _ body \<Rightarrow> collectVarDeclaredNames body | _ \<Rightarrow> [])
          @ collectVarDeclaredNames finalizer
      | LabeledStmt _ _ body \<Rightarrow> collectVarDeclaredNames body
      | WithStmt _ _ body \<Rightarrow> collectVarDeclaredNames body
      | SwitchStmt _ _ cases \<Rightarrow>
          concat (map (\<lambda>c. case c of SwitchCase _ _ body \<Rightarrow> concat (map collectVarDeclaredNames body) | _ \<Rightarrow> []) cases)
      | _ \<Rightarrow> [])"
  by pat_completeness auto
termination
  by (relation "measure size") (auto dest!: elem_smaller)

declare collectVarDeclaredNames.simps [simp del]

end
