(* ===== verification/ParseBase.thy ===== *)
theory ParseBase
  imports AstOps
begin

text \<open>
  The machinery of the parser (\<open>parser.go\<close>): its state, failing, reading tokens, looking ahead,
  semicolon insertion, and the erasure of type annotations.

  The code reports a syntax error by a panic that \<open>Parse\<close> recovers.  A parser is a function from
  the state to a result: a value with the state after it, a panic with its message, its position
  and the state it happened in, which a speculative read goes on from, or \<open>Stuck\<close>.  Sequencing
  is \<open>thenP\<close>; \<open>deferred\<close> is \<open>defer\<close>, which runs on a panic as well.

  A loop whose iterations are known to read is counted down from the length of the source and is
  \<open>Stuck\<close> when the count runs out; that it never does is proved of every loop.

  Messages are the texts of the source without accents, with what the text quotes as arguments.
\<close>

section \<open>State and results\<close>

datatype parseErr =
    LexError lexMsg
  | Expected tkind tkind
  | NoSemicolon tkind
  | NotExpression token
  | PatternErr patErr
  | BoundTwice gostring
  | Msg string

record pst =
  plx :: lexer
  ptok :: token
  pstrict :: bool
  pmodule :: bool
  ptypescript :: bool
  inGenerator :: bool
  inAsync :: bool
  inFunction :: bool
  inIteration :: int
  inSwitch :: int
  noIn :: bool
  depth :: int

datatype 'a pres = Done 'a pst | Panic parseErr position pst | Stuck

type_synonym 'a parser = "pst \<Rightarrow> 'a pres"

definition retP :: "'a \<Rightarrow> 'a parser" where
  "retP x s = Done x s"

definition thenP :: "'a parser \<Rightarrow> ('a \<Rightarrow> 'b parser) \<Rightarrow> 'b parser" where
  "thenP p f s = (case p s of Done x s1 \<Rightarrow> f x s1 | Panic m q s1 \<Rightarrow> Panic m q s1 | Stuck \<Rightarrow> Stuck)"

definition next_do :: "'a parser \<Rightarrow> 'b parser \<Rightarrow> 'b parser" where
  "next_do p q = thenP p (\<lambda>_. q)"

definition look :: "(pst \<Rightarrow> 'a) \<Rightarrow> ('a \<Rightarrow> 'b parser) \<Rightarrow> 'b parser" where
  "look f g s = g (f s) s"

definition modify :: "(pst \<Rightarrow> pst) \<Rightarrow> unit parser" where
  "modify f s = Done () (f s)"

definition fail :: "parseErr \<Rightarrow> 'a parser" where
  "fail m s = Panic m (tPos (ptok s)) s"

definition failAt :: "parseErr \<Rightarrow> position \<Rightarrow> 'a parser" where
  "failAt m q s = Panic m q s"

definition deferred :: "(pst \<Rightarrow> pst) \<Rightarrow> 'a parser \<Rightarrow> 'a parser" where
  "deferred g p s =
     (case p s of Done x s1 \<Rightarrow> Done x (g s1) | Panic m q s1 \<Rightarrow> Panic m q (g s1) | Stuck \<Rightarrow> Stuck)"

definition whenP :: "bool \<Rightarrow> unit parser \<Rightarrow> unit parser" where
  "whenP b p = (if b then p else retP ())"

text \<open>Loops: \<open>Inl\<close> goes on with a new loop state, \<open>Inr\<close> leaves.\<close>

fun loopP :: "nat \<Rightarrow> ('a \<Rightarrow> ('a + 'b) parser) \<Rightarrow> 'a \<Rightarrow> 'b parser" where
  "loopP 0 body a s = Stuck"
| "loopP (Suc n) body a s =
     (case body a s of
        Done (Inl a1) s1 \<Rightarrow> loopP n body a1 s1
      | Done (Inr b) s1 \<Rightarrow> Done b s1
      | Panic m q s1 \<Rightarrow> Panic m q s1
      | Stuck \<Rightarrow> Stuck)"

definition repeatP :: "('a \<Rightarrow> ('a + 'b) parser) \<Rightarrow> 'a \<Rightarrow> 'b parser" where
  "repeatP body a s = loopP (length (lsrc (plx s)) + 3) body a s"

text \<open>\<open>enter\<close> and the deferred \<open>leave\<close>: \<open>enter\<close> panics before \<open>leave\<close> is deferred.\<close>

definition maxDepth :: int where "maxDepth = 800"

definition enterP :: "unit parser" where
  "enterP = next_do (modify (\<lambda>s. s\<lparr>depth := depth s + 1\<rparr>))
     (look depth (\<lambda>d. if d > maxDepth then fail (Msg ''imbrication trop profonde'') else retP ()))"

definition entered :: "'a parser \<Rightarrow> 'a parser" where
  "entered p = next_do enterP (deferred (\<lambda>s. s\<lparr>depth := depth s - 1\<rparr>) p)"

section \<open>Tokens\<close>

definition failIllegal :: "unit parser" where
  "failIllegal = look ptok (\<lambda>t. if tKind t = IllegalT then fail (LexError (tMessage t)) else retP ())"

definition readToken :: "utab \<Rightarrow> bool \<Rightarrow> pst \<Rightarrow> pst" where
  "readToken u allowRegexp s = (case Next u allowRegexp (plx s) of (t, l) \<Rightarrow> s\<lparr>ptok := t, plx := l\<rparr>)"

definition padvance :: "utab \<Rightarrow> unit parser" where
  "padvance u = next_do (modify (readToken u False)) failIllegal"

definition is_kind :: "tkind \<Rightarrow> pst \<Rightarrow> bool" where
  "is_kind k s \<longleftrightarrow> tKind (ptok s) = k"

definition isKeyword :: "string \<Rightarrow> pst \<Rightarrow> bool" where
  "isKeyword w s \<longleftrightarrow> tKind (ptok s) = KeywordT \<and> tValue (ptok s) = ascii w"

definition isName :: "pst \<Rightarrow> bool" where
  "isName s \<longleftrightarrow> tKind (ptok s) = IdentT \<or> tKind (ptok s) = KeywordT"

definition isNamed :: "string \<Rightarrow> pst \<Rightarrow> bool" where
  "isNamed w s \<longleftrightarrow> isName s \<and> tValue (ptok s) = ascii w"

definition isIdentText :: "string \<Rightarrow> pst \<Rightarrow> bool" where
  "isIdentText w s \<longleftrightarrow> tKind (ptok s) = IdentT \<and> tValue (ptok s) = ascii w"

definition afterNewline :: "pst \<Rightarrow> bool" where
  "afterNewline s = tNewlineBefore (ptok s)"

definition regexpHere :: "utab \<Rightarrow> unit parser" where
  "regexpHere u = look ptok (\<lambda>t.
     if tKind t \<noteq> SlashT \<and> tKind t \<noteq> SlashAssignT then retP ()
     else next_do (modify (\<lambda>s. s\<lparr>plx := SeekTo (tPos t) (plx s)\<rparr>))
       (next_do (modify (readToken u True))
         (next_do (modify (\<lambda>s. s\<lparr>ptok := (ptok s)\<lparr>tNewlineBefore := tNewlineBefore t\<rparr>\<rparr>)) failIllegal)))"

definition eat :: "utab \<Rightarrow> tkind \<Rightarrow> bool parser" where
  "eat u k = look (is_kind k) (\<lambda>b. if b then next_do (padvance u) (retP True) else retP False)"

definition eatKeyword :: "utab \<Rightarrow> string \<Rightarrow> bool parser" where
  "eatKeyword u w = look (isKeyword w) (\<lambda>b. if b then next_do (padvance u) (retP True) else retP False)"

definition expect :: "utab \<Rightarrow> tkind \<Rightarrow> token parser" where
  "expect u k = look ptok (\<lambda>t.
     if tKind t \<noteq> k then fail (Expected k (tKind t)) else next_do (padvance u) (retP t))"

definition semicolon :: "utab \<Rightarrow> unit parser" where
  "semicolon u = thenP (eat u SemicolonT) (\<lambda>b.
     if b then retP ()
     else look ptok (\<lambda>t.
       if tKind t = RBraceT \<or> tKind t = EOFT \<or> tNewlineBefore t then retP () else fail (NoSemicolon (tKind t))))"

text \<open>Looking ahead: \<open>Save\<close> with the current token, and going back.\<close>

definition snapshot :: "pst \<Rightarrow> lexState \<times> token" where
  "snapshot s = (Save (plx s), ptok s)"

definition rewind :: "lexState \<times> token \<Rightarrow> unit parser" where
  "rewind sv = modify (\<lambda>s. s\<lparr>plx := Restore (fst sv) (plx s), ptok := snd sv\<rparr>)"

definition peekNext :: "utab \<Rightarrow> (pst \<Rightarrow> bool) \<Rightarrow> bool parser" where
  "peekNext u test = look snapshot (\<lambda>sv.
     next_do (padvance u) (look test (\<lambda>b. next_do (rewind sv) (retP b))))"

text \<open>
  Reading one token further if what follows passes the test, else going back: the value tells.
\<close>

definition advanceIf :: "utab \<Rightarrow> (pst \<Rightarrow> bool) \<Rightarrow> bool parser" where
  "advanceIf u test = look snapshot (\<lambda>sv.
     next_do (padvance u) (look test (\<lambda>b. if b then retP True else next_do (rewind sv) (retP False))))"

section \<open>Type erasure\<close>

definition advanceUntil :: "utab \<Rightarrow> tkind \<Rightarrow> unit parser" where
  "advanceUntil u k = repeatP (\<lambda>_. look ptok (\<lambda>t.
     if tKind t = k \<or> tKind t = EOFT then retP (Inr ()) else next_do (padvance u) (retP (Inl ())))) ()"

text \<open>The loops that count one bracket until it is closed; the value is the depth at the end.\<close>

definition balanced :: "utab \<Rightarrow> (tkind \<Rightarrow> int \<Rightarrow> int) \<Rightarrow> int \<Rightarrow> int parser" where
  "balanced u count d0 = repeatP (\<lambda>d. look ptok (\<lambda>t.
     if tKind t = EOFT \<or> d \<le> 0 then retP (Inr d) else next_do (padvance u) (retP (Inl (count (tKind t) d))))) d0"

definition isPrimitiveTypeName :: "gostring \<Rightarrow> bool" where
  "isPrimitiveTypeName name \<longleftrightarrow> name \<in> ascii ` {''number'', ''string'', ''boolean'', ''any'', ''unknown'', ''never'',
     ''void'', ''symbol'', ''bigint'', ''object'', ''undefined'', ''null''}"

definition isContinuationOp :: "tkind \<Rightarrow> bool" where
  "isContinuationOp k \<longleftrightarrow> k \<in> {OrT, AndT, ColonT, AssignT, CommaT, QuestionT, LtT}"

definition startsTypeAfter :: "tkind \<Rightarrow> bool" where
  "startsTypeAfter k \<longleftrightarrow> k \<in> {ColonT, CommaT, LtT, OrT, AndT, AssignT, QuestionT, ArrowT}"

text \<open>\<open>hasMatchingClosingAngle\<close>: the state is restored whatever happens.\<close>

definition angleAhead :: "tkind \<Rightarrow> int \<Rightarrow> int" where
  "angleAhead k d =
     (if k = LtT then d + 1 else if k = GtT \<or> k = GeT then d - 1 else if k = ShrT \<or> k = ShrAssignT then d - 2
      else if k = UShrT \<or> k = UShrAssignT then d - 3 else d)"

definition hasMatchingClosingAngle :: "utab \<Rightarrow> bool parser" where
  "hasMatchingClosingAngle u = look snapshot (\<lambda>sv.
     deferred (\<lambda>s. s\<lparr>plx := Restore (fst sv) (plx s), ptok := snd sv\<rparr>)
       (next_do (padvance u)
         (repeatP (\<lambda>d. look ptok (\<lambda>t.
            if tKind t = EOFT \<or> d \<le> 0 then retP (Inr (d \<le> 0))
            else if tKind t = SemicolonT \<or> tKind t = AssignT then retP (Inr False)
            else let d1 = angleAhead (tKind t) d
                 in if d1 \<le> 0 then retP (Inr True) else next_do (padvance u) (retP (Inl d1)))) (1::int))))"

record typeSkip =
  dParen :: int
  dBrace :: int
  dBracket :: int
  dAngle :: int
  consumedAny :: bool
  prevKind :: tkind
  prevWord :: gostring

definition atTop :: "typeSkip \<Rightarrow> bool" where
  "atTop d \<longleftrightarrow> dParen d = 0 \<and> dBrace d = 0 \<and> dBracket d = 0 \<and> dAngle d = 0"

text \<open>The tests before the switch: a type ends here.\<close>

definition typeEnds :: "bool \<Rightarrow> typeSkip \<Rightarrow> token \<Rightarrow> bool" where
  "typeEnds inAs d t \<longleftrightarrow> atTop d \<and>
     (let k = tKind t; w = tValue t in
      (consumedAny d \<and> tNewlineBefore t \<and> \<not> isContinuationOp (prevKind d)
         \<and> k \<notin> {OrT, AndT, QuestionT, LBracketT} \<and> (k \<noteq> KeywordT \<or> w \<noteq> ascii ''extends''))
      \<or> (inAs \<and> consumedAny d \<and> k \<in> {QuestionT, AndAndT, OrOrT, QuestionQuestionT})
      \<or> (k = KeywordT \<and> (w = ascii ''in'' \<or> w = ascii ''instanceof'' \<or> (inAs \<and> w = ascii ''as'')))
      \<or> (k = IdentT \<and> w = ascii ''of''))"

text \<open>
  The switch.  A token goes on with new depths, ends the type, fails, or closes the last
  chevron and leaves an assignment sign, \<open>n\<close> columns into the token.
\<close>

datatype skipMove = GoOn typeSkip | EndHere | SplitAssign nat | OpenAngle

definition closeAngle :: "int \<Rightarrow> bool \<Rightarrow> typeSkip \<Rightarrow> skipMove" where
  "closeAngle n splits d =
     (if dAngle d > 0 then
        let a = (if dAngle d \<ge> n then dAngle d - n else 0)
        in if splits \<and> a = 0 then SplitAssign (nat n) else GoOn (d\<lparr>dAngle := a\<rparr>)
      else if atTop d then EndHere else GoOn d)"

definition typeMove :: "tkind \<Rightarrow> typeSkip \<Rightarrow> skipMove" where
  "typeMove k d =
     (if k = LParenT then GoOn (d\<lparr>dParen := dParen d + 1\<rparr>)
      else if k = RParenT then (if atTop d then EndHere else GoOn (d\<lparr>dParen := dParen d - 1\<rparr>))
      else if k = LBraceT then
        (if atTop d \<and> \<not> startsTypeAfter (prevKind d) then EndHere else GoOn (d\<lparr>dBrace := dBrace d + 1\<rparr>))
      else if k = RBraceT then (if atTop d then EndHere else GoOn (d\<lparr>dBrace := dBrace d - 1\<rparr>))
      else if k = LBracketT then GoOn (d\<lparr>dBracket := dBracket d + 1\<rparr>)
      else if k = RBracketT then (if atTop d then EndHere else GoOn (d\<lparr>dBracket := dBracket d - 1\<rparr>))
      else if k = LtT then GoOn (d\<lparr>dAngle := dAngle d + 1\<rparr>)
      else if k = GtT then closeAngle 1 False d
      else if k = GeT then closeAngle 1 True d
      else if k = ShrT then closeAngle 2 False d
      else if k = ShrAssignT then closeAngle 2 True d
      else if k = UShrT then closeAngle 3 False d
      else if k = UShrAssignT then closeAngle 3 True d
      else if k = CommaT \<or> k = AssignT then (if atTop d then EndHere else GoOn d)
      else if k = SemicolonT then (if atTop d then EndHere else if dAngle d > 0 then OpenAngle else GoOn d)
      else if k = ArrowT then (if atTop d \<and> prevKind d \<noteq> RParenT then EndHere else GoOn d)
      else if k \<in> {PlusT, MinusT, StarT, SlashT, PercentT, StarStarT, EqEqT, NotEqT, EqEqEqT, NotEqEqT, LeT,
                   QuestionDotT, QuestionQuestionT, AndAndT, OrOrT, ShlT, XorT}
      then (if atTop d then EndHere else GoOn d)
      else GoOn d)"

definition closeMsg :: string where
  "closeMsg = ''> attendu pour fermer le type generique''"

definition skipTypeStep :: "utab \<Rightarrow> bool \<Rightarrow> typeSkip \<Rightarrow> (typeSkip + typeSkip option) parser" where
  "skipTypeStep u inAs d = look ptok (\<lambda>t.
     if tKind t = EOFT then retP (Inr (Some d))
     else if typeEnds inAs d t then retP (Inr None)
     else thenP
       (if tKind t = LtT \<and> atTop d then
          (if isPrimitiveTypeName (prevWord d) then retP True
           else thenP (hasMatchingClosingAngle u) (\<lambda>b. retP (\<not> b)))
        else retP False)
       (\<lambda>comparison.
          if comparison then retP (Inr None)
          else
            (case typeMove (tKind t) d of
               EndHere \<Rightarrow> retP (Inr None)
             | OpenAngle \<Rightarrow> fail (Msg closeMsg)
             | SplitAssign n \<Rightarrow>
                 next_do (modify (\<lambda>s. s\<lparr>ptok := mkTok AssignT
                     ((tPos t)\<lparr>posCol := posCol (tPos t) + n, posOffset := posOffset (tPos t) + n\<rparr>) (ascii ''='') NoMsg\<rparr>))
                   (retP (Inr None))
             | GoOn d1 \<Rightarrow>
                 next_do (padvance u)
                   (retP (Inl (d1\<lparr>prevKind := tKind t, consumedAny := True,
                        prevWord := (if tKind t = IdentT \<or> tKind t = KeywordT then tValue t else [])\<rparr>))))))"

definition skipTypeCustom :: "utab \<Rightarrow> bool \<Rightarrow> unit parser" where
  "skipTypeCustom u inAs =
     thenP (repeatP (skipTypeStep u inAs) \<lparr>dParen = 0, dBrace = 0, dBracket = 0, dAngle = 0,
                consumedAny = False, prevKind = ColonT, prevWord = []\<rparr>)
       (\<lambda>res. case res of
          None \<Rightarrow> retP ()
        | Some d \<Rightarrow>
            if inAs \<and> \<not> consumedAny d then fail (Msg ''type attendu apres as'')
            else if dAngle d > 0 then fail (Msg closeMsg)
            else if dParen d > 0 \<or> dBrace d > 0 \<or> dBracket d > 0 then fail (Msg ''delimiteur non ferme dans le type'')
            else retP ())"

definition skipType :: "utab \<Rightarrow> unit parser" where
  "skipType u = skipTypeCustom u False"

definition skipTypeAs :: "utab \<Rightarrow> unit parser" where
  "skipTypeAs u = skipTypeCustom u True"

definition skipTypeAnnotation :: "utab \<Rightarrow> unit parser" where
  "skipTypeAnnotation u = look (\<lambda>s. ptypescript s \<and> is_kind ColonT s) (\<lambda>b.
     whenP b (next_do (padvance u) (skipType u)))"

definition angleParams :: "tkind \<Rightarrow> int \<Rightarrow> int" where
  "angleParams k d =
     (if k = LtT then d + 1 else if k = GtT then d - 1 else if k = ShrT then (if d \<ge> 2 then d - 2 else 0)
      else if k = UShrT then (if d \<ge> 3 then d - 3 else 0) else d)"

definition skipTypeParams :: "utab \<Rightarrow> unit parser" where
  "skipTypeParams u = look (\<lambda>s. ptypescript s \<and> is_kind LtT s) (\<lambda>b.
     whenP b (next_do (padvance u) (next_do (balanced u angleParams 1) (retP ()))))"

definition braceCount :: "tkind \<Rightarrow> int \<Rightarrow> int" where
  "braceCount k d = (if k = LBraceT then d + 1 else if k = RBraceT then d - 1 else d)"

definition skipBalancedBraces :: "utab \<Rightarrow> unit parser" where
  "skipBalancedBraces u = look (is_kind LBraceT) (\<lambda>b.
     whenP b (next_do (padvance u) (thenP (balanced u braceCount 1) (\<lambda>d.
       if d > 0 then fail (Msg ''} attendu pour fermer le bloc'') else retP ()))))"

end
