(* ===== verification/ParseExpr.thy ===== *)
theory ParseExpr
  imports ParseBase
begin

text \<open>
  The expression parser: \<open>parser.go\<close> and \<open>primary.go\<close>.

  The functions of the descent call each other in cycles, and every cycle passes through one of
  the seven functions that count the depth with \<open>enter\<close>.  Each function is a definition over a
  record \<open>r\<close> that holds these seven, as they are one level deeper; \<open>ParseStmt\<close> ties the knot.
  The parameter \<open>u\<close> is the Unicode tables of the scanner.
\<close>

record pfuns =
  rAssign :: "expr parser"
  rBinary :: "nat \<Rightarrow> expr parser"
  rUnary :: "expr parser"
  rCallOrMember :: "bool \<Rightarrow> expr parser"
  rPrimary :: "expr parser"
  rItem :: "stmt parser"
  rStatement :: "stmt parser"

text \<open>Setting the context of a function body, and of an inner bracket, and resetting it.\<close>

definition inFunctionBody :: "bool \<Rightarrow> bool \<Rightarrow> 'a parser \<Rightarrow> 'a parser" where
  "inFunctionBody gen async p = look (\<lambda>s. (inGenerator s, inAsync s, inFunction s)) (\<lambda>(g, a, f).
     next_do (modify (\<lambda>s. s\<lparr>inGenerator := gen, inAsync := async, inFunction := True\<rparr>))
       (deferred (\<lambda>s. s\<lparr>inGenerator := g, inAsync := a, inFunction := f\<rparr>) p))"

definition allowingIn :: "'a parser \<Rightarrow> 'a parser" where
  "allowingIn p = look noIn (\<lambda>saved.
     next_do (modify (\<lambda>s. s\<lparr>noIn := False\<rparr>)) (deferred (\<lambda>s. s\<lparr>noIn := saved\<rparr>) p))"

definition toPatternP :: "expr \<Rightarrow> expr parser" where
  "toPatternP e = look (\<lambda>s. toPattern (pstrict s) (inGenerator s) e) (\<lambda>res.
     case res of Inl (m, q) \<Rightarrow> failAt (PatternErr m) q | Inr x \<Rightarrow> retP x)"

section \<open>Lists and sequences\<close>

definition parseExpression :: "utab \<Rightarrow> pfuns \<Rightarrow> expr parser" where
  "parseExpression u r = thenP (rAssign r) (\<lambda>e.
     look (is_kind CommaT) (\<lambda>comma.
       if \<not> comma then retP e
       else thenP
         (repeatP (\<lambda>es. thenP (eat u CommaT) (\<lambda>more.
            if more then thenP (rAssign r) (\<lambda>x. retP (Inl (es @ [x]))) else retP (Inr es))) [e])
         (\<lambda>es. retP (SequenceExpr (nodePos e) es))))"

definition readHere :: "utab \<Rightarrow> 'a parser \<Rightarrow> 'a parser" where
  "readHere u p = next_do (regexpHere u) p"

definition parseArguments :: "utab \<Rightarrow> pfuns \<Rightarrow> expr list parser" where
  "parseArguments u r = next_do (expect u LParenT) (next_do (regexpHere u)
     (thenP
       (repeatP (\<lambda>args. look ptok (\<lambda>t.
          if tKind t = RParenT then retP (Inr args)
          else thenP
            (if tKind t = EllipsisT then
               next_do (padvance u) (readHere u (thenP (rAssign r) (\<lambda>x. retP (SpreadElement (tPos t) x))))
             else rAssign r)
            (\<lambda>x. thenP (eat u CommaT) (\<lambda>more.
               if more then readHere u (retP (Inl (args @ [x]))) else retP (Inr (args @ [x])))))) [])
       (\<lambda>args. next_do (expect u RParenT) (retP args))))"

section \<open>Templates\<close>

text \<open>Reading on from the closing brace of a substitution, and past the piece that was read.\<close>

definition templatePiece :: "utab \<Rightarrow> token parser" where
  "templatePiece u = look ptok (\<lambda>t.
     if tKind t \<noteq> RBraceT then fail (Msg ''} attendu pour clore la substitution du gabarit'')
     else look (\<lambda>s. NextTemplateContinuation (SeekTo (tPos t) (plx s))) (\<lambda>(cont, l).
       next_do (modify (\<lambda>s. s\<lparr>plx := l\<rparr>))
         (if tKind cont = IllegalT then failAt (LexError (tMessage cont)) (tPos cont)
          else next_do (padvance u) (retP cont))))"

definition parseTemplate :: "utab \<Rightarrow> pfuns \<Rightarrow> expr parser" where
  "parseTemplate u r = look ptok (\<lambda>t.
     if tKind t = NoSubTemplateT then next_do (padvance u) (retP (TemplateLit (tPos t) [tValue t] []))
     else next_do (padvance u)
       (repeatP (\<lambda>(quasis, exprs).
          readHere u (thenP (parseExpression u r) (\<lambda>e.
            thenP (templatePiece u) (\<lambda>cont.
              if tKind cont = TemplateTailT
              then retP (Inr (TemplateLit (tPos t) (quasis @ [tValue cont]) (exprs @ [e])))
              else retP (Inl (quasis @ [tValue cont], exprs @ [e])))))) ([tValue t], [])))"

section \<open>Array literals\<close>

text \<open>The elements, with whether a comma followed the rest element.\<close>

definition arrayElements :: "utab \<Rightarrow> pfuns \<Rightarrow> (expr list \<times> bool) parser" where
  "arrayElements u r = repeatP (\<lambda>els. readHere u (look ptok (\<lambda>t.
     if tKind t = RBracketT then retP (Inr (els, False))
     else if tKind t = CommaT then next_do (padvance u) (retP (Inl (els @ [NilNode])))
     else if tKind t = EllipsisT then
       next_do (padvance u) (readHere u (thenP (rAssign r) (\<lambda>x.
         let els1 = els @ [SpreadElement (tPos t) x]
         in thenP (eat u CommaT) (\<lambda>more.
              if \<not> more then retP (Inr (els1, False))
              else look (is_kind RBracketT) (\<lambda>closing. retP (if closing then Inr (els1, True) else Inl els1))))))
     else thenP (rAssign r) (\<lambda>x. thenP (eat u CommaT) (\<lambda>more.
            retP (if more then Inl (els @ [x]) else Inr (els @ [x], False))))))) []"

definition parseArrayLit :: "utab \<Rightarrow> pfuns \<Rightarrow> expr parser" where
  "parseArrayLit u r = look ptok (\<lambda>t. next_do (expect u LBracketT) (allowingIn
     (thenP (arrayElements u r) (\<lambda>(els, trailing).
       next_do (expect u RBracketT) (retP (ArrayLit (tPos t) els trailing))))))"

section \<open>Property keys, parameters, methods\<close>

definition parsePropertyKey :: "utab \<Rightarrow> pfuns \<Rightarrow> (expr \<times> bool) parser" where
  "parsePropertyKey u r = look ptok (\<lambda>t.
     if tKind t = LBracketT then
       next_do (padvance u) (readHere u (thenP (rAssign r) (\<lambda>k. next_do (expect u RBracketT) (retP (k, True)))))
     else if tKind t = StringT then next_do (padvance u) (retP (StringLit (tPos t) (tValue t), False))
     else if tKind t = NumberT then next_do (padvance u) (retP (NumberLit (tPos t) (tValue t), False))
     else if tKind t = BigIntT then next_do (padvance u) (retP (BigIntLit (tPos t) (tValue t), False))
     else if tKind t = PrivateIdentT then next_do (padvance u) (retP (PrivateName (tPos t) (tValue t), False))
     else if tKind t = IdentT \<or> tKind t = KeywordT
     then next_do (padvance u) (retP (Ident (tPos t) (identName (tValue t)), False))
     else fail (Msg ''nom de propriete attendu''))"

definition annotated :: "utab \<Rightarrow> unit parser" where
  "annotated u = look ptypescript (\<lambda>ts. whenP ts (skipTypeAnnotation u))"

text \<open>The default after an optional, annotated parameter.\<close>

definition typedDefault :: "utab \<Rightarrow> pfuns \<Rightarrow> (expr \<Rightarrow> expr parser) \<Rightarrow> expr \<Rightarrow> expr parser" where
  "typedDefault u r target e = look ptypescript (\<lambda>ts.
     if \<not> ts then retP e
     else thenP (eat u QuestionT) (\<lambda>_. next_do (skipTypeAnnotation u)
       (thenP (eat u AssignT) (\<lambda>eq.
          if \<not> eq then retP e
          else readHere u (thenP (rAssign r) (\<lambda>def.
            thenP (target e) (\<lambda>tg. retP (AssignPattern (nodePos e) tg def))))))))"

definition parseParams :: "utab \<Rightarrow> pfuns \<Rightarrow> expr list parser" where
  "parseParams u r = next_do (expect u LParenT)
     (thenP
       (repeatP (\<lambda>params. look ptok (\<lambda>t.
          if tKind t = RParenT then retP (Inr params)
          else if tKind t = EllipsisT then
            next_do (padvance u) (readHere u (thenP (rAssign r) (\<lambda>x. thenP (toPatternP x) (\<lambda>pat.
              next_do (annotated u) (retP (Inr (params @ [RestElement (tPos t) pat])))))))
          else readHere u (thenP (rAssign r) (\<lambda>x. thenP (toPatternP x) (\<lambda>pat.
            thenP (typedDefault u r retP pat) (\<lambda>param.
              thenP (eat u CommaT) (\<lambda>more. retP (if more then Inl (params @ [param]) else Inr (params @ [param])))))))))
        [])
       (\<lambda>params. next_do (expect u RParenT) (retP params)))"

definition parseBlock :: "utab \<Rightarrow> pfuns \<Rightarrow> stmt parser" where
  "parseBlock u r = look ptok (\<lambda>t. next_do (expect u LBraceT)
     (thenP
       (repeatP (\<lambda>body. look ptok (\<lambda>t1.
          if tKind t1 = RBraceT then retP (Inr body)
          else if tKind t1 = EOFT then fail (Msg ''} attendu pour clore le bloc'')
          else thenP (rItem r) (\<lambda>st. retP (Inl (body @ [st]))))) [])
       (\<lambda>body. next_do (expect u RBraceT) (retP (BlockStmt (tPos t) body)))))"

definition parseMethodTail :: "utab \<Rightarrow> pfuns \<Rightarrow> position \<Rightarrow> bool \<Rightarrow> bool \<Rightarrow> expr parser" where
  "parseMethodTail u r start gen async = inFunctionBody gen async
     (next_do (skipTypeParams u) (thenP (parseParams u r) (\<lambda>params.
       next_do (annotated u) (thenP (parseBlock u r) (\<lambda>body.
         retP (FunctionExpr start NilNode params body gen async))))))"

section \<open>Object literals\<close>

definition isAny :: "tkind list \<Rightarrow> pst \<Rightarrow> bool" where
  "isAny ks s \<longleftrightarrow> tKind (ptok s) \<in> set ks"

text \<open>\<open>async\<close> and \<open>get\<close>/\<open>set\<close> before a member: words that are names when what follows says so.\<close>

definition memberAsync :: "utab \<Rightarrow> (pst \<Rightarrow> bool) \<Rightarrow> bool parser" where
  "memberAsync u isMember = look (isNamed ''async'') (\<lambda>b.
     if b then advanceIf u (\<lambda>s. \<not> (afterNewline s \<or> isMember s)) else retP False)"

definition memberAccessor :: "utab \<Rightarrow> (pst \<Rightarrow> bool) \<Rightarrow> string parser" where
  "memberAccessor u isMember = look (\<lambda>s. if isNamed ''get'' s then ''get'' else if isNamed ''set'' s then ''set'' else [])
     (\<lambda>kind. if kind = [] then retP []
       else thenP (advanceIf u (\<lambda>s. \<not> isMember s)) (\<lambda>b. retP (if b then kind else [])))"

definition isIdentNode :: "node \<Rightarrow> bool" where
  "isIdentNode e = (case e of Ident _ _ \<Rightarrow> True | _ \<Rightarrow> False)"

definition objectMemberTail :: "utab \<Rightarrow> pfuns \<Rightarrow> position \<Rightarrow> bool \<Rightarrow> bool \<Rightarrow> expr \<Rightarrow> bool \<Rightarrow> node parser" where
  "objectMemberTail u r start gen async key computed = look ptok (\<lambda>t.
     if tKind t = LParenT then
       thenP (parseMethodTail u r start gen async) (\<lambda>fn. retP (Property start key fn computed False ''init'' True))
     else if tKind t = ColonT then
       next_do (padvance u) (readHere u (thenP (rAssign r) (\<lambda>v. retP (Property start key v computed False ''init'' False))))
     else if tKind t = AssignT then
       next_do (padvance u) (readHere u (thenP (rAssign r) (\<lambda>def.
         if isIdentNode (bare key)
         then retP (Property start key (AssignPattern start key def) False True ''init'' False)
         else failAt (Msg ''valeur par defaut sur une cle non identifiante'') start)))
     else if isIdentNode (bare key) \<and> \<not> computed then retP (Property start key key False True ''init'' False)
     else fail (Msg '': attendu apres le nom de propriete''))"

definition parseObjectMember :: "utab \<Rightarrow> pfuns \<Rightarrow> node parser" where
  "parseObjectMember u r = look ptok (\<lambda>t.
     let start = tPos t; enders = isAny [ColonT, CommaT, RBraceT, LParenT, AssignT]
     in if tKind t = EllipsisT then
          next_do (padvance u) (readHere u (thenP (rAssign r) (\<lambda>x.
            retP (Property start NilNode x False False ''spread'' False))))
        else thenP (memberAsync u enders) (\<lambda>async. thenP (eat u StarT) (\<lambda>gen.
          thenP (if \<not> async \<and> \<not> gen then memberAccessor u enders else retP []) (\<lambda>kind.
            thenP (parsePropertyKey u r) (\<lambda>(key, computed).
              if kind \<noteq> [] then
                thenP (parseMethodTail u r start False False) (\<lambda>fn.
                  retP (Property start key fn computed False kind True))
              else objectMemberTail u r start gen async key computed)))))"

definition isSpread :: "node \<Rightarrow> bool" where
  "isSpread prop = (case prop of Property _ _ _ _ _ kind _ \<Rightarrow> kind = ''spread'' | _ \<Rightarrow> False)"

definition parseObjectLit :: "utab \<Rightarrow> pfuns \<Rightarrow> expr parser" where
  "parseObjectLit u r = look ptok (\<lambda>t. next_do (expect u LBraceT) (allowingIn
     (thenP
       (repeatP (\<lambda>props. look (is_kind RBraceT) (\<lambda>closing.
          if closing then retP (Inr (props, False))
          else thenP (parseObjectMember u r) (\<lambda>prop. thenP (eat u CommaT) (\<lambda>more.
            if \<not> more then retP (Inr (props @ [prop], False))
            else look (is_kind RBraceT) (\<lambda>closing1.
              retP (if closing1 then Inr (props @ [prop], isSpread prop) else Inl (props @ [prop]))))))) [])
       (\<lambda>(props, trailing). next_do (expect u RBraceT) (retP (ObjectLit (tPos t) props trailing))))))"

section \<open>Arrow functions and parentheses\<close>

fun eachP :: "('a \<Rightarrow> 'b parser) \<Rightarrow> 'a list \<Rightarrow> 'b list parser" where
  "eachP f [] = retP []"
| "eachP f (x # xs) = thenP (f x) (\<lambda>y. thenP (eachP f xs) (\<lambda>ys. retP (y # ys)))"

definition parseArrowBody :: "utab \<Rightarrow> pfuns \<Rightarrow> expr list \<Rightarrow> position \<Rightarrow> bool \<Rightarrow> expr parser" where
  "parseArrowBody u r params start async = thenP (eachP toPatternP params) (\<lambda>ps.
     inFunctionBody False async
       (look (is_kind LBraceT) (\<lambda>block.
          if block then thenP (parseBlock u r) (\<lambda>b. retP (ArrowFunction start ps b async))
          else readHere u (thenP (rAssign r) (\<lambda>b. retP (ArrowFunction start ps b async))))))"

definition isArrow :: "pst \<Rightarrow> bool" where
  "isArrow s \<longleftrightarrow> is_kind ArrowT s \<and> \<not> afterNewline s"

text \<open>The items of a parenthesised list, with whether a spread ended it and a comma trailed.\<close>

definition parenItems :: "utab \<Rightarrow> pfuns \<Rightarrow> (expr list \<times> bool \<times> bool) parser" where
  "parenItems u r = repeatP (\<lambda>(items, trailing). look ptok (\<lambda>t.
     if tKind t = RParenT then retP (Inr (items, False, trailing))
     else if tKind t = EllipsisT then
       next_do (padvance u) (readHere u (thenP (rAssign r) (\<lambda>x.
         next_do (annotated u) (retP (Inr (items @ [RestElement (tPos t) x], True, trailing))))))
     else readHere u (thenP (rAssign r) (\<lambda>x. thenP (typedDefault u r toPatternP x) (\<lambda>item.
       thenP (eat u CommaT) (\<lambda>more.
         if \<not> more then retP (Inr (items @ [item], False, trailing))
         else look (is_kind RParenT) (\<lambda>closing. retP (Inl (items @ [item], trailing \<or> closing))))))))) ([], False)"

text \<open>An annotated result type, which only an arrow can follow; else back to the colon.\<close>

definition typedArrow :: "utab \<Rightarrow> 'a parser \<Rightarrow> 'a parser \<Rightarrow> 'a parser" where
  "typedArrow u arrow rest = look (\<lambda>s. (ptypescript s \<and> is_kind ColonT s, snapshot s)) (\<lambda>(typed, sv).
     if \<not> typed then rest
     else next_do (padvance u) (next_do (skipType u) (look isArrow (\<lambda>b.
            if b then arrow else next_do (rewind sv) rest))))"

definition parseParenOrArrow :: "utab \<Rightarrow> pfuns \<Rightarrow> expr parser" where
  "parseParenOrArrow u r = look ptok (\<lambda>t. next_do (expect u LParenT) (allowingIn
     (thenP (parenItems u r) (\<lambda>(items, sawSpread, trailingComma).
       let start = tPos t;
           arrow = next_do (padvance u) (parseArrowBody u r items start False);
           rest = look isArrow (\<lambda>b.
             if b then arrow
             else if sawSpread then failAt (Msg ''element de reste hors liste de parametres'') start
             else if items = [] then failAt (Msg ''() n'est une expression que suivi de =>'') start
             else if trailingComma then failAt (Msg ''virgule finale hors liste de parametres'') start
             else if length items = 1 then retP (mark (hd items))
             else retP (mark (SequenceExpr start items)))
       in next_do (expect u RParenT) (typedArrow u arrow rest)))))"

section \<open>Functions and classes\<close>

definition strictOnly :: "gostring \<Rightarrow> bool" where
  "strictOnly w \<longleftrightarrow> w \<in> ascii ` {''let'', ''static'', ''implements'', ''interface'', ''package'', ''private'',
     ''protected'', ''public''}"

definition sloppyName :: "pst \<Rightarrow> bool" where
  "sloppyName s \<longleftrightarrow> tKind (ptok s) = KeywordT \<and> \<not> pstrict s \<and> strictOnly (tValue (ptok s))"

definition optionalName :: "utab \<Rightarrow> (pst \<Rightarrow> bool) \<Rightarrow> node parser" where
  "optionalName u named = look (\<lambda>s. (named s, ptok s)) (\<lambda>(b, t).
     if b then next_do (padvance u) (retP (Ident (tPos t) (tValue t))) else retP NilNode)"

definition parseFunctionAt :: "utab \<Rightarrow> pfuns \<Rightarrow> position \<Rightarrow> bool \<Rightarrow> expr parser" where
  "parseFunctionAt u r start async = thenP (eatKeyword u ''function'') (\<lambda>b.
     if \<not> b then fail (Msg ''function attendu'')
     else thenP (eat u StarT) (\<lambda>gen.
       thenP (optionalName u (\<lambda>s. is_kind IdentT s \<or> sloppyName s)) (\<lambda>name.
         inFunctionBody gen async
           (next_do (skipTypeParams u) (thenP (parseParams u r) (\<lambda>params.
             next_do (annotated u) (thenP (parseBlock u r) (\<lambda>body.
               retP (FunctionExpr start name params body gen async)))))))))"

definition parseFunctionDecl :: "utab \<Rightarrow> pfuns \<Rightarrow> position \<Rightarrow> bool \<Rightarrow> expr parser" where
  "parseFunctionDecl u r start async = thenP (parseFunctionAt u r start async) (\<lambda>fn.
     case fn of
       FunctionExpr _ NilNode _ _ _ _ \<Rightarrow> failAt (Msg ''une declaration de fonction exige un nom'') start
     | _ \<Rightarrow> retP fn)"

definition modifierWord :: "pst \<Rightarrow> bool" where
  "modifierWord s \<longleftrightarrow> ptypescript s \<and> isName s
     \<and> tValue (ptok s) \<in> ascii ` {''public'', ''private'', ''protected'', ''readonly'', ''override''}"

definition skipClassModifiers :: "utab \<Rightarrow> unit parser" where
  "skipClassModifiers u = repeatP (\<lambda>_. look modifierWord (\<lambda>b.
     if \<not> b then retP (Inr ())
     else thenP (advanceIf u (\<lambda>s. \<not> isAny [LParenT, AssignT, ColonT, SemicolonT, RBraceT] s)) (\<lambda>skipped.
       retP (if skipped then Inl () else Inr ())))) ()"

text \<open>\<open>static\<close>: \<open>Inl\<close> is a complete static block, \<open>Inr\<close> whether the member is static.\<close>

definition staticPrefix :: "utab \<Rightarrow> pfuns \<Rightarrow> position \<Rightarrow> (node + bool) parser" where
  "staticPrefix u r start = look (isNamed ''static'') (\<lambda>b.
     if \<not> b then retP (Inr False)
     else look snapshot (\<lambda>sv. next_do (padvance u) (look ptok (\<lambda>t.
       if tKind t \<in> {LParenT, AssignT, SemicolonT, RBraceT} then next_do (rewind sv) (retP (Inr False))
       else if tKind t = LBraceT then
         thenP (parseBlock u r) (\<lambda>body.
           retP (Inl (ClassMember start NilNode (FunctionExpr start NilNode [] body False False) ''static-block'' True False)))
       else retP (Inr True)))))"

definition isConstructorKey :: "expr \<Rightarrow> bool" where
  "isConstructorKey key = (case key of Ident _ n \<Rightarrow> n = ascii ''constructor'' | _ \<Rightarrow> False)"

definition classMemberTail :: "utab \<Rightarrow> pfuns \<Rightarrow> position \<Rightarrow> bool \<Rightarrow> bool \<Rightarrow> bool \<Rightarrow> expr \<Rightarrow> bool \<Rightarrow> node parser" where
  "classMemberTail u r start static gen async key computed = look (is_kind LParenT) (\<lambda>b.
     if b then
       thenP (parseMethodTail u r start gen async) (\<lambda>fn.
         retP (ClassMember start key fn
                (if isConstructorKey key \<and> \<not> static \<and> \<not> computed then ''constructor'' else ''method'') static computed))
     else next_do
       (look ptypescript (\<lambda>ts. whenP ts
          (thenP (eat u QuestionT) (\<lambda>_. thenP (eat u NotT) (\<lambda>_. skipTypeAnnotation u)))))
       (thenP (eat u AssignT) (\<lambda>eq.
          thenP (if eq then readHere u (rAssign r) else retP NilNode) (\<lambda>v.
            next_do (semicolon u) (retP (ClassMember start key v ''field'' static computed))))))"

definition parseClassMember :: "utab \<Rightarrow> pfuns \<Rightarrow> node parser" where
  "parseClassMember u r = look (\<lambda>s. tPos (ptok s)) (\<lambda>start.
     let enders = isAny [LParenT, AssignT, SemicolonT, RBraceT]
     in next_do (skipClassModifiers u) (thenP (staticPrefix u r start) (\<lambda>prefix.
          case prefix of
            Inl block \<Rightarrow> retP block
          | Inr static \<Rightarrow>
              next_do (skipClassModifiers u) (thenP (memberAsync u enders) (\<lambda>async. thenP (eat u StarT) (\<lambda>gen.
                thenP (if \<not> async \<and> \<not> gen then memberAccessor u enders else retP []) (\<lambda>kind.
                  thenP (parsePropertyKey u r) (\<lambda>(key, computed).
                    if kind \<noteq> [] then
                      thenP (parseMethodTail u r start False False) (\<lambda>fn.
                        retP (ClassMember start key fn kind static computed))
                    else classMemberTail u r start static gen async (bare key) computed))))))))"

definition parseClassBody :: "utab \<Rightarrow> pfuns \<Rightarrow> node list parser" where
  "parseClassBody u r = repeatP (\<lambda>body. look (is_kind RBraceT) (\<lambda>closing.
     if closing then retP (Inr body)
     else thenP (eat u SemicolonT) (\<lambda>semi.
       if semi then retP (Inl body)
       else thenP (parseClassMember u r) (\<lambda>m. retP (Inl (body @ [m])))))) []"

definition parseClassExpr :: "utab \<Rightarrow> pfuns \<Rightarrow> expr parser" where
  "parseClassExpr u r = look (\<lambda>s. (tPos (ptok s), pstrict s)) (\<lambda>(start, savedStrict).
     next_do (expect u KeywordT)
       (next_do (modify (\<lambda>s. s\<lparr>pstrict := True\<rparr>)) (deferred (\<lambda>s. s\<lparr>pstrict := savedStrict\<rparr>)
         (thenP (optionalName u (is_kind IdentT)) (\<lambda>name. next_do (skipTypeParams u)
           (thenP (eatKeyword u ''extends'') (\<lambda>ext.
             thenP (if ext then thenP (rCallOrMember r True) (\<lambda>sup. next_do (skipTypeParams u) (retP sup))
                      else retP NilNode) (\<lambda>sup.
               next_do (look (\<lambda>s. ptypescript s \<and> isNamed ''implements'' s) (\<lambda>b. whenP b (advanceUntil u LBraceT)))
                 (next_do (expect u LBraceT) (thenP (parseClassBody u r) (\<lambda>body.
                   next_do (expect u RBraceT) (retP (ClassExpr start name sup body)))))))))))))"

end
