(* ===== verification/ParseOps.thy ===== *)
theory ParseOps
  imports ParseExpr
begin

text \<open>
  The rest of the expression parser: primary expressions, members and calls, the operators by
  precedence climbing, conditionals, arrow functions without or with \<open>async\<close>, assignment.
\<close>

section \<open>Primary expressions\<close>

definition sloppyIdent :: "utab \<Rightarrow> token \<Rightarrow> expr parser" where
  "sloppyIdent u t = next_do (padvance u) (retP (Ident (tPos t) (tValue t)))"

text \<open>\<open>async function\<close>, else \<open>async\<close> alone, as the name \<open>name\<close>.\<close>

definition asyncPrimary :: "utab \<Rightarrow> pfuns \<Rightarrow> token \<Rightarrow> gostring \<Rightarrow> expr parser" where
  "asyncPrimary u r t name = thenP (advanceIf u (\<lambda>s. isKeyword ''function'' s \<and> \<not> afterNewline s)) (\<lambda>b.
     if b then parseFunctionAt u r (tPos t) True else next_do (padvance u) (retP (Ident (tPos t) name)))"

definition importPrimary :: "utab \<Rightarrow> pfuns \<Rightarrow> position \<Rightarrow> expr parser" where
  "importPrimary u r start = next_do (padvance u) (look ptok (\<lambda>t.
     if tKind t = DotT then
       next_do (padvance u) (look (isNamed ''meta'') (\<lambda>b.
         if \<not> b then fail (Msg ''import.meta attendu'')
         else next_do (padvance u) (retP (MetaProperty start (ascii ''import'') (ascii ''meta'')))))
     else if tKind t = LParenT then
       thenP (parseArguments u r) (\<lambda>args. retP (CallExpr start (Ident start (ascii ''import'')) args False))
     else fail (Msg ''import inattendu en position d'expression'')))"

definition keywordPrimary :: "utab \<Rightarrow> pfuns \<Rightarrow> token \<Rightarrow> expr parser" where
  "keywordPrimary u r t =
     (let w = tValue t; start = tPos t in
      if w = ascii ''this'' then next_do (padvance u) (retP (ThisExpr start))
      else if w = ascii ''super'' then next_do (padvance u) (retP (SuperExpr start))
      else if w = ascii ''true'' \<or> w = ascii ''false'' then next_do (padvance u) (retP (BoolLit start (w = ascii ''true'')))
      else if w = ascii ''null'' then next_do (padvance u) (retP (NullLit start))
      else if w = ascii ''function'' then parseFunctionAt u r start False
      else if w = ascii ''class'' then parseClassExpr u r
      else if w = ascii ''async'' then asyncPrimary u r t (ascii ''async'')
      else if w = ascii ''import'' then importPrimary u r start
      else look id (\<lambda>s.
        if \<not> pstrict s \<and> strictOnly w then sloppyIdent u t
        else if w = ascii ''yield'' \<and> \<not> inGenerator s then
          (if pstrict s then fail (Msg ''yield est reserve en mode strict'') else sloppyIdent u t)
        else if w = ascii ''await'' \<and> \<not> inAsync s \<and> \<not> pmodule s then sloppyIdent u t
        else fail (NotExpression t)))"

definition parsePrimary :: "utab \<Rightarrow> pfuns \<Rightarrow> expr parser" where
  "parsePrimary u r = entered (next_do (regexpHere u) (look ptok (\<lambda>t.
     let start = tPos t; v = tValue t in
     if tKind t = NumberT then next_do (padvance u) (retP (NumberLit start v))
     else if tKind t = BigIntT then next_do (padvance u) (retP (BigIntLit start v))
     else if tKind t = StringT then next_do (padvance u) (retP (StringLit start v))
     else if tKind t = RegexpT then next_do (padvance u) (retP (RegExpLit start v))
     else if tKind t = NoSubTemplateT \<or> tKind t = TemplateHeadT then parseTemplate u r
     else if tKind t = PrivateIdentT then next_do (padvance u) (retP (PrivateName start v))
     else if tKind t = IdentT then
       (if v = ascii ''async'' then asyncPrimary u r t (identName v)
        else next_do (padvance u) (retP (Ident start (identName v))))
     else if tKind t = LBracketT then parseArrayLit u r
     else if tKind t = LBraceT then parseObjectLit u r
     else if tKind t = LParenT then parseParenOrArrow u r
     else if tKind t = KeywordT then keywordPrimary u r t
     else fail (NotExpression t))))"

section \<open>Members and calls\<close>

definition propertyNameNode :: "utab \<Rightarrow> expr parser" where
  "propertyNameNode u = look ptok (\<lambda>t. next_do (padvance u)
     (retP (if tKind t = PrivateIdentT then PrivateName (tPos t) (tValue t) else Ident (tPos t) (tValue t))))"

definition propertyAfter :: "utab \<Rightarrow> string \<Rightarrow> expr parser" where
  "propertyAfter u msg = look (\<lambda>s. isName s \<or> is_kind PrivateIdentT s) (\<lambda>b.
     if b then propertyNameNode u else fail (Msg msg))"

definition indexExpr :: "utab \<Rightarrow> pfuns \<Rightarrow> expr parser" where
  "indexExpr u r = next_do (padvance u) (readHere u (thenP (parseExpression u r) (\<lambda>i.
     next_do (expect u RBracketT) (retP i))))"

definition parseNew :: "utab \<Rightarrow> pfuns \<Rightarrow> expr parser" where
  "parseNew u r = look (\<lambda>s. tPos (ptok s)) (\<lambda>start. next_do (padvance u) (look (is_kind DotT) (\<lambda>dot.
     if dot then
       next_do (padvance u) (look (isNamed ''target'') (\<lambda>b.
         if \<not> b then fail (Msg ''new.target attendu'')
         else next_do (padvance u) (retP (MetaProperty start (ascii ''new'') (ascii ''target'')))))
     else thenP (rCallOrMember r False) (\<lambda>callee. look (is_kind LParenT) (\<lambda>paren.
       if paren then thenP (parseArguments u r) (\<lambda>args. retP (NewExpr start callee args))
       else retP (NewExpr start callee []))))))"

text \<open>The chevrons of explicit type arguments; without a call or template behind, back to before.\<close>

definition genericDepth :: "tkind \<Rightarrow> int \<Rightarrow> int" where
  "genericDepth k d =
     (if k = LtT then d + 1 else if k = GtT then d - 1 else if k = ShrT then d - 2 else if k = UShrT then d - 3 else d)"

definition typeArguments :: "utab \<Rightarrow> bool parser" where
  "typeArguments u = look snapshot (\<lambda>sv. next_do (padvance u) (thenP (balanced u genericDepth 1) (\<lambda>d.
     look (\<lambda>s. d \<le> 0 \<and> isAny [LParenT, NoSubTemplateT, TemplateHeadT] s) (\<lambda>valid.
       if valid then retP True else next_do (rewind sv) (retP False)))))"

definition optionalLink :: "utab \<Rightarrow> pfuns \<Rightarrow> bool \<Rightarrow> expr \<Rightarrow> expr parser" where
  "optionalLink u r allowCall e = next_do (padvance u) (look ptok (\<lambda>t.
     if tKind t = LParenT \<and> allowCall then
       thenP (parseArguments u r) (\<lambda>args. retP (CallExpr (nodePos e) e args True))
     else if tKind t = LBracketT then
       thenP (indexExpr u r) (\<lambda>i. retP (MemberExpr (nodePos e) e i True True))
     else thenP (propertyAfter u ''nom de propriete attendu apres ?.'') (\<lambda>p.
       retP (MemberExpr (nodePos e) e p False True))))"

definition memberStep :: "utab \<Rightarrow> pfuns \<Rightarrow> bool \<Rightarrow> expr \<times> bool \<Rightarrow> ((expr \<times> bool) + expr) parser" where
  "memberStep u r allowCall eo = (case eo of (e, seen) \<Rightarrow> look id (\<lambda>s.
     let k = tKind (ptok s); pos = nodePos e; ts = ptypescript s \<and> \<not> afterNewline s in
     if k = DotT then
       next_do (padvance u) (thenP (propertyAfter u ''nom de propriete attendu apres .'') (\<lambda>p.
         retP (Inl (MemberExpr pos e p False False, seen))))
     else if k = QuestionDotT then
       thenP (optionalLink u r allowCall e) (\<lambda>e1. retP (Inl (e1, True)))
     else if k = LBracketT then
       thenP (indexExpr u r) (\<lambda>i. retP (Inl (MemberExpr pos e i True False, seen)))
     else if k = LParenT \<and> allowCall then
       thenP (parseArguments u r) (\<lambda>args. retP (Inl (CallExpr pos e args False, seen)))
     else if k = NoSubTemplateT \<or> k = TemplateHeadT then
       thenP (parseTemplate u r) (\<lambda>q. retP (Inl (TaggedTemplate pos e q, seen)))
     else if ts \<and> k = LtT then
       thenP (typeArguments u) (\<lambda>valid. retP (if valid then Inl (e, seen) else Inr e))
     else if ts \<and> k = NotT then next_do (padvance u) (retP (Inl (e, seen)))
     else if ts \<and> isNamed ''as'' s then
       next_do (padvance u) (next_do (skipTypeAs u) (retP (Inl (e, seen))))
     else retP (Inr (if seen then ChainExpr pos e else e))))"

definition parseCallOrMember :: "utab \<Rightarrow> pfuns \<Rightarrow> bool \<Rightarrow> expr parser" where
  "parseCallOrMember u r allowCall = entered (look (isKeyword ''new'') (\<lambda>b.
     thenP (if b then parseNew u r else rPrimary r) (\<lambda>e.
       repeatP (memberStep u r allowCall) (e, False))))"

section \<open>Operators\<close>

definition incDec :: "pst \<Rightarrow> bool" where
  "incDec s \<longleftrightarrow> is_kind PlusPlusT s \<or> is_kind MinusMinusT s"

definition badIncrement :: parseErr where "badIncrement = Msg ''cible d'incrementation invalide''"

definition parsePostfix :: "utab \<Rightarrow> pfuns \<Rightarrow> expr parser" where
  "parsePostfix u r = thenP (rCallOrMember r True) (\<lambda>e.
     look (\<lambda>s. (incDec s \<and> \<not> afterNewline s, tValue (ptok s))) (\<lambda>(b, op).
       if \<not> b then retP e
       else if \<not> isSimpleTarget e then failAt badIncrement (nodePos e)
       else next_do (padvance u) (retP (UpdateExpr (nodePos e) op False e))))"

definition unaryOps :: "(tkind \<times> gostring) list" where
  "unaryOps = [(NotT, ascii ''!''), (TildeT, ascii ''~''), (PlusT, ascii ''+''), (MinusT, ascii ''-'')]"

definition parseUnary :: "utab \<Rightarrow> pfuns \<Rightarrow> expr parser" where
  "parseUnary u r = entered (look id (\<lambda>s.
     let t = ptok s; start = tPos t;
         operand = (\<lambda>f. next_do (padvance u) (readHere u (thenP (rUnary r) f)))
     in case map_of unaryOps (tKind t) of
          Some op \<Rightarrow> operand (\<lambda>e. retP (UnaryExpr start op e))
        | None \<Rightarrow>
            if isKeyword ''typeof'' s \<or> isKeyword ''void'' s \<or> isKeyword ''delete'' s
            then operand (\<lambda>e. retP (UnaryExpr start (tValue t) e))
            else if isKeyword ''await'' s \<and> (inAsync s \<or> (pmodule s \<and> \<not> inFunction s))
            then operand (\<lambda>e. retP (AwaitExpr start e))
            else if incDec s
            then operand (\<lambda>e. if isSimpleTarget e then retP (UpdateExpr start (tValue t) True e)
                              else failAt badIncrement (nodePos e))
            else parsePostfix u r))"

record binOp =
  opText :: gostring
  opPrec :: nat
  opLogic :: bool

definition mkOp :: "string \<Rightarrow> nat \<Rightarrow> bool \<Rightarrow> binOp" where
  "mkOp t p l = \<lparr>opText = ascii t, opPrec = p, opLogic = l\<rparr>"

definition binOps :: "(tkind \<times> binOp) list" where
  "binOps = [
     (QuestionQuestionT, mkOp ''??'' 1 True),
     (OrOrT, mkOp ''||'' 2 True),
     (AndAndT, mkOp ''&&'' 3 True),
     (OrT, mkOp ''|'' 4 False),
     (XorT, mkOp ''^'' 5 False),
     (AndT, mkOp ''&'' 6 False),
     (EqEqT, mkOp ''=='' 7 False),
     (NotEqT, mkOp ''!='' 7 False),
     (EqEqEqT, mkOp ''==='' 7 False),
     (NotEqEqT, mkOp ''!=='' 7 False),
     (LtT, mkOp ''<'' 8 False),
     (GtT, mkOp ''>'' 8 False),
     (LeT, mkOp ''<='' 8 False),
     (GeT, mkOp ''>='' 8 False),
     (ShlT, mkOp ''<<'' 9 False),
     (ShrT, mkOp ''>>'' 9 False),
     (UShrT, mkOp ''>>>'' 9 False),
     (PlusT, mkOp ''+'' 10 False),
     (MinusT, mkOp ''-'' 10 False),
     (StarT, mkOp ''*'' 11 False),
     (SlashT, mkOp ''/'' 11 False),
     (PercentT, mkOp ''%'' 11 False),
     (StarStarT, mkOp ''**'' 12 False)]"

definition currentOp :: "pst \<Rightarrow> binOp option" where
  "currentOp s =
     (if isKeyword ''instanceof'' s then Some (mkOp ''instanceof'' 8 False)
      else if isKeyword ''in'' s \<and> \<not> noIn s then Some (mkOp ''in'' 8 False)
      else map_of binOps (tKind (ptok s)))"

definition mixesNullish :: "gostring \<Rightarrow> expr \<Rightarrow> bool" where
  "mixesNullish op operand =
     (case operand of
        LogicalExpr _ lop _ _ \<Rightarrow>
          if op = ascii ''??'' then lop = ascii ''&&'' \<or> lop = ascii ''||''
          else if op = ascii ''&&'' \<or> op = ascii ''||'' then lop = ascii ''??''
          else False
      | _ \<Rightarrow> False)"

definition unaryLeft :: "expr \<Rightarrow> bool" where
  "unaryLeft e = (case e of UnaryExpr _ _ _ \<Rightarrow> True | AwaitExpr _ _ \<Rightarrow> True | _ \<Rightarrow> False)"

definition mixMsg :: parseErr where
  "mixMsg = Msg ''?? ne peut se meler a && ou || sans parentheses''"

definition binStep :: "utab \<Rightarrow> pfuns \<Rightarrow> nat \<Rightarrow> expr \<Rightarrow> (expr + expr) parser" where
  "binStep u r minPrec left = look currentOp (\<lambda>found.
     case found of
       None \<Rightarrow> retP (Inr left)
     | Some bop \<Rightarrow>
         if opPrec bop < minPrec then retP (Inr left)
         else if mixesNullish (opText bop) left then fail mixMsg
         else if opText bop = ascii ''**'' \<and> unaryLeft left
         then failAt (Msg ''un operande unaire non parenthese ne peut preceder **'') (nodePos left)
         else
           next_do (padvance u) (readHere u
             (thenP (rBinary r (if opText bop = ascii ''**'' then opPrec bop else opPrec bop + 1)) (\<lambda>right.
                if mixesNullish (opText bop) right then failAt mixMsg (nodePos right)
                else retP (Inl ((if opLogic bop then LogicalExpr else BinaryExpr) (nodePos left) (opText bop) left right))))))"

definition parseBinary :: "utab \<Rightarrow> pfuns \<Rightarrow> nat \<Rightarrow> expr parser" where
  "parseBinary u r minPrec = entered (thenP (rUnary r) (repeatP (binStep u r minPrec)))"

definition parseConditional :: "utab \<Rightarrow> pfuns \<Rightarrow> expr parser" where
  "parseConditional u r = look (\<lambda>s. tPos (ptok s)) (\<lambda>start. thenP (rBinary r 0) (\<lambda>test.
     look (is_kind QuestionT) (\<lambda>question.
       if \<not> question then retP test
       else thenP
         (look ptypescript (\<lambda>ts.
            if ts then peekNext u (isAny [ColonT, CommaT, RParenT, AssignT, RBraceT]) else retP False))
         (\<lambda>isOptional.
            if isOptional then retP test
            else next_do (padvance u) (readHere u (thenP (rAssign r) (\<lambda>cons.
              next_do (expect u ColonT) (readHere u (thenP (rAssign r) (\<lambda>alt.
                retP (ConditionalExpr start test cons alt)))))))))))"

section \<open>Assignment\<close>

definition startsExpression :: "pst \<Rightarrow> bool" where
  "startsExpression s \<longleftrightarrow> \<not> isAny [EOFT, SemicolonT, RBraceT, RParenT, RBracketT, CommaT, ColonT] s"

definition parseYield :: "utab \<Rightarrow> pfuns \<Rightarrow> expr parser" where
  "parseYield u r = look (\<lambda>s. tPos (ptok s)) (\<lambda>start. next_do (padvance u) (look afterNewline (\<lambda>nl.
     if nl then retP (YieldExpr start NilNode False)
     else thenP (eat u StarT) (\<lambda>star.
       if star then readHere u (thenP (rAssign r) (\<lambda>x. retP (YieldExpr start x True)))
       else look startsExpression (\<lambda>b.
         if b then readHere u (thenP (rAssign r) (\<lambda>x. retP (YieldExpr start x False)))
         else retP (YieldExpr start NilNode False))))))"

text \<open>A syntax error of a speculative read is recovered, with the depth before.\<close>

definition attempt :: "'a parser \<Rightarrow> 'a option parser" where
  "attempt p s =
     (case p s of
        Done x s1 \<Rightarrow> Done (Some x) s1
      | Panic m q s1 \<Rightarrow> Done None (s1\<lparr>depth := depth s\<rparr>)
      | Stuck \<Rightarrow> Stuck)"

definition trySpeculativeParenList :: "utab \<Rightarrow> pfuns \<Rightarrow> expr list option parser" where
  "trySpeculativeParenList u r = attempt (next_do (expect u LParenT)
     (thenP
       (repeatP (\<lambda>out. look ptok (\<lambda>t.
          if tKind t = RParenT then retP (Inr out)
          else if tKind t = EllipsisT then
            next_do (padvance u) (readHere u (thenP (rAssign r) (\<lambda>x. retP (Inr (out @ [RestElement (tPos t) x])))))
          else readHere u (thenP (rAssign r) (\<lambda>x. thenP (eat u CommaT) (\<lambda>more.
            retP (if more then Inl (out @ [x]) else Inr (out @ [x]))))))) [])
       (\<lambda>out. next_do (expect u RParenT) (retP out))))"

text \<open>\<open>x => ...\<close>: the arrow function, or \<open>NilNode\<close> and nothing read.\<close>

definition identArrow :: "utab \<Rightarrow> pfuns \<Rightarrow> position \<Rightarrow> bool \<Rightarrow> expr parser" where
  "identArrow u r start async = look ptok (\<lambda>t.
     if tKind t \<noteq> IdentT then retP NilNode
     else thenP (advanceIf u isArrow) (\<lambda>b.
       if b then next_do (padvance u) (parseArrowBody u r [Ident (tPos t) (tValue t)] start async)
       else retP NilNode))"

definition tryAsyncArrow :: "utab \<Rightarrow> pfuns \<Rightarrow> expr parser" where
  "tryAsyncArrow u r = look (\<lambda>s. (snapshot s, tPos (ptok s))) (\<lambda>(sv, start).
     let back = next_do (rewind sv) (retP NilNode)
     in next_do (padvance u) (look afterNewline (\<lambda>nl.
          if nl then back
          else thenP (identArrow u r start True) (\<lambda>arrow.
            if arrow \<noteq> NilNode then retP arrow
            else look (is_kind LParenT) (\<lambda>paren.
              if \<not> paren then back
              else thenP (trySpeculativeParenList u r) (\<lambda>items.
                case items of
                  None \<Rightarrow> back
                | Some es \<Rightarrow> look isArrow (\<lambda>b.
                    if b then next_do (padvance u) (parseArrowBody u r es start True) else back)))))))"

definition assignOps :: "(tkind \<times> gostring) list" where
  "assignOps = [
     (AssignT, ascii ''=''), (PlusAssignT, ascii ''+=''), (MinusAssignT, ascii ''-=''),
     (StarAssignT, ascii ''*=''), (SlashAssignT, ascii ''/=''), (PercentAssignT, ascii ''%=''),
     (StarStarAssignT, ascii ''**=''), (ShlAssignT, ascii ''<<=''), (ShrAssignT, ascii ''>>=''),
     (UShrAssignT, ascii ''>>>=''), (AndAssignT, ascii ''&=''), (OrAssignT, ascii ''|=''),
     (XorAssignT, ascii ''^=''), (AndAndAssignT, ascii ''&&=''), (OrOrAssignT, ascii ''||=''),
     (QuestionQuestionAssignT, ascii ''??='')]"

definition notATarget :: "node \<Rightarrow> bool" where
  "notATarget e = (case e of AssignPattern _ _ _ \<Rightarrow> True | RestElement _ _ \<Rightarrow> True | _ \<Rightarrow> False)"

definition badAssignTarget :: parseErr where "badAssignTarget = Msg ''cible d'affectation invalide''"

definition assignTarget :: "gostring \<Rightarrow> expr \<Rightarrow> expr parser" where
  "assignTarget op left =
     (if op = ascii ''='' then
        thenP (toPatternP left) (\<lambda>target. if notATarget target then failAt badAssignTarget (nodePos left) else retP target)
      else if \<not> isSimpleTarget left then failAt badAssignTarget (nodePos left)
      else retP left)"

definition assignmentTail :: "utab \<Rightarrow> pfuns \<Rightarrow> position \<Rightarrow> expr \<Rightarrow> expr parser" where
  "assignmentTail u r start left = look (\<lambda>s. map_of assignOps (tKind (ptok s))) (\<lambda>found.
     case found of
       None \<Rightarrow> retP left
     | Some op \<Rightarrow> next_do (padvance u) (readHere u (thenP (assignTarget op left) (\<lambda>target.
         thenP (rAssign r) (\<lambda>right. retP (AssignExpr start op target right))))))"

definition parseAssign :: "utab \<Rightarrow> pfuns \<Rightarrow> expr parser" where
  "parseAssign u r = entered (look (\<lambda>s. inGenerator s \<and> isKeyword ''yield'' s) (\<lambda>yields.
     if yields then parseYield u r
     else look (\<lambda>s. tPos (ptok s)) (\<lambda>start.
       thenP (identArrow u r start False) (\<lambda>arrow.
         if arrow \<noteq> NilNode then retP arrow
         else thenP
           (look (\<lambda>s. isKeyword ''async'' s \<or> isIdentText ''async'' s) (\<lambda>async.
              if async then tryAsyncArrow u r else retP NilNode))
           (\<lambda>arrow1.
              if arrow1 \<noteq> NilNode then retP arrow1
              else thenP (parseConditional u r) (assignmentTail u r start))))))"

end
