(* ===== verification/ParseStmt.thy ===== *)
theory ParseStmt
  imports ParseOps
begin

text \<open>
  Statements and modules (\<open>stmt.go\<close>), the knot of the recursive descent, and \<open>Parse\<close>.
\<close>

section \<open>Declarations\<close>

definition letStartsDeclaration :: "utab \<Rightarrow> bool parser" where
  "letStartsDeclaration u = peekNext u (\<lambda>s. isAny [IdentT, LBracketT, LBraceT] s \<or> sloppyName s)"

definition importIsDeclaration :: "utab \<Rightarrow> bool parser" where
  "importIsDeclaration u = peekNext u (\<lambda>s. \<not> isAny [LParenT, DotT] s)"

definition parseBindingTarget :: "utab \<Rightarrow> pfuns \<Rightarrow> expr parser" where
  "parseBindingTarget u r = look id (\<lambda>s.
     let t = ptok s; named = (\<lambda>name. next_do (padvance u) (retP (Ident (tPos t) name))) in
     if isAny [LBracketT, LBraceT] s then thenP (rPrimary r) toPatternP
     else if tKind t = IdentT then named (identName (tValue t))
     else if sloppyName s \<or> (isKeyword ''yield'' s \<and> \<not> inGenerator s \<and> \<not> pstrict s)
             \<or> (isKeyword ''await'' s \<and> \<not> inAsync s \<and> \<not> pmodule s)
     then named (tValue t)
     else fail (Msg ''nom lie attendu''))"

text \<open>A declarator; \<open>bang\<close> is the assertion of assignment that only a list outside a \<open>for\<close> admits.\<close>

definition initialiser :: "utab \<Rightarrow> pfuns \<Rightarrow> expr parser" where
  "initialiser u r = thenP (eat u AssignT) (\<lambda>eq. if eq then readHere u (rAssign r) else retP NilNode)"

definition declarator :: "utab \<Rightarrow> pfuns \<Rightarrow> bool \<Rightarrow> node parser" where
  "declarator u r bang = look (\<lambda>s. (tPos (ptok s), ptypescript s)) (\<lambda>(dStart, ts).
     thenP (parseBindingTarget u r) (\<lambda>target.
       next_do (whenP ts (next_do (whenP bang (next_do (eat u NotT) (retP ()))) (skipTypeAnnotation u)))
         (thenP (initialiser u r) (\<lambda>init. retP (VarDeclarator dStart target init)))))"

definition parseVarDeclList :: "utab \<Rightarrow> pfuns \<Rightarrow> gostring \<Rightarrow> position \<Rightarrow> node parser" where
  "parseVarDeclList u r kind start = repeatP (\<lambda>decls. thenP (declarator u r True) (\<lambda>d.
     thenP (eat u CommaT) (\<lambda>more.
       retP (if more then Inl (decls @ [d]) else Inr (VarDecl start kind (decls @ [d])))))) []"

definition parseVarDecl :: "utab \<Rightarrow> pfuns \<Rightarrow> gostring \<Rightarrow> stmt parser" where
  "parseVarDecl u r kind = look (\<lambda>s. tPos (ptok s)) (\<lambda>start. next_do (padvance u)
     (thenP (parseVarDeclList u r kind start) (\<lambda>d. next_do (semicolon u) (retP d))))"

section \<open>Conditions and loops\<close>

definition parenExpr :: "utab \<Rightarrow> pfuns \<Rightarrow> expr parser" where
  "parenExpr u r = next_do (expect u LParenT) (readHere u (thenP (parseExpression u r) (\<lambda>e.
     next_do (expect u RParenT) (retP e))))"

definition parseIf :: "utab \<Rightarrow> pfuns \<Rightarrow> stmt parser" where
  "parseIf u r = look (\<lambda>s. tPos (ptok s)) (\<lambda>start. next_do (padvance u)
     (thenP (parenExpr u r) (\<lambda>test. readHere u (thenP (rStatement r) (\<lambda>cons.
       thenP (eatKeyword u ''else'') (\<lambda>b.
         thenP (if b then readHere u (rStatement r) else retP NilNode) (\<lambda>alt.
           retP (IfStmt start test cons alt))))))))"

definition iterationBy :: "int \<Rightarrow> unit parser" where
  "iterationBy n = modify (\<lambda>s. s\<lparr>inIteration := inIteration s + n\<rparr>)"

definition inLoop :: "'a parser \<Rightarrow> 'a parser" where
  "inLoop p = next_do (iterationBy 1) (deferred (\<lambda>s. s\<lparr>inIteration := inIteration s - 1\<rparr>) p)"

definition parseWhile :: "utab \<Rightarrow> pfuns \<Rightarrow> stmt parser" where
  "parseWhile u r = look (\<lambda>s. tPos (ptok s)) (\<lambda>start. next_do (padvance u)
     (thenP (parenExpr u r) (\<lambda>test. inLoop (readHere u (thenP (rStatement r) (\<lambda>body.
       retP (WhileStmt start test body)))))))"

text \<open>Here the counter is reset by a statement and not by \<open>defer\<close>.\<close>

definition parseDoWhile :: "utab \<Rightarrow> pfuns \<Rightarrow> stmt parser" where
  "parseDoWhile u r = look (\<lambda>s. tPos (ptok s)) (\<lambda>start. next_do (padvance u)
     (next_do (iterationBy 1) (readHere u (thenP (rStatement r) (\<lambda>body.
       next_do (iterationBy (- 1)) (thenP (eatKeyword u ''while'') (\<lambda>b.
         if \<not> b then fail (Msg ''while attendu apres le corps d'un do'')
         else thenP (parenExpr u r) (\<lambda>test. next_do (eat u SemicolonT) (retP (DoWhileStmt start body test)))))))))) "

definition parseForTail :: "utab \<Rightarrow> pfuns \<Rightarrow> position \<Rightarrow> node \<Rightarrow> stmt parser" where
  "parseForTail u r start init =
     thenP (look (is_kind SemicolonT) (\<lambda>b. if b then retP NilNode else readHere u (parseExpression u r))) (\<lambda>test.
       next_do (expect u SemicolonT)
         (thenP (look (is_kind RParenT) (\<lambda>b. if b then retP NilNode else readHere u (parseExpression u r))) (\<lambda>update.
            next_do (expect u RParenT) (readHere u (thenP (rStatement r) (\<lambda>body.
              retP (ForStmt start init test update body)))))))"

definition inOrOf :: "pst \<Rightarrow> bool" where
  "inOrOf s \<longleftrightarrow> isKeyword ''in'' s \<or> isNamed ''of'' s"

definition isOf :: "pst \<Rightarrow> bool" where
  "isOf s \<longleftrightarrow> tValue (ptok s) = ascii ''of''"

definition forInRight :: "utab \<Rightarrow> pfuns \<Rightarrow> expr parser" where
  "forInRight u r = next_do (padvance u) (readHere u (thenP (rAssign r) (\<lambda>right.
     next_do (expect u RParenT) (readHere u (retP right)))))"

text \<open>\<open>checkForDeclEarlyErrors\<close>; which redeclared name is reported depends on the order of a Go map.\<close>

definition checkForDeclEarlyErrors :: "expr \<Rightarrow> stmt \<Rightarrow> unit parser" where
  "checkForDeclEarlyErrors target body =
     (case boundNameDup target [] of (dup, seen) \<Rightarrow>
        if dup \<noteq> [] then fail (BoundTwice dup)
        else if ascii ''let'' \<in> set seen then fail (Msg ''let n'est pas un nom lie licite'')
        else if set seen \<inter> set (collectVarDeclaredNames body) \<noteq> {} then fail (Msg ''redeclaration'')
        else retP ())"

definition lexicalKind :: "gostring \<Rightarrow> bool" where
  "lexicalKind kind \<longleftrightarrow> kind = ascii ''let'' \<or> kind = ascii ''const''"

definition forDeclaration :: "utab \<Rightarrow> pfuns \<Rightarrow> position \<Rightarrow> bool \<Rightarrow> bool \<Rightarrow> bool \<Rightarrow> stmt parser" where
  "forDeclaration u r start aw awaitUsing usingDecl = look ptok (\<lambda>t.
     let kind = (if usingDecl then ascii ''const'' else tValue t); declStart = tPos t in
     next_do (next_do (whenP awaitUsing (padvance u)) (padvance u))
       (thenP (parseBindingTarget u r) (\<lambda>target. next_do (annotated u)
         (next_do (if lexicalKind kind \<and> fst (boundNameDup target []) \<noteq> []
                   then fail (BoundTwice (fst (boundNameDup target []))) else retP ())
           (look (\<lambda>s. (inOrOf s, isOf s)) (\<lambda>(each, ofs).
              if each then
                thenP (forInRight u r) (\<lambda>right. thenP (rStatement r) (\<lambda>body.
                  next_do (if lexicalKind kind then checkForDeclEarlyErrors target body else retP ())
                    (retP (ForInStmt start (VarDecl declStart kind [VarDeclarator (nodePos target) target NilNode])
                            right body ofs aw))))
              else
                thenP (initialiser u r) (\<lambda>init.
                  thenP (repeatP (\<lambda>decls. thenP (eat u CommaT) (\<lambda>more.
                      if \<not> more then retP (Inr decls)
                      else thenP (declarator u r False) (\<lambda>d. retP (Inl (decls @ [d])))))
                    [VarDeclarator (nodePos target) target init])
                  (\<lambda>decls. next_do (expect u SemicolonT) (parseForTail u r start (VarDecl declStart kind decls))))))))))"

text \<open>\<open>noIn\<close> is reset by an assignment, not by \<open>defer\<close>, and not to what it was.\<close>

definition forExpression :: "utab \<Rightarrow> pfuns \<Rightarrow> position \<Rightarrow> bool \<Rightarrow> stmt parser" where
  "forExpression u r start aw = next_do (modify (\<lambda>s. s\<lparr>noIn := True\<rparr>)) (readHere u
     (look (isIdentText ''async'') (\<lambda>forbidAsyncOf. thenP (parseExpression u r) (\<lambda>e.
       next_do (modify (\<lambda>s. s\<lparr>noIn := False\<rparr>))
         (look (\<lambda>s. (inOrOf s, isOf s)) (\<lambda>(each, ofs).
            if \<not> each then next_do (expect u SemicolonT) (parseForTail u r start e)
            else if ofs \<and> forbidAsyncOf \<and> isIdentNode (bare e) then fail (Msg ''async of est interdit'')
            else thenP (forInRight u r) (\<lambda>right. thenP (toPatternP e) (\<lambda>left.
                   thenP (rStatement r) (\<lambda>body. retP (ForInStmt start left right body ofs aw))))))))))"

definition declarationStarts :: "utab \<Rightarrow> bool parser" where
  "declarationStarts u = look (\<lambda>s. (isKeyword ''var'' s \<or> isKeyword ''const'' s, isKeyword ''let'' s)) (\<lambda>(b, l).
     if b then retP True else if l then letStartsDeclaration u else retP False)"

definition parseForHeader :: "utab \<Rightarrow> pfuns \<Rightarrow> position \<Rightarrow> bool \<Rightarrow> stmt parser" where
  "parseForHeader u r start aw =
     thenP (look (isKeyword ''await'') (\<lambda>b. if b then peekNext u (isIdentText ''using'') else retP False)) (\<lambda>awaitUsing.
       thenP (look (\<lambda>s. isIdentText ''using'' s \<or> awaitUsing) (\<lambda>b.
                  if b then peekNext u (isAny [IdentT, LBracketT, LBraceT]) else retP False)) (\<lambda>usingDecl.
         thenP (declarationStarts u) (\<lambda>decl.
           if decl \<or> usingDecl then forDeclaration u r start aw awaitUsing usingDecl
           else forExpression u r start aw)))"

definition parseFor :: "utab \<Rightarrow> pfuns \<Rightarrow> stmt parser" where
  "parseFor u r = look (\<lambda>s. tPos (ptok s)) (\<lambda>start. next_do (padvance u)
     (thenP (look (\<lambda>s. isKeyword ''await'' s \<and> (inAsync s \<or> pmodule s)) (\<lambda>b.
                 if b then advanceIf u (\<lambda>s. \<not> isIdentText ''using'' s) else retP False)) (\<lambda>aw.
        next_do (expect u LParenT) (inLoop (look (is_kind SemicolonT) (\<lambda>b.
          if b then next_do (padvance u) (parseForTail u r start NilNode)
          else parseForHeader u r start aw))))))"

section \<open>Jumps and handlers\<close>

definition parseReturn :: "utab \<Rightarrow> pfuns \<Rightarrow> stmt parser" where
  "parseReturn u r = look (\<lambda>s. tPos (ptok s)) (\<lambda>start. next_do (padvance u)
     (thenP (look (\<lambda>s. isAny [SemicolonT, RBraceT, EOFT] s \<or> afterNewline s) (\<lambda>b.
                 if b then retP NilNode else readHere u (parseExpression u r))) (\<lambda>arg.
        next_do (semicolon u) (retP (ReturnStmt start arg)))))"

definition parseBreakContinue :: "utab \<Rightarrow> stmt parser" where
  "parseBreakContinue u = look ptok (\<lambda>t. next_do (padvance u)
     (thenP (optionalName u (\<lambda>s. is_kind IdentT s \<and> \<not> afterNewline s)) (\<lambda>label. next_do (semicolon u)
        (retP (if tValue t = ascii ''break'' then BreakStmt (tPos t) label else ContinueStmt (tPos t) label)))))"

definition parseThrow :: "utab \<Rightarrow> pfuns \<Rightarrow> stmt parser" where
  "parseThrow u r = look (\<lambda>s. tPos (ptok s)) (\<lambda>start. next_do (padvance u) (look afterNewline (\<lambda>nl.
     if nl then fail (Msg ''throw ne peut etre suivi d'un saut de ligne'')
     else readHere u (thenP (parseExpression u r) (\<lambda>arg. next_do (semicolon u) (retP (ThrowStmt start arg)))))))"

definition parseCatch :: "utab \<Rightarrow> pfuns \<Rightarrow> node parser" where
  "parseCatch u r = look (\<lambda>s. (isKeyword ''catch'' s, tPos (ptok s))) (\<lambda>(b, cStart).
     if \<not> b then retP NilNode
     else next_do (padvance u) (thenP (eat u LParenT) (\<lambda>paren.
       thenP (if paren then thenP (parseBindingTarget u r) (\<lambda>param.
                  next_do (annotated u) (next_do (expect u RParenT) (retP param)))
                else retP NilNode) (\<lambda>param.
         thenP (parseBlock u r) (\<lambda>body. retP (CatchClause cStart param body))))))"

definition parseTry :: "utab \<Rightarrow> pfuns \<Rightarrow> stmt parser" where
  "parseTry u r = look (\<lambda>s. tPos (ptok s)) (\<lambda>start. next_do (padvance u)
     (thenP (parseBlock u r) (\<lambda>block. thenP (parseCatch u r) (\<lambda>handler.
       thenP (eatKeyword u ''finally'') (\<lambda>b.
         thenP (if b then parseBlock u r else retP NilNode) (\<lambda>finalizer.
           if handler = NilNode \<and> finalizer = NilNode
           then failAt (Msg ''try exige catch ou finally'') start
           else retP (TryStmt start block handler finalizer)))))))"

definition caseEnd :: "pst \<Rightarrow> bool" where
  "caseEnd s \<longleftrightarrow> is_kind RBraceT s \<or> isKeyword ''case'' s \<or> isKeyword ''default'' s"

definition switchEof :: parseErr where "switchEof = Msg ''} attendu pour clore le switch''"

definition caseBody :: "utab \<Rightarrow> pfuns \<Rightarrow> stmt list parser" where
  "caseBody u r = repeatP (\<lambda>body. look (\<lambda>s. (caseEnd s, is_kind EOFT s)) (\<lambda>(closing, eof).
     if closing then retP (Inr body)
     else if eof then fail switchEof
     else thenP (rItem r) (\<lambda>st. retP (Inl (body @ [st]))))) []"

text \<open>The test of a case, or \<open>NilNode\<close> for the default, and whether a default was seen.\<close>

definition caseLabel :: "utab \<Rightarrow> pfuns \<Rightarrow> position \<Rightarrow> bool \<Rightarrow> (expr \<times> bool) parser" where
  "caseLabel u r cStart seenDefault = thenP (eatKeyword u ''case'') (\<lambda>isCase.
     if isCase then readHere u (thenP (parseExpression u r) (\<lambda>e. retP (e, seenDefault)))
     else thenP (eatKeyword u ''default'') (\<lambda>isDefault.
       if \<not> isDefault then fail (Msg ''case ou default attendu'')
       else if seenDefault then failAt (Msg ''un switch n'admet qu'un seul default'') cStart
       else retP (NilNode, True)))"

definition switchCases :: "utab \<Rightarrow> pfuns \<Rightarrow> node list parser" where
  "switchCases u r = repeatP (\<lambda>(cases, seenDefault). look ptok (\<lambda>t.
     if tKind t = RBraceT then retP (Inr cases)
     else if tKind t = EOFT then fail switchEof
     else thenP (caseLabel u r (tPos t) seenDefault) (\<lambda>(test, seen).
       next_do (expect u ColonT) (thenP (caseBody u r) (\<lambda>body.
         retP (Inl (cases @ [SwitchCase (tPos t) test body], seen))))))) ([], False)"

definition parseSwitch :: "utab \<Rightarrow> pfuns \<Rightarrow> stmt parser" where
  "parseSwitch u r = look (\<lambda>s. tPos (ptok s)) (\<lambda>start. next_do (padvance u)
     (thenP (parenExpr u r) (\<lambda>disc. next_do (expect u LBraceT)
       (next_do (modify (\<lambda>s. s\<lparr>inSwitch := inSwitch s + 1\<rparr>)) (deferred (\<lambda>s. s\<lparr>inSwitch := inSwitch s - 1\<rparr>)
         (thenP (switchCases u r) (\<lambda>cases. next_do (expect u RBraceT) (retP (SwitchStmt start disc cases)))))))))"

definition parseWith :: "utab \<Rightarrow> pfuns \<Rightarrow> stmt parser" where
  "parseWith u r = look (\<lambda>s. tPos (ptok s)) (\<lambda>start. next_do (padvance u)
     (thenP (parenExpr u r) (\<lambda>obj. readHere u (thenP (rStatement r) (\<lambda>body. retP (WithStmt start obj body))))))"

section \<open>Modules\<close>

definition nameHere :: "utab \<Rightarrow> node parser" where
  "nameHere u = look ptok (\<lambda>t. next_do (padvance u) (retP (Ident (tPos t) (tValue t))))"

definition needName :: "utab \<Rightarrow> string \<Rightarrow> string \<Rightarrow> unit parser" where
  "needName u w msg = look (isNamed w) (\<lambda>b. if b then padvance u else fail (Msg msg))"

definition moduleSource :: "utab \<Rightarrow> expr parser" where
  "moduleSource u = look ptok (\<lambda>t.
     if tKind t \<noteq> StringT then fail (Msg ''chaine de module attendue'')
     else next_do (padvance u) (retP (StringLit (tPos t) (tValue t))))"

text \<open>\<open>name\<close> or \<open>name as other\<close> in braces.\<close>

definition specifiers :: "utab \<Rightarrow> (pst \<Rightarrow> bool) \<Rightarrow> string \<Rightarrow> (node \<Rightarrow> node \<Rightarrow> node) \<Rightarrow> node list \<Rightarrow> node list parser" where
  "specifiers u nameOk msg mk acc0 = next_do (padvance u)
     (thenP
       (repeatP (\<lambda>acc. look (\<lambda>s. (is_kind RBraceT s, nameOk s)) (\<lambda>(closing, ok).
          if closing then retP (Inr acc)
          else if \<not> ok then fail (Msg msg)
          else thenP (nameHere u) (\<lambda>name. look (isNamed ''as'') (\<lambda>b.
            thenP (if b then next_do (padvance u) (nameHere u) else retP name) (\<lambda>other.
              thenP (eat u CommaT) (\<lambda>more.
                retP (if more then Inl (acc @ [mk name other]) else Inr (acc @ [mk name other])))))))) acc0)
       (\<lambda>acc. next_do (expect u RBraceT) (retP acc)))"

definition skipToSemicolon :: "utab \<Rightarrow> position \<Rightarrow> stmt parser" where
  "skipToSemicolon u start = next_do (advanceUntil u SemicolonT) (next_do (eat u SemicolonT) (retP (EmptyStmt start)))"

definition typeImport :: "utab \<Rightarrow> bool parser" where
  "typeImport u = look (\<lambda>s. ptypescript s \<and> isNamed ''type'' s) (\<lambda>b.
     if b then advanceIf u (\<lambda>s. isAny [LBraceT, StarT] s \<or> (isName s \<and> tValue (ptok s) \<noteq> ascii ''from''))
     else retP False)"

definition importSpecifiers :: "utab \<Rightarrow> node list parser" where
  "importSpecifiers u = thenP
     (look ptok (\<lambda>t. if tKind t \<noteq> IdentT then retP []
        else next_do (padvance u) (next_do (eat u CommaT)
          (retP [ImportSpecifier (tPos t) NilNode (Ident (tPos t) (tValue t)) ''default'']))))
     (\<lambda>defaults. look ptok (\<lambda>t.
        if tKind t = StarT then
          next_do (padvance u) (next_do (needName u ''as'' ''as attendu apres *'') (thenP (nameHere u) (\<lambda>local.
            retP (defaults @ [ImportSpecifier (tPos t) NilNode local ''namespace'']))))
        else if tKind t = LBraceT then
          specifiers u (\<lambda>s. isName s \<or> is_kind StringT s) ''nom importe attendu''
            (\<lambda>imported local. ImportSpecifier (nodePos imported) imported local ''named'') defaults
        else retP defaults))"

definition parseImportDecl :: "utab \<Rightarrow> stmt parser" where
  "parseImportDecl u = look (\<lambda>s. tPos (ptok s)) (\<lambda>start. next_do (padvance u)
     (thenP (typeImport u) (\<lambda>types.
       if types then skipToSemicolon u start
       else look (is_kind StringT) (\<lambda>plain.
         if plain then thenP (moduleSource u) (\<lambda>src. next_do (semicolon u) (retP (ImportDecl start [] src)))
         else thenP (importSpecifiers u) (\<lambda>specs. next_do (needName u ''from'' ''from attendu'')
           (thenP (moduleSource u) (\<lambda>src. next_do (semicolon u) (retP (ImportDecl start specs src)))))))))"

definition interfaceHead :: "utab \<Rightarrow> unit parser" where
  "interfaceHead u = next_do (padvance u) (next_do (look (is_kind IdentT) (\<lambda>b. whenP b (padvance u)))
     (next_do (skipTypeParams u) (thenP (eatKeyword u ''extends'') (\<lambda>ext. whenP ext (advanceUntil u LBraceT)))))"

definition exportDefault :: "utab \<Rightarrow> pfuns \<Rightarrow> position \<Rightarrow> stmt parser" where
  "exportDefault u r start = look (\<lambda>s. (isKeyword ''function'' s, isKeyword ''class'' s, tPos (ptok s))) (\<lambda>(fn, cl, q).
     if fn then thenP (parseFunctionAt u r q False) (\<lambda>f.
       retP (ExportDecl start (FunctionDecl q f) [] NilNode True False NilNode))
     else if cl then thenP (parseClassExpr u r) (\<lambda>c.
       retP (ExportDecl start (ClassDecl q c) [] NilNode True False NilNode))
     else readHere u (thenP (rAssign r) (\<lambda>e. next_do (semicolon u)
       (retP (ExportDecl start NilNode [] NilNode True False e)))))"

definition exportStar :: "utab \<Rightarrow> position \<Rightarrow> stmt parser" where
  "exportStar u start = next_do (padvance u)
     (thenP (look (isNamed ''as'') (\<lambda>b.
        if b then next_do (padvance u) (thenP (nameHere u) (\<lambda>x. retP [ExportSpecifier (nodePos x) NilNode x]))
        else retP [])) (\<lambda>specs.
       next_do (needName u ''from'' ''from attendu apres export *'') (thenP (moduleSource u) (\<lambda>src.
         next_do (semicolon u) (retP (ExportDecl start NilNode specs src False True NilNode))))))"

definition exportNamed :: "utab \<Rightarrow> position \<Rightarrow> stmt parser" where
  "exportNamed u start =
     thenP (specifiers u isName ''nom exporte attendu'' (\<lambda>local exported. ExportSpecifier (nodePos local) local exported) [])
       (\<lambda>specs. thenP (look (isNamed ''from'') (\<lambda>b.
            if b then next_do (padvance u) (moduleSource u) else retP NilNode)) (\<lambda>src.
          next_do (semicolon u) (retP (ExportDecl start NilNode specs src False False NilNode))))"

definition exportedType :: "utab \<Rightarrow> position \<Rightarrow> stmt parser" where
  "exportedType u start = next_do (interfaceHead u) (look (is_kind LBraceT) (\<lambda>b.
     next_do (whenP b (next_do (padvance u) (next_do (balanced u braceCount 1) (retP ())))) (retP (EmptyStmt start))))"

definition parseExportDecl :: "utab \<Rightarrow> pfuns \<Rightarrow> stmt parser" where
  "parseExportDecl u r = look (\<lambda>s. tPos (ptok s)) (\<lambda>start. next_do (padvance u) (look id (\<lambda>s.
     if ptypescript s \<and> isNamed ''type'' s then next_do (padvance u) (skipToSemicolon u start)
     else if ptypescript s \<and> isNamed ''interface'' s then exportedType u start
     else thenP (eatKeyword u ''default'') (\<lambda>b.
       if b then exportDefault u r start
       else look ptok (\<lambda>t.
         if tKind t = StarT then exportStar u start
         else if tKind t = LBraceT then exportNamed u start
         else thenP (rItem r) (\<lambda>d. retP (ExportDecl start d [] NilNode False False NilNode)))))))"

section \<open>Statements\<close>

definition badDeclaration :: parseErr where
  "badDeclaration = Msg ''declaration interdite en position d'instruction''"

text \<open>The checks inside a loop: what is rejected in the position of a statement.\<close>

definition loopBodyCheck :: "utab \<Rightarrow> unit parser" where
  "loopBodyCheck u = next_do
     (look id (\<lambda>s.
        if isKeyword ''function'' s \<or> isKeyword ''class'' s \<or> isKeyword ''const'' s then fail badDeclaration
        else if isKeyword ''let'' s then
          thenP (letStartsDeclaration u) (\<lambda>b.
            if \<not> b then retP ()
            else thenP (peekNext u (\<lambda>s1. is_kind LBracketT s1 \<or> \<not> afterNewline s1)) (\<lambda>bad.
              if bad then fail badDeclaration else retP ()))
        else retP ()))
     (look (\<lambda>s. (isIdentText ''async'' s, snapshot s)) (\<lambda>(b, sv).
        whenP b (next_do (padvance u) (look (\<lambda>s. isKeyword ''function'' s \<and> \<not> afterNewline s) (\<lambda>bad.
          if bad then fail badDeclaration else rewind sv)))))"

definition expressionStatement :: "utab \<Rightarrow> pfuns \<Rightarrow> position \<Rightarrow> stmt parser" where
  "expressionStatement u r start = readHere u (thenP (parseExpression u r) (\<lambda>e.
     next_do (semicolon u) (retP (ExpressionStmt start e))))"

definition labelOrExpression :: "utab \<Rightarrow> pfuns \<Rightarrow> position \<Rightarrow> stmt parser" where
  "labelOrExpression u r start = look ptok (\<lambda>t.
     if tKind t \<noteq> IdentT then expressionStatement u r start
     else thenP (advanceIf u (is_kind ColonT)) (\<lambda>b.
       if b then next_do (padvance u) (thenP (rStatement r) (\<lambda>body.
         retP (LabeledStmt start (Ident (tPos t) (tValue t)) body)))
       else expressionStatement u r start))"

definition parseStatement :: "utab \<Rightarrow> pfuns \<Rightarrow> stmt parser" where
  "parseStatement u r = entered (look (\<lambda>s. (tPos (ptok s), inIteration s > 0)) (\<lambda>(start, looping).
     next_do (whenP looping (loopBodyCheck u)) (look id (\<lambda>s.
       if is_kind LBraceT s then parseBlock u r
       else if is_kind SemicolonT s then next_do (padvance u) (retP (EmptyStmt start))
       else if isKeyword ''var'' s then parseVarDecl u r (ascii ''var'')
       else if isKeyword ''if'' s then parseIf u r
       else if isKeyword ''for'' s then parseFor u r
       else if isKeyword ''while'' s then parseWhile u r
       else if isKeyword ''do'' s then parseDoWhile u r
       else if isKeyword ''return'' s then parseReturn u r
       else if isKeyword ''break'' s \<or> isKeyword ''continue'' s then parseBreakContinue u
       else if isKeyword ''throw'' s then parseThrow u r
       else if isKeyword ''try'' s then parseTry u r
       else if isKeyword ''switch'' s then parseSwitch u r
       else if isKeyword ''debugger'' s then
         next_do (padvance u) (next_do (semicolon u) (retP (DebuggerStmt start)))
       else if isKeyword ''with'' s then
         (if pstrict s then fail (Msg ''with est interdit en mode strict'') else parseWith u r)
       else labelOrExpression u r start))))"

text \<open>Declarations of types, which are erased; \<open>NilNode\<close> when the item is none.\<close>

definition typeDeclaration :: "utab \<Rightarrow> stmt parser" where
  "typeDeclaration u = look id (\<lambda>s.
     let start = tPos (ptok s) in
     if \<not> ptypescript s then retP NilNode
     else if isNamed ''interface'' s then
       next_do (interfaceHead u) (next_do (skipBalancedBraces u) (retP (EmptyStmt start)))
     else if isNamed ''type'' s then
       thenP (peekNext u (is_kind IdentT)) (\<lambda>isAlias.
         if \<not> isAlias then retP NilNode
         else next_do (padvance u) (next_do (padvance u) (next_do (skipTypeParams u)
           (thenP (eat u AssignT) (\<lambda>eq. next_do (whenP eq (skipType u))
             (next_do (semicolon u) (retP (EmptyStmt start))))))))
     else if isNamed ''enum'' s \<or> isNamed ''namespace'' s
     then fail (Msg ''les enums/namespaces TypeScript ne sont pas supportes'')
     else retP NilNode)"

definition itemTail :: "utab \<Rightarrow> pfuns \<Rightarrow> stmt parser" where
  "itemTail u r = thenP (typeDeclaration u) (\<lambda>d.
     if d \<noteq> NilNode then retP d
     else look ptok (\<lambda>t.
       if tKind t = IdentT \<and> tValue t = ascii ''async'' then
         thenP (advanceIf u (\<lambda>s. isKeyword ''function'' s \<and> \<not> afterNewline s)) (\<lambda>b.
           if b then thenP (parseFunctionDecl u r (tPos t) True) (\<lambda>fn. retP (FunctionDecl (tPos t) fn))
           else rStatement r)
       else rStatement r))"

definition parseStatementListItem :: "utab \<Rightarrow> pfuns \<Rightarrow> stmt parser" where
  "parseStatementListItem u r = entered (look id (\<lambda>s.
     let start = tPos (ptok s) in
     if isKeyword ''function'' s then
       thenP (parseFunctionDecl u r start False) (\<lambda>fn. retP (FunctionDecl start fn))
     else if isKeyword ''class'' s then thenP (parseClassExpr u r) (\<lambda>c. retP (ClassDecl start c))
     else if isKeyword ''const'' s then parseVarDecl u r (ascii ''const'')
     else if isKeyword ''let'' s then
       thenP (letStartsDeclaration u) (\<lambda>b. if b then parseVarDecl u r (ascii ''let'') else itemTail u r)
     else if isKeyword ''import'' s \<and> pmodule s then
       thenP (importIsDeclaration u) (\<lambda>b. if b then parseImportDecl u else itemTail u r)
     else if isKeyword ''export'' s then
       (if pmodule s then parseExportDecl u r
        else fail (Msg ''export n'est admis que dans un module''))
     else itemTail u r))"

section \<open>The knot\<close>

text \<open>
  \<open>n\<close> bounds the number of nested calls of the seven functions; a call beyond it is \<open>Stuck\<close>.
  Since each of them counts a depth that is limited, \<open>maxDepth + 2\<close> is enough.
\<close>

definition stuckFuns :: pfuns where
  "stuckFuns = \<lparr>rAssign = (\<lambda>_. Stuck), rBinary = (\<lambda>_ _. Stuck), rUnary = (\<lambda>_. Stuck),
     rCallOrMember = (\<lambda>_ _. Stuck), rPrimary = (\<lambda>_. Stuck), rItem = (\<lambda>_. Stuck), rStatement = (\<lambda>_. Stuck)\<rparr>"

primrec knot :: "utab \<Rightarrow> nat \<Rightarrow> pfuns" where
  "knot u 0 = stuckFuns"
| "knot u (Suc n) =
     (let r = knot u n
      in \<lparr>rAssign = parseAssign u r, rBinary = parseBinary u r, rUnary = parseUnary u r,
          rCallOrMember = parseCallOrMember u r, rPrimary = parsePrimary u r,
          rItem = parseStatementListItem u r, rStatement = parseStatement u r\<rparr>)"

record options =
  optModule :: bool
  optStrict :: bool
  optTypeScript :: bool

definition startState :: "gostring \<Rightarrow> options \<Rightarrow> pst" where
  "startState src opt = \<lparr>plx = New src, ptok = mkTok EOFT noPos [] NoMsg,
     pstrict = optStrict opt \<or> optModule opt, pmodule = optModule opt, ptypescript = optTypeScript opt,
     inGenerator = False, inAsync = False, inFunction = False, inIteration = 0, inSwitch = 0,
     noIn = False, depth = 0\<rparr>"

definition parseProgram :: "utab \<Rightarrow> pfuns \<Rightarrow> bool \<Rightarrow> node parser" where
  "parseProgram u r asModule = next_do (padvance u)
     (repeatP (\<lambda>body. look (is_kind EOFT) (\<lambda>eof.
        if eof then retP (Inr (Program \<lparr>posOffset = 0, posLine = 1, posCol = 1\<rparr> body asModule))
        else thenP (rItem r) (\<lambda>st. retP (Inl (body @ [st]))))) [])"

text \<open>The program, or the syntax error with its position; \<open>None\<close> is being stuck.\<close>

definition Parse :: "utab \<Rightarrow> gostring \<Rightarrow> options \<Rightarrow> ((parseErr \<times> position) + node) option" where
  "Parse u src opt =
     (case parseProgram u (knot u (nat maxDepth + 2)) (optModule opt) (startState src opt) of
        Done prog _ \<Rightarrow> Some (Inr prog)
      | Panic m q _ \<Rightarrow> Some (Inl (m, q))
      | Stuck \<Rightarrow> None)"

section \<open>The pre-parser\<close>

text \<open>\<open>PreParser.Validate\<close> of \<open>preparser.go\<close> on the kinds of the tokens that are left.\<close>

fun Validate :: "int \<Rightarrow> int \<Rightarrow> tkind list \<Rightarrow> bool" where
  "Validate paren brace [] \<longleftrightarrow> paren = 0 \<and> brace = 0"
| "Validate paren brace (k # ks) =
     (if k = LParenT then Validate (paren + 1) brace ks
      else if k = RParenT then (if paren - 1 < 0 then False else Validate (paren - 1) brace ks)
      else if k = LBraceT then Validate paren (brace + 1) ks
      else if k = RBraceT then (if brace - 1 < 0 then False else Validate paren (brace - 1) ks)
      else Validate paren brace ks)"

end
