(* ===== verification/ParseRuns.thy ===== *)
theory ParseRuns
  imports ParseStmt LexProps
begin

text \<open>
  The proof rules of the parser.  \<open>at n B p s\<close>: started in \<open>s\<close>, \<open>p\<close> is not stuck, and when it returns,
  the state is again one where a token was read, at the depth before, with no more source ahead
  of it than before, and with less when the value satisfies \<open>B\<close>.  The rules follow the program:
  \<open>thens\<close> holds one for each form a sequence can begin with.
\<close>

section \<open>Widths of tokens\<close>

text \<open>The parser cuts these three tokens in two.\<close>

definition splitWidth :: "tkind \<Rightarrow> nat" where
  "splitWidth k = (if k = GeT then 2 else if k = ShrAssignT then 3 else if k = UShrAssignT then 4 else 1)"

definition plainKind :: "tkind \<Rightarrow> bool" where
  "plainKind k \<longleftrightarrow> splitWidth k = 1"

lemma plain_kinds [simp]:
  "plainKind (tKind (fst (illegal start m l)))" "plainKind IllegalT" "plainKind StringT" "plainKind RegexpT"
  "plainKind NoSubTemplateT" "plainKind TemplateHeadT" "plainKind TemplateMiddleT" "plainKind TemplateTailT"
  "tKind (mkTok k start v m) = k"
  by (simp_all add: illegal_def mkTok_def plainKind_def splitWidth_def)

lemma left_twice: "peekR l \<noteq> eofRune \<Longrightarrow> bytesLeft (advance (advance l)) < bytesLeft l"
  using left_advance [of l] left_advance_le [of "advance l"] by simp

lemma plain_stringLoop: "plainKind (tKind (fst (stringLoop start quote l)))"
proof (induction "bytesLeft l" arbitrary: l rule: less_induct)
  case less
  show ?case
    by (subst stringLoop.simps) (simp add: Let_def less left_advance left_twice le_less_trans [OF left_advance_le])
qed

lemma plain_templateLoop: "plainKind (tKind (fst (templateLoop start head l)))"
proof (induction "bytesLeft l" arbitrary: l rule: less_induct)
  case less
  show ?case by (subst templateLoop.simps) (simp add: Let_def less left_advance left_twice)
qed

lemma plain_regexpLoop: "plainKind (tKind (fst (regexpLoop u start c l)))"
proof (induction "bytesLeft l" arbitrary: l c rule: less_induct)
  case less
  show ?case by (subst regexpLoop.simps) (simp add: Let_def less left_advance left_twice)
qed

lemma plain_words:
  "plainKind (tKind (fst (scanIdent u start l)))" "plainKind (tKind (fst (scanPrivateIdent u start l)))"
  "plainKind (tKind (fst (scanNumber u start l)))"
  by (simp_all add: scanIdent_def scanPrivateIdent_def scanNumber_def Let_def split: prod.split)
    (simp_all add: plainKind_def splitWidth_def)

lemma puncts_width: "p \<in> set puncts \<Longrightarrow> splitWidth (snd p) \<le> length (fst p)"
proof -
  have "list_all (\<lambda>p. splitWidth (snd p) \<le> length (fst p)) puncts"
    by (simp add: puncts_def splitWidth_def ascii_def)
  then show "p \<in> set puncts \<Longrightarrow> splitWidth (snd p) \<le> length (fst p)" by (auto simp: list_all_iff)
qed

lemma width_scanPunct:
  "plainKind (tKind (fst (scanPunct start l)))
   \<or> splitWidth (tKind (fst (scanPunct start l))) \<le> length (tValue (fst (scanPunct start l)))"
proof (cases "find (punctMatches l) puncts")
  case (Some p)
  then have "p \<in> set puncts" by (auto simp: find_Some_iff)
  from puncts_width [OF this] show ?thesis using Some by (simp add: scanPunct_def mkTok_def)
qed (simp add: scanPunct_def)

lemma width_scanToken:
  assumes "tValue (fst (scanToken u a start l)) \<noteq> []"
  shows "splitWidth (tKind (fst (scanToken u a start l))) \<le> length (tValue (fst (scanToken u a start l)))"
proof -
  have "plainKind (tKind (fst (scanToken u a start l)))
      \<or> splitWidth (tKind (fst (scanToken u a start l))) \<le> length (tValue (fst (scanToken u a start l)))"
    using width_scanPunct [of start l]
    by (simp add: scanToken_def Let_def scanString_def scanTemplate_def scanRegexp_def
        plain_words plain_stringLoop plain_templateLoop plain_regexpLoop)
  then show ?thesis using assms by (auto simp: plainKind_def Suc_le_eq)
qed

lemma Next_width:
  assumes "inSource l" "Next u a l = (t, l')" "tKind t \<noteq> EOFT"
  shows "posOffset (tPos t) + splitWidth (tKind t) \<le> loff l'"
proof (cases rule: Next_cases [of u a l])
  case (comment t1 ls l1)
  then have t: "t = t1\<lparr>tNewlineBefore := newlineBefore l'\<rparr>" "l' = l1" using assms(2) by auto
  have "tKind t1 = IllegalT" using comment by (simp add: scanned_def)
  then show ?thesis
    using comment(3,4) reads_mono [of ls l1] unfolding t by (auto simp: scanned_def splitWidth_def Pos_def)
next
  case (fin l1)
  then show ?thesis using assms by (auto simp: mkTok_def)
next
  case (token t1 l1 l2)
  then have t: "t = t1\<lparr>tNewlineBefore := newlineBefore l1\<rparr>" "l' = l2" using assms(2) by auto
  have off: "loff l' = tokenEnd t" using Next_result(3) [OF assms(1,2)] .
  have "tPos t1 = Pos l1" using token(5) by (simp add: scanned_def)
  then have "tValue t1 \<noteq> []" using off token(6) unfolding t by (auto simp: tokenEnd_def Pos_def)
  then show ?thesis using off width_scanToken [of u a "Pos l1" l1] token(4) unfolding t by (simp add: tokenEnd_def)
qed

section \<open>Ready states\<close>

definition ready :: "pst \<Rightarrow> bool" where
  "ready s \<longleftrightarrow> inSource (plx s)
     \<and> (if tKind (ptok s) = EOFT then loff (plx s) = length (lsrc (plx s))
        else posOffset (tPos (ptok s)) + splitWidth (tKind (ptok s)) \<le> loff (plx s))"

definition remaining :: "pst \<Rightarrow> nat" where
  "remaining s = (if tKind (ptok s) = EOFT then 0 else Suc (length (lsrc (plx s)) - posOffset (tPos (ptok s))))"

definition deep :: "nat \<Rightarrow> pst \<Rightarrow> bool" where
  "deep n s \<longleftrightarrow> depth s \<le> maxDepth \<and> maxDepth < depth s + int n"

definition sameSource :: "pst \<Rightarrow> pst \<Rightarrow> bool" where
  "sameSource s s1 \<longleftrightarrow> lsrc (plx s1) = lsrc (plx s)"

text \<open>\<open>after s strict s1\<close>: \<open>s1\<close> is a ready state that \<open>s\<close> can lead to.\<close>

definition after :: "pst \<Rightarrow> bool \<Rightarrow> pst \<Rightarrow> bool" where
  "after s strict s1 \<longleftrightarrow> ready s1 \<and> sameSource s s1 \<and> depth s1 = depth s \<and> remaining s1 \<le> remaining s
     \<and> (strict \<longrightarrow> remaining s1 < remaining s)"

definition at :: "nat \<Rightarrow> ('a \<Rightarrow> bool) \<Rightarrow> 'a parser \<Rightarrow> pst \<Rightarrow> bool" where
  "at n B p s \<longleftrightarrow> (ready s \<and> deep n s \<longrightarrow>
     (case p s of Done x s1 \<Rightarrow> after s (B x) s1 | Panic m q s1 \<Rightarrow> sameSource s s1 | Stuck \<Rightarrow> False))"

lemma after_refl: "ready s \<Longrightarrow> after s False s"
  by (simp add: after_def sameSource_def)

lemma after_trans: "after s a s1 \<Longrightarrow> after s1 b s2 \<Longrightarrow> (c \<longrightarrow> a \<or> b) \<Longrightarrow> after s c s2"
  by (auto simp: after_def sameSource_def)

lemma deep_after: "deep n s \<Longrightarrow> after s b s1 \<Longrightarrow> deep n s1"
  by (simp add: deep_def after_def)

lemma at_weaken: "at n A p s \<Longrightarrow> (\<And>x. B x \<Longrightarrow> A x) \<Longrightarrow> at n B p s"
  by (auto simp: at_def after_def split: pres.splits)

section \<open>Rules for sequences\<close>

named_theorems thens \<open>rules by the first parser of a sequence\<close>

lemma at_bind:
  assumes "at n A p s" "\<And>x s1. ready s \<Longrightarrow> after s (A x) s1 \<Longrightarrow> p s = Done x s1 \<Longrightarrow> at n (\<lambda>y. B y \<and> \<not> A x) (f x) s1"
  shows "at n B (thenP p f) s"
  unfolding at_def
proof (intro impI)
  assume s: "ready s \<and> deep n s"
  show "case thenP p f s of Done x s1 \<Rightarrow> after s (B x) s1 | Panic m q s1 \<Rightarrow> sameSource s s1 | Stuck \<Rightarrow> False"
  proof (cases "p s")
    case (Done x s1)
    then have a: "after s (A x) s1" using assms(1) s by (simp add: at_def)
    then have r: "ready s1 \<and> deep n s1" using deep_after s by (auto simp: after_def)
    show ?thesis
      using assms(2) [OF _ a Done] s a r Done
      by (auto simp: at_def thenP_def sameSource_def after_def split: pres.splits)
  qed (use assms(1) s in \<open>simp_all add: at_def thenP_def\<close>)
qed

text \<open>The form of the rules: what follows need not read where \<open>p\<close> did.\<close>

lemma at_then: "at n A p s \<Longrightarrow> (\<And>x s1. at n (\<lambda>y. B y \<and> \<not> A x) (f x) s1) \<Longrightarrow> at n B (thenP p f) s"
  by (rule at_bind)

lemma at_retP [thens]: "\<not> B x \<Longrightarrow> at n B (retP x) s"
  by (simp add: at_def retP_def after_refl)

lemma at_fail [thens]: "at n B (fail m) s" "at n B (failAt m q) s"
  by (simp_all add: at_def fail_def failAt_def sameSource_def)

lemma at_next_do [thens]: "at n B (thenP p (\<lambda>_. q)) s \<Longrightarrow> at n B (next_do p q) s"
  by (simp add: next_do_def)

lemma thenP_simps:
  "thenP (retP x) f s = f x s" "thenP (look g h) f s = thenP (h (g s)) f s"
  "thenP (thenP p k) f s = thenP p (\<lambda>x. thenP (k x) f) s"
  "thenP (next_do p' q) f s = thenP p' (\<lambda>_. thenP q f) s"
  "thenP (fail m) f s = fail m s" "thenP (failAt m q') f s = failAt m q' s"
  by (simp_all add: thenP_def retP_def look_def next_do_def fail_def failAt_def split: pres.splits)

lemma at_cong: "p s = q s \<Longrightarrow> at n B p s = at n B q s"
  by (simp add: at_def)

lemma at_ret_then [thens]: "at n B (f x) s \<Longrightarrow> at n B (thenP (retP x) f) s"
  by (simp add: at_def thenP_simps)

lemma at_look [thens]: "at n B (g (f s)) s \<Longrightarrow> at n B (look f g) s"
  by (simp add: at_def look_def)

lemma at_look_then [thens]: "at n B (thenP (h (g s)) f) s \<Longrightarrow> at n B (thenP (look g h) f) s"
  by (simp add: at_def thenP_simps)

lemma at_assoc [thens]: "at n B (thenP p (\<lambda>x. thenP (g x) f)) s \<Longrightarrow> at n B (thenP (thenP p g) f) s"
  by (simp add: at_def thenP_simps)

lemma at_assoc_next [thens]: "at n B (thenP p (\<lambda>_. thenP q f)) s \<Longrightarrow> at n B (thenP (next_do p q) f) s"
  by (simp add: at_def thenP_simps)

lemma at_fail_then [thens]: "at n B (thenP (fail m) f) s" "at n B (thenP (failAt m q) f) s"
  by (simp_all add: at_def thenP_simps fail_def failAt_def sameSource_def)

lemma at_if [thens]: "(b \<Longrightarrow> at n B p s) \<Longrightarrow> (\<not> b \<Longrightarrow> at n B q s) \<Longrightarrow> at n B (if b then p else q) s"
  by simp

lemma at_if_then [thens]:
  "(b \<Longrightarrow> at n B (thenP p f) s) \<Longrightarrow> (\<not> b \<Longrightarrow> at n B (thenP q f) s) \<Longrightarrow> at n B (thenP (if b then p else q) f) s"
  by simp

lemma at_pair [thens]: "(\<And>x y. z = (x, y) \<Longrightarrow> at n B (f x y) s) \<Longrightarrow> at n B (case z of (x, y) \<Rightarrow> f x y) s"
  by (cases z) simp

lemma at_whenP [thens]: "at n B (if b then p else retP ()) s \<Longrightarrow> at n B (whenP b p) s"
  by (simp add: whenP_def)

lemma at_whenP_then [thens]:
  "(b \<Longrightarrow> at n B (thenP p f) s) \<Longrightarrow> (\<not> b \<Longrightarrow> at n B (f ()) s) \<Longrightarrow> at n B (thenP (whenP b p) f) s"
  by (cases b) (auto simp: whenP_def intro: at_ret_then)

text \<open>Changes of the context.\<close>

definition contextOnly :: "(pst \<Rightarrow> pst) \<Rightarrow> bool" where
  "contextOnly g \<longleftrightarrow> (\<forall>s. plx (g s) = plx s \<and> ptok (g s) = ptok s \<and> depth (g s) = depth s)"

lemma context_facts:
  assumes "contextOnly g"
  shows "ready (g s) = ready s" "remaining (g s) = remaining s" "deep n (g s) = deep n s" "depth (g s) = depth s"
    "sameSource (g s) = sameSource s" "sameSource s1 (g s) = sameSource s1 s"
  using assms by (simp_all add: contextOnly_def ready_def remaining_def deep_def sameSource_def fun_eq_iff)

lemma after_context: "contextOnly g \<Longrightarrow> after (g s) b s1 = after s b s1" "contextOnly g \<Longrightarrow> after s b (g s1) = after s b s1"
  by (simp_all add: after_def context_facts)

lemma at_modify_then [thens]:
  assumes "contextOnly g" "at n B (f ()) (g s)"
  shows "at n B (thenP (modify g) f) s"
  using assms(2)
  by (auto simp: at_def thenP_def modify_def context_facts [OF assms(1)] after_context [OF assms(1)] split: pres.splits)

lemma at_deferred [thens]:
  assumes "contextOnly g" "at n B p s"
  shows "at n B (deferred g p) s"
  using assms(2)
  by (auto simp: at_def deferred_def context_facts [OF assms(1)] after_context [OF assms(1)] split: pres.splits)

lemma contextOnly_fields [thens]:
  "contextOnly (\<lambda>s. s\<lparr>noIn := b\<rparr>)" "contextOnly (\<lambda>s. s\<lparr>pstrict := b\<rparr>)"
  "contextOnly (\<lambda>s. s\<lparr>inGenerator := g, inAsync := a, inFunction := f\<rparr>)"
  "contextOnly (\<lambda>s. s\<lparr>inIteration := k s\<rparr>)" "contextOnly (\<lambda>s. s\<lparr>inSwitch := k s\<rparr>)"
  by (simp_all add: contextOnly_def)

section \<open>Loops\<close>

lemma loopP_at:
  assumes body: "\<And>a s. at n isl (body a) s" and s: "ready s" "deep n s" and k: "remaining s < k"
  shows "case loopP k body a s of Done x s1 \<Rightarrow> after s False s1 | Panic m q s1 \<Rightarrow> sameSource s s1 | Stuck \<Rightarrow> False"
  using s k
proof (induction k arbitrary: a s)
  case (Suc k)
  have b: "case body a s of Done x s1 \<Rightarrow> after s (isl x) s1 | Panic m q s1 \<Rightarrow> sameSource s s1 | Stuck \<Rightarrow> False"
    using body [of a s] Suc.prems by (simp add: at_def)
  show ?case
  proof (cases "body a s")
    case (Done x s1)
    show ?thesis
    proof (cases x)
      case (Inl a1)
      have r: "after s True s1" using b Done Inl by simp
      then have "case loopP k body a1 s1 of Done x s2 \<Rightarrow> after s1 False s2 | Panic m q s2 \<Rightarrow> sameSource s1 s2 | Stuck \<Rightarrow> False"
        using Suc.prems deep_after [OF _ r] by (intro Suc.IH) (auto simp: after_def)
      then show ?thesis
        using r Done Inl by (auto simp: after_def sameSource_def split: pres.splits)
    qed (use b Done in \<open>simp add: after_def\<close>)
  qed (use b in simp_all)
qed simp

lemma remaining_bound: "remaining s < length (lsrc (plx s)) + 3"
  by (auto simp: remaining_def)

lemma at_repeatP:
  assumes "\<And>a s. at n isl (body a) s"
  shows "at n (\<lambda>_. False) (repeatP body a) s"
  using loopP_at [OF assms, where s = s and k = "length (lsrc (plx s)) + 3" and a = a] remaining_bound [of s]
  by (simp add: at_def repeatP_def)

lemma at_repeatP_leaf [thens]:
  "(\<And>x. \<not> B x) \<Longrightarrow> (\<And>a s. at n isl (body a) s) \<Longrightarrow> at n B (repeatP body a) s"
  by (rule at_weaken [OF at_repeatP]) auto

lemma at_repeatP_then [thens]:
  "(\<And>a s. at n isl (body a) s) \<Longrightarrow> (\<And>x s1. at n B (f x) s1) \<Longrightarrow> at n B (thenP (repeatP body a) f) s"
  by (rule at_then [OF at_repeatP]) auto

section \<open>Reading tokens\<close>

lemma readToken_fields:
  "pstrict (readToken u a s) = pstrict s" "depth (readToken u a s) = depth s"
  by (simp_all add: readToken_def split: prod.splits)

lemma Next_end:
  assumes "inSource l" "Next u a l = (t, l')"
  shows "lsrc l' = lsrc l \<and> (tKind t = EOFT \<longrightarrow> loff l' = length (lsrc l'))"
proof (cases rule: Next_cases [of u a l])
  case (comment t1 ls l1)
  then show ?thesis using assms(2) reads_mono(1) by (auto simp: scanned_def)
next
  case (fin l1)
  then show ?thesis using assms reads_mono [OF fin(2)] by (auto simp: peekR_eof inSource_def)
next
  case (token t1 l1 l2)
  then show ?thesis using assms(2) reads_mono(1) by (auto simp: scanned_def)
qed

lemma readToken_ready:
  assumes "inSource (plx s)"
  shows "ready (readToken u a s)" "sameSource s (readToken u a s)"
    "remaining (readToken u a s) \<le> Suc (length (lsrc (plx s)) - loff (plx s))"
    "tKind (ptok (readToken u a s)) \<noteq> EOFT \<Longrightarrow> loff (plx s) < length (lsrc (plx s))"
proof -
  obtain t l where n: "Next u a (plx s) = (t, l)" by (cases "Next u a (plx s)")
  note r = Next_result [OF assms n] and w = Next_width [OF assms n]
  note e = Next_end [OF assms n]
  have src: "lsrc l = lsrc (plx s)" and fin: "tKind t = EOFT \<Longrightarrow> loff l = length (lsrc l)" using e by auto
  have rt: "readToken u a s = s\<lparr>ptok := t, plx := l\<rparr>" by (simp add: readToken_def n)
  show "ready (readToken u a s)" using r(1) w fin by (simp add: rt ready_def)
  show "sameSource s (readToken u a s)" by (simp add: rt sameSource_def src)
  show "remaining (readToken u a s) \<le> Suc (length (lsrc (plx s)) - loff (plx s))"
    using r(2) src by (auto simp: rt remaining_def intro: diff_le_mono2)
  show "tKind (ptok (readToken u a s)) \<noteq> EOFT \<Longrightarrow> loff (plx s) < length (lsrc (plx s))"
    using r(4) by (simp add: rt bytesLeft_def)
qed

text \<open>A token that is read from a ready state starts beyond the current one.\<close>

lemma readToken_after:
  assumes "ready s"
  shows "after s (tKind (ptok s) \<noteq> EOFT) (readToken u a s)"
proof -
  have i: "inSource (plx s)" using assms by (simp add: ready_def)
  note r = readToken_ready [OF i, of u a]
  have "tKind (ptok s) \<noteq> EOFT \<Longrightarrow> posOffset (tPos (ptok s)) < loff (plx s)"
    using assms by (auto simp: ready_def splitWidth_def split: if_splits)
  moreover have "loff (plx s) \<le> length (lsrc (plx s))" using i by (simp add: inSource_def)
  moreover have "tKind (ptok s) = EOFT \<Longrightarrow> tKind (ptok (readToken u a s)) = EOFT"
    using r(4) assms by (auto simp: ready_def)
  ultimately have "remaining (readToken u a s) \<le> remaining s \<and> (tKind (ptok s) \<noteq> EOFT \<longrightarrow> remaining (readToken u a s) < remaining s)"
    using r(3) by (auto simp: remaining_def split: if_splits)
  then show ?thesis using r(1,2) by (simp add: after_def readToken_fields)
qed

lemma failIllegal_run:
  "failIllegal s = (if tKind (ptok s) = IllegalT then Panic (LexError (tMessage (ptok s))) (tPos (ptok s)) s else Done () s)"
  by (simp add: failIllegal_def look_def fail_def retP_def)

lemma padvance_run:
  "padvance u s = (let s1 = readToken u False s in
     if tKind (ptok s1) = IllegalT then Panic (LexError (tMessage (ptok s1))) (tPos (ptok s1)) s1 else Done () s1)"
  by (simp add: padvance_def next_do_def thenP_def modify_def failIllegal_run Let_def)

lemma at_padvance: "at n (\<lambda>_. tKind (ptok s) \<noteq> EOFT) (padvance u) s"
  using readToken_after [of s u False] by (simp add: at_def padvance_run Let_def after_def)

lemma at_padvance_leaf [thens]: "(\<And>x. B x \<Longrightarrow> tKind (ptok s) \<noteq> EOFT) \<Longrightarrow> at n B (padvance u) s"
  by (rule at_weaken [OF at_padvance]) auto

lemma at_padvance_then [thens]:
  "(\<And>s1. at n (\<lambda>y. B y \<and> tKind (ptok s) = EOFT) (f ()) s1) \<Longrightarrow> at n B (thenP (padvance u) f) s"
  by (rule at_then [OF at_padvance]) simp

text \<open>Re-reading a token that starts with a slash begins where the token does.\<close>

lemma at_regexpHere: "at n (\<lambda>_. False) (regexpHere u) s"
  unfolding at_def
proof (intro impI)
  assume s: "ready s \<and> deep n s"
  let ?l = "SeekTo (tPos (ptok s)) (plx s)"
  define s1 where "s1 = readToken u True (s\<lparr>plx := ?l\<rparr>)"
  define s2 where "s2 = s1\<lparr>ptok := (ptok s1)\<lparr>tNewlineBefore := tNewlineBefore (ptok s)\<rparr>\<rparr>"
  show "case regexpHere u s of Done x s1 \<Rightarrow> after s False s1 | Panic m q s1 \<Rightarrow> sameSource s s1 | Stuck \<Rightarrow> False"
  proof (cases "tKind (ptok s) \<noteq> SlashT \<and> tKind (ptok s) \<noteq> SlashAssignT")
    case True
    then show ?thesis using s by (simp add: regexpHere_def look_def retP_def after_refl)
  next
    case False
    then have k: "tKind (ptok s) \<noteq> EOFT" by auto
    have o: "posOffset (tPos (ptok s)) < loff (plx s)" "loff (plx s) \<le> length (lsrc (plx s))"
      using s k by (auto simp: ready_def inSource_def splitWidth_def split: if_splits)
    then have l: "lsrc ?l = lsrc (plx s)" "loff ?l = posOffset (tPos (ptok s))" by (simp_all add: SeekTo_def)
    then have i: "inSource (plx (s\<lparr>plx := ?l\<rparr>))" using o by (simp add: inSource_def)
    note r = readToken_ready [OF i, of u True, folded s1_def]
    have run: "regexpHere u s = failIllegal s2"
      using False
      by (auto simp: regexpHere_def look_def next_do_def thenP_def modify_def s2_def s1_def)
    have "ready s2 = ready s1" "remaining s2 = remaining s1" "sameSource s s2 = sameSource s s1" "depth s2 = depth s"
      by (simp_all add: s2_def ready_def remaining_def sameSource_def s1_def readToken_fields)
    moreover have "sameSource s s1" using r(2) l(1) by (simp add: sameSource_def)
    moreover have "remaining s1 \<le> remaining s" using r(3) k l by (simp add: remaining_def [of s])
    ultimately show ?thesis using r(1) by (simp add: run failIllegal_run after_def)
  qed
qed

lemma at_regexpHere_then [thens]: "(\<And>s1. at n B (f ()) s1) \<Longrightarrow> at n B (thenP (regexpHere u) f) s"
  by (rule at_then [OF at_regexpHere]) simp

lemma at_readHere [thens]: "(\<And>s1. at n B p s1) \<Longrightarrow> at n B (readHere u p) s"
  by (simp add: readHere_def next_do_def at_regexpHere_then)

lemma at_readHere_then [thens]: "(\<And>s1. at n B (thenP p f) s1) \<Longrightarrow> at n B (thenP (readHere u p) f) s"
  by (simp add: readHere_def thens)

lemmas token_defs = is_kind_def isKeyword_def isName_def isNamed_def isIdentText_def isAny_def

text \<open>From a fact about a parser in every state to its rules.\<close>

lemma at_any_then: "(\<And>s. at n (\<lambda>_. False) p s) \<Longrightarrow> (\<And>x s1. at n B (f x) s1) \<Longrightarrow> at n B (thenP p f) s"
  by (rule at_then [of n "\<lambda>_. False"]) simp_all

lemma at_any_leaf: "(\<And>s. at n (\<lambda>_. False) p s) \<Longrightarrow> (\<And>x. \<not> B x) \<Longrightarrow> at n B p s"
  by (rule at_weaken) auto

lemma at_strict_then: "(\<And>s. at n (\<lambda>_. True) p s) \<Longrightarrow> (\<And>x s1. at n (\<lambda>_. False) (f x) s1) \<Longrightarrow> at n B (thenP p f) s"
  by (rule at_then [of n "\<lambda>_. True"]) simp_all

lemma at_strict_leaf: "(\<And>s. at n (\<lambda>_. True) p s) \<Longrightarrow> at n B p s"
  by (rule at_weaken) auto

lemma at_bool_then:
  "at n (\<lambda>b. b) p s \<Longrightarrow> (\<And>s1. at n (\<lambda>_. False) (f True) s1) \<Longrightarrow> (\<And>s1. at n B (f False) s1) \<Longrightarrow> at n B (thenP p f) s"
  by (rule at_then [of n "\<lambda>b. b"]) (simp, (case_tac x; simp))

text \<open>A value that is not nil tells that something was read.\<close>

lemma at_found_then:
  "at n (\<lambda>e. e \<noteq> NilNode) p s \<Longrightarrow> (\<And>x s1. x \<noteq> NilNode \<Longrightarrow> at n (\<lambda>_. False) (f x) s1)
    \<Longrightarrow> (\<And>s1. at n B (f NilNode) s1) \<Longrightarrow> at n B (thenP p f) s"
  by (rule at_then [of n "\<lambda>e. e \<noteq> NilNode"]) (simp, (case_tac "x = NilNode"; simp))

lemma at_let [thens]: "at n B (f a) s \<Longrightarrow> at n B (Let a f) s"
  by (simp add: Let_def)

lemma at_let_then [thens]: "at n B (thenP (f a) g) s \<Longrightarrow> at n B (thenP (Let a f) g) s"
  by (simp add: Let_def)

lemma at_option [thens]:
  "(x = None \<Longrightarrow> at n B p s) \<Longrightarrow> (\<And>y. x = Some y \<Longrightarrow> at n B (f y) s) \<Longrightarrow> at n B (case x of None \<Rightarrow> p | Some y \<Rightarrow> f y) s"
  by (cases x) simp_all

lemma at_sum [thens]:
  "(\<And>y. x = Inl y \<Longrightarrow> at n B (f y) s) \<Longrightarrow> (\<And>y. x = Inr y \<Longrightarrow> at n B (g y) s)
    \<Longrightarrow> at n B (case x of Inl y \<Rightarrow> f y | Inr y \<Rightarrow> g y) s"
  by (cases x) simp_all

lemma at_eat: "k \<noteq> EOFT \<Longrightarrow> at n (\<lambda>b. b) (eat u k) s"
  unfolding eat_def by (intro thens) (auto simp: token_defs)

lemmas at_eat_then [thens] = at_bool_then [OF at_eat]

lemma at_eat_next [thens]: "k \<noteq> EOFT \<Longrightarrow> (\<And>s1. at n B q s1) \<Longrightarrow> at n B (thenP (eat u k) (\<lambda>_. q)) s"
  by (rule at_then [of n "\<lambda>_. False"]) (auto intro: at_weaken [OF at_eat])

lemma at_eatKeyword: "at n (\<lambda>b. b) (eatKeyword u w) s"
  unfolding eatKeyword_def by (intro thens) (auto simp: token_defs)

lemmas at_eatKeyword_then [thens] = at_bool_then [OF at_eatKeyword]

lemma at_expect: "k \<noteq> EOFT \<Longrightarrow> at n (\<lambda>_. True) (expect u k) s"
  unfolding expect_def by (intro thens) auto

lemmas at_expect_rules [thens] = at_strict_then [OF at_expect] at_strict_leaf [OF at_expect]

lemma at_semicolon: "at n (\<lambda>_. False) (semicolon u) s"
  unfolding semicolon_def by (intro thens) auto

lemmas at_semicolon_rules [thens] = at_any_then [OF at_semicolon] at_any_leaf [OF at_semicolon]

section \<open>Looking ahead\<close>

lemma rewind_state:
  assumes "ready s" "sameSource s s1"
  shows "rewind (snapshot s) s1 = Done () (s1\<lparr>plx := plx s, ptok := ptok s\<rparr>)"
proof -
  have "loff (plx s) \<le> length (lsrc (plx s1))" using assms by (simp add: ready_def inSource_def sameSource_def)
  then have "Restore (Save (plx s)) (plx s1) = plx s"
    using assms(2) by (simp add: Restore_def Save_def sameSource_def)
  then show ?thesis by (simp add: rewind_def snapshot_def modify_def)
qed

text \<open>Reading a token changes the cursor and the token alone.\<close>

lemma readToken_back: "(readToken u a s)\<lparr>plx := plx s, ptok := ptok s\<rparr> = s"
  by (simp add: readToken_def split: prod.splits)

lemma padvance_cases:
  obtains (bad) m q where "padvance u s = Panic m q (readToken u False s)"
  | (read) "padvance u s = Done () (readToken u False s)"
  by (cases "tKind (ptok (readToken u False s)) = IllegalT") (auto simp: padvance_run Let_def intro: that)

lemma peekNext_run:
  assumes "ready s"
  shows "(\<exists>m q. peekNext u test s = Panic m q (readToken u False s))
    \<or> peekNext u test s = Done (test (readToken u False s)) s"
proof (cases rule: padvance_cases [of u s])
  case read
  have "sameSource s (readToken u False s)" using readToken_after [OF assms] by (simp add: after_def)
  then show ?thesis
    by (simp add: peekNext_def look_def next_do_def thenP_def read rewind_state [OF assms] readToken_back retP_def)
qed (auto simp: peekNext_def look_def next_do_def thenP_def)

lemma advanceIf_run:
  assumes "ready s"
  shows "(\<exists>m q. advanceIf u test s = Panic m q (readToken u False s))
    \<or> (test (readToken u False s) \<and> advanceIf u test s = Done True (readToken u False s))
    \<or> (\<not> test (readToken u False s) \<and> advanceIf u test s = Done False s)"
proof (cases rule: padvance_cases [of u s])
  case read
  have "sameSource s (readToken u False s)" using readToken_after [OF assms] by (simp add: after_def)
  then show ?thesis
    by (simp add: advanceIf_def look_def next_do_def thenP_def read rewind_state [OF assms] readToken_back retP_def)
qed (auto simp: advanceIf_def look_def next_do_def thenP_def)

lemma at_peekNext_then [thens]:
  assumes "\<And>b. at n B (f b) s"
  shows "at n B (thenP (peekNext u test) f) s"
proof (cases "ready s")
  case True
  have "sameSource s (readToken u False s)" using readToken_after [OF True] by (simp add: after_def)
  then show ?thesis
    using peekNext_run [OF True, of u test] assms by (auto simp: at_def thenP_def)
qed (simp add: at_def)

lemma at_peekNext [thens]:
  assumes "\<And>b. \<not> B b"
  shows "at n B (peekNext u test) s"
  unfolding at_def
proof (intro impI)
  assume s: "ready s \<and> deep n s"
  then have "sameSource s (readToken u False s)" using readToken_after [of s u False] by (simp add: after_def)
  then show "case peekNext u test s of Done x s1 \<Rightarrow> after s (B x) s1 | Panic m q s1 \<Rightarrow> sameSource s s1 | Stuck \<Rightarrow> False"
    using peekNext_run [of s u test] s after_refl [of s] assms by auto
qed

lemma at_advanceIf_then [thens]:
  assumes "\<And>s1. at n (\<lambda>y. B y \<and> tKind (ptok s) = EOFT) (f True) s1" "at n B (f False) s"
  shows "at n B (thenP (advanceIf u test) f) s"
proof -
  have "at n (\<lambda>b. b \<and> tKind (ptok s) \<noteq> EOFT) (advanceIf u test) s"
    unfolding at_def
  proof (intro impI)
    assume s: "ready s \<and> deep n s"
    then have a: "after s (tKind (ptok s) \<noteq> EOFT) (readToken u False s)" by (intro readToken_after) simp
    then show "case advanceIf u test s of Done x s1 \<Rightarrow> after s (x \<and> tKind (ptok s) \<noteq> EOFT) s1
        | Panic m q s1 \<Rightarrow> sameSource s s1 | Stuck \<Rightarrow> False"
      using advanceIf_run [of s u test] s after_refl [of s] by (auto simp: after_def)
  qed
  then show ?thesis
  proof (rule at_bind)
    fix x s1
    assume r: "ready s" and d: "advanceIf u test s = Done x s1"
    show "at n (\<lambda>y. B y \<and> \<not> (x \<and> tKind (ptok s) \<noteq> EOFT)) (f x) s1"
    proof (cases x)
      case True
      then show ?thesis using assms(1) [of s1] by simp
    next
      case False
      then have "s1 = s" using advanceIf_run [OF r, of u test] d by auto
      then show ?thesis using assms(2) False by simp
    qed
  qed
qed

end
