(* ===== verification/ParseTypes.thy ===== *)
theory ParseTypes
  imports ParseRuns
begin

text \<open>
  Going back to a snapshot, and the erasure of type annotations: none is stuck.
\<close>

lemma thenP_retP: "thenP p retP = p"
  by (rule ext) (simp add: thenP_def retP_def split: pres.split)

lemma at_advanceIf_leaf [thens]:
  "(B True \<Longrightarrow> tKind (ptok s) \<noteq> EOFT) \<Longrightarrow> \<not> B False \<Longrightarrow> at n B (advanceIf u test) s"
  using at_advanceIf_then [of n B s retP u test] by (auto simp: thenP_retP intro: at_retP)

section \<open>Going back\<close>

text \<open>
  \<open>atFrom n B s c p s1\<close>: as \<open>at\<close>, but \<open>p\<close> runs in \<open>s1\<close>, a state that \<open>s\<close> led to (by reading, when
  \<open>c\<close>), and is measured from \<open>s\<close>, to which it may go back.
\<close>

definition atFrom :: "nat \<Rightarrow> ('a \<Rightarrow> bool) \<Rightarrow> pst \<Rightarrow> bool \<Rightarrow> 'a parser \<Rightarrow> pst \<Rightarrow> bool" where
  "atFrom n B s c p s1 \<longleftrightarrow> (ready s \<and> deep n s \<and> after s c s1 \<longrightarrow>
     (case p s1 of Done x s2 \<Rightarrow> after s (B x) s2 | Panic m q s2 \<Rightarrow> sameSource s s2 | Stuck \<Rightarrow> False))"

named_theorems froms \<open>rules for sequences that may go back\<close>

lemma from_start: "at n A p s \<Longrightarrow> (\<And>x s1. atFrom n B s (A x) (f x) s1) \<Longrightarrow> at n B (thenP p f) s"
  by (fastforce simp: at_def atFrom_def thenP_def split: pres.splits)

lemma from_bind:
  assumes "at n A p s1" "\<And>x s2. atFrom n B s (c \<or> A x) (f x) s2"
  shows "atFrom n B s c (thenP p f) s1"
  unfolding atFrom_def
proof (intro impI)
  assume s: "ready s \<and> deep n s \<and> after s c s1"
  then have r: "ready s1" "deep n s1" using deep_after by (auto simp: after_def)
  show "case thenP p f s1 of Done x s2 \<Rightarrow> after s (B x) s2 | Panic m q s2 \<Rightarrow> sameSource s s2 | Stuck \<Rightarrow> False"
  proof (cases "p s1")
    case (Done x s2)
    then have "after s1 (A x) s2" using assms(1) r by (simp add: at_def)
    then have "after s (c \<or> A x) s2" using s by (auto simp: after_def sameSource_def)
    then show ?thesis using assms(2) [of x s2] s Done by (simp add: atFrom_def thenP_def)
  qed (use assms(1) r s in \<open>auto simp: at_def thenP_def after_def sameSource_def\<close>)
qed

lemma from_forward: "at n (\<lambda>y. B y \<and> \<not> c) p s1 \<Longrightarrow> atFrom n B s c p s1"
proof -
  assume p: "at n (\<lambda>y. B y \<and> \<not> c) p s1"
  show ?thesis
    unfolding atFrom_def
  proof (intro impI)
    assume s: "ready s \<and> deep n s \<and> after s c s1"
    then have r: "ready s1" "deep n s1" using deep_after by (auto simp: after_def)
    show "case p s1 of Done x s2 \<Rightarrow> after s (B x) s2 | Panic m q s2 \<Rightarrow> sameSource s s2 | Stuck \<Rightarrow> False"
    proof (cases "p s1")
      case (Done x s2)
      then have "after s1 (B x \<and> \<not> c) s2" using p r by (simp add: at_def)
      then have "after s (B x) s2" using s after_trans [of s c s1] by blast
      then show ?thesis using Done by simp
    qed (use p r s in \<open>auto simp: at_def after_def sameSource_def\<close>)
  qed
qed

lemma from_look [froms]: "atFrom n B s c (g (f s1)) s1 \<Longrightarrow> atFrom n B s c (look f g) s1"
  by (simp add: atFrom_def look_def)

lemma from_if [froms]: "(b \<Longrightarrow> atFrom n B s c p s1) \<Longrightarrow> (\<not> b \<Longrightarrow> atFrom n B s c q s1) \<Longrightarrow> atFrom n B s c (if b then p else q) s1"
  by simp

lemma from_next [froms]: "atFrom n B s c (thenP p (\<lambda>_. q)) s1 \<Longrightarrow> atFrom n B s c (next_do p q) s1"
  by (simp add: next_do_def)

lemma from_pair [froms]:
  "(\<And>x y. z = (x, y) \<Longrightarrow> atFrom n B s c (f x y) s1) \<Longrightarrow> atFrom n B s c (case z of (x, y) \<Rightarrow> f x y) s1"
  by (cases z) simp

text \<open>Going back works from any state with the same source, even one that a panic left.\<close>

lemma rewind_then:
  assumes s: "ready s" "deep n s" and lost: "sameSource s s1" "depth s1 = depth s"
    and f: "\<And>s2. ptok s2 = ptok s \<Longrightarrow> at n B (f ()) s2"
  shows "case thenP (rewind (snapshot s)) f s1 of Done x s2 \<Rightarrow> after s (B x) s2
      | Panic m q s2 \<Rightarrow> sameSource s s2 | Stuck \<Rightarrow> False"
proof -
  let ?s2 = "s1\<lparr>plx := plx s, ptok := ptok s\<rparr>"
  have run: "thenP (rewind (snapshot s)) f s1 = f () ?s2"
    using rewind_state [OF s(1) lost(1)] by (simp add: thenP_def)
  have e: "ready ?s2 = ready s" "deep n ?s2 = deep n s" "remaining ?s2 = remaining s" "depth ?s2 = depth s"
      "sameSource ?s2 = sameSource s"
    using lost by (simp_all add: ready_def deep_def remaining_def sameSource_def fun_eq_iff)
  have "at n B (f ()) ?s2" by (rule f) simp
  then show ?thesis
    using s by (simp add: run at_def e after_def [of ?s2] after_def [of s] split: pres.splits)
qed

lemma from_rewind [froms]:
  "(\<And>s2. ptok s2 = ptok s \<Longrightarrow> at n B (f ()) s2) \<Longrightarrow> atFrom n B s c (thenP (rewind (snapshot s)) f) s1"
  unfolding atFrom_def by (intro impI rewind_then) (auto simp: after_def)

lemma from_rewind_leaf [froms]: "\<not> B () \<Longrightarrow> atFrom n B s c (rewind (snapshot s)) s1"
  using from_rewind [of s n B retP c s1] by (simp add: thenP_retP at_retP)

lemma from_retP [froms]: "(B x \<Longrightarrow> c) \<Longrightarrow> atFrom n B s c (retP x) s1"
  by (rule from_forward) (auto intro: at_retP)

lemma from_fail [froms]: "atFrom n B s c (fail m) s1" "atFrom n B s c (failAt m q) s1"
  by (rule from_forward, rule thens)+

lemma from_any: "at n A p s1 \<Longrightarrow> (\<And>x. B x \<Longrightarrow> c) \<Longrightarrow> atFrom n B s c p s1"
  by (rule from_forward, rule at_weaken [of n A]) auto

text \<open>A recovered panic: what follows it goes back.\<close>

lemma from_attempt:
  assumes p: "at n A p s1" and found: "\<And>x s2. atFrom n B s (c \<or> A x) (f x) s2"
    and goBack: "\<And>s2. ptok s2 = ptok s \<Longrightarrow> at n B q s2"
  shows "atFrom n B s c (thenP (attempt p)
    (\<lambda>res. case res of None \<Rightarrow> next_do (rewind (snapshot s)) q | Some x \<Rightarrow> f x)) s1"
  unfolding atFrom_def
proof (intro impI)
  assume s: "ready s \<and> deep n s \<and> after s c s1"
  then have r: "ready s1" "deep n s1" using deep_after by (auto simp: after_def)
  let ?f = "\<lambda>res. case res of None \<Rightarrow> next_do (rewind (snapshot s)) q | Some x \<Rightarrow> f x"
  show "case thenP (attempt p) ?f s1 of Done x s2 \<Rightarrow> after s (B x) s2 | Panic m w s2 \<Rightarrow> sameSource s s2 | Stuck \<Rightarrow> False"
  proof (cases "p s1")
    case (Done x s2)
    then have "after s1 (A x) s2" using p r by (simp add: at_def)
    then have "after s (c \<or> A x) s2" using s by (auto simp: after_def sameSource_def)
    then show ?thesis using found [of x s2] s Done by (simp add: atFrom_def thenP_def attempt_def)
  next
    case (Panic m w s2)
    then have "sameSource s (s2\<lparr>depth := depth s1\<rparr>)" using p r s by (simp add: at_def after_def sameSource_def)
    moreover have "thenP (attempt p) ?f s1
        = thenP (rewind (snapshot s)) (\<lambda>_. q) (s2\<lparr>depth := depth s1\<rparr>)"
      using Panic by (simp add: thenP_def attempt_def next_do_def)
    ultimately show ?thesis
      using rewind_then [of s n "s2\<lparr>depth := depth s1\<rparr>" B "\<lambda>_. q"] s goBack by (simp add: after_def)
  qed (use p r in \<open>simp add: at_def\<close>)
qed

section \<open>Skipping\<close>

lemma at_advanceUntil: "at n (\<lambda>_. False) (advanceUntil u k) s"
  unfolding advanceUntil_def by (intro thens) auto

lemmas at_advanceUntil_rules [thens] = at_any_then [OF at_advanceUntil] at_any_leaf [OF at_advanceUntil]

lemma at_balanced: "at n (\<lambda>_. False) (balanced u count d) s"
  unfolding balanced_def by (intro thens) auto

lemmas at_balanced_rules [thens] = at_any_then [OF at_balanced] at_any_leaf [OF at_balanced]

lemma at_hasMatchingClosingAngle: "at n (\<lambda>_. False) (hasMatchingClosingAngle u) s"
proof -
  define body where "body = (\<lambda>d. look ptok (\<lambda>t.
            if tKind t = EOFT \<or> d \<le> 0 then retP (Inr (d \<le> (0::int)))
            else if tKind t = SemicolonT \<or> tKind t = AssignT then retP (Inr False)
            else let d1 = angleAhead (tKind t) d
                 in if d1 \<le> 0 then retP (Inr True) else next_do (padvance u) (retP (Inl d1))))"
  define p where "p = next_do (padvance u) (repeatP body 1)"
  have p: "at n (\<lambda>_. False) p s" unfolding p_def body_def by (intro thens) auto
  have run: "hasMatchingClosingAngle u s
      = deferred (\<lambda>s1. s1\<lparr>plx := Restore (Save (plx s)) (plx s1), ptok := ptok s\<rparr>) p s"
    unfolding hasMatchingClosingAngle_def p_def body_def by (simp add: look_def snapshot_def)
  show ?thesis
    unfolding at_def
  proof (intro impI)
    assume s: "ready s \<and> deep n s"
    have undone: "Restore (Save (plx s)) (plx s1) = plx s" if "sameSource s s1" for s1
      using that s by (simp add: Restore_def Save_def sameSource_def ready_def inSource_def)
    have "case p s of Done x s1 \<Rightarrow> after s False s1 | Panic m q s1 \<Rightarrow> sameSource s s1 | Stuck \<Rightarrow> False"
      using p s by (simp add: at_def)
    then show "case hasMatchingClosingAngle u s of Done x s1 \<Rightarrow> after s False s1 | Panic m q s1 \<Rightarrow> sameSource s s1 | Stuck \<Rightarrow> False"
      using s undone by (cases "p s") (simp_all add: run deferred_def after_def ready_def remaining_def sameSource_def)
  qed
qed

text \<open>Afterwards the token is the one before.\<close>

lemma hasMatchingClosingAngle_token: "hasMatchingClosingAngle u s = Done x s1 \<Longrightarrow> ptok s1 = ptok s"
  by (auto simp: hasMatchingClosingAngle_def look_def deferred_def snapshot_def split: pres.splits)

lemma at_hasMatchingClosingAngle_then:
  assumes "\<And>b s1. ptok s1 = ptok s \<Longrightarrow> at n B (f b) s1"
  shows "at n B (thenP (hasMatchingClosingAngle u) f) s"
  by (rule at_bind [OF at_hasMatchingClosingAngle]) (simp add: assms hasMatchingClosingAngle_token)

lemma typeMove_split: "typeMove k d = SplitAssign m \<Longrightarrow> m < splitWidth k \<and> k \<noteq> EOFT"
  by (auto simp: typeMove_def closeAngle_def splitWidth_def Let_def split: if_splits)

text \<open>The assignment sign that is cut off a token starts before the cursor.\<close>

lemma at_split_then:
  assumes m: "m < splitWidth (tKind t)" "tKind t \<noteq> EOFT" and t: "ptok s = t" and f: "\<And>s1. at n B (f ()) s1"
  shows "at n B (thenP (modify (\<lambda>s1. s1\<lparr>ptok := mkTok AssignT ((tPos t)\<lparr>posCol := c, posOffset := posOffset (tPos t) + m\<rparr>) v NoMsg\<rparr>)) f) s"
proof (rule at_then)
  show "at n (\<lambda>_. False) (modify (\<lambda>s1. s1\<lparr>ptok := mkTok AssignT ((tPos t)\<lparr>posCol := c, posOffset := posOffset (tPos t) + m\<rparr>) v NoMsg\<rparr>)) s"
    using m t by (auto simp: at_def modify_def after_def ready_def remaining_def sameSource_def mkTok_def splitWidth_def inSource_def)
qed (simp add: f)

lemma at_moves:
  assumes "\<And>d1. at n B (g d1) s" "at n B p s" "\<And>m. mv = SplitAssign m \<Longrightarrow> at n B (h m) s" "at n B q s"
  shows "at n B (case mv of GoOn d1 \<Rightarrow> g d1 | EndHere \<Rightarrow> p | SplitAssign m \<Rightarrow> h m | OpenAngle \<Rightarrow> q) s"
  using assms by (cases mv) simp_all

lemma at_skipTypeStep: "at n isl (skipTypeStep u inAs d) s"
proof -
  have move: "at n isl (case typeMove (tKind t) d of
               EndHere \<Rightarrow> retP (Inr None)
             | OpenAngle \<Rightarrow> fail (Msg closeMsg)
             | SplitAssign n \<Rightarrow>
                 next_do (modify (\<lambda>s. s\<lparr>ptok := mkTok AssignT
                     ((tPos t)\<lparr>posCol := posCol (tPos t) + n, posOffset := posOffset (tPos t) + n\<rparr>) (ascii ''='') NoMsg\<rparr>))
                   (retP (Inr None))
             | GoOn d1 \<Rightarrow> next_do (padvance u) (retP (Inl (h d1)))) s1"
    if "ptok s1 = t" "tKind t \<noteq> EOFT" for t s1 and h :: "typeSkip \<Rightarrow> typeSkip"
    by (intro at_moves at_next_do at_retP at_fail at_padvance_then at_split_then)
      (use that in \<open>auto dest: typeMove_split\<close>)
  show ?thesis
    unfolding skipTypeStep_def
    by (intro at_look at_if at_retP at_if_then at_ret_then at_assoc at_hasMatchingClosingAngle_then move)
      simp_all
qed

lemma at_skipTypeCustom: "at n (\<lambda>_. False) (skipTypeCustom u inAs) s"
  unfolding skipTypeCustom_def
  by (intro thens) (auto intro: at_skipTypeStep)

lemma at_skipTypes:
  "at n (\<lambda>_. False) (skipType u) s" "at n (\<lambda>_. False) (skipTypeAs u) s"
  unfolding skipType_def skipTypeAs_def by (rule at_skipTypeCustom)+

lemmas at_skipTypes_rules [thens] = at_skipTypes [THEN at_any_then] at_skipTypes [THEN at_any_leaf]

lemma at_skipTypeAnnotation: "at n (\<lambda>_. False) (skipTypeAnnotation u) s"
  unfolding skipTypeAnnotation_def by (intro thens) auto

lemma at_skipTypeParams: "at n (\<lambda>_. False) (skipTypeParams u) s"
  unfolding skipTypeParams_def by (intro thens) auto

lemma at_skipBalancedBraces: "at n (\<lambda>_. False) (skipBalancedBraces u) s"
  unfolding skipBalancedBraces_def by (intro thens) auto

lemmas at_skips_rules [thens] =
  at_any_then [OF at_skipTypeAnnotation] at_any_leaf [OF at_skipTypeAnnotation]
  at_any_then [OF at_skipTypeParams] at_any_leaf [OF at_skipTypeParams]
  at_any_then [OF at_skipBalancedBraces] at_any_leaf [OF at_skipBalancedBraces]

end
