(* ===== verification/ParseDescent.thy ===== *)
theory ParseDescent
  imports ParseTypes
begin

text \<open>
  The recursive descent one level at a time.  The locale \<open>descent\<close> is what a parsing function
  relies on: the seven functions one level deeper read something and are not stuck within the
  depth that is left.  Inside it every parsing function is shown to do so, and the seven at one
  level more.
\<close>

section \<open>The interface\<close>

locale descent =
  fixes u :: utab and r :: pfuns and n :: nat
  assumes assign: "at n (\<lambda>_. True) (rAssign r) s"
    and binary: "at n (\<lambda>_. True) (rBinary r k) s"
    and unary: "at n (\<lambda>_. True) (rUnary r) s"
    and callOrMember: "at n (\<lambda>_. True) (rCallOrMember r b) s"
    and primary: "at n (\<lambda>_. True) (rPrimary r) s"
    and item: "at n (\<lambda>_. True) (rItem r) s"
    and statement: "at n (\<lambda>_. True) (rStatement r) s"

lemma depth_facts:
  "ready (s\<lparr>depth := d\<rparr>) = ready s" "remaining (s\<lparr>depth := d\<rparr>) = remaining s"
  "sameSource (s\<lparr>depth := d\<rparr>) = sameSource s" "sameSource s1 (s\<lparr>depth := d\<rparr>) = sameSource s1 s"
  by (simp_all add: ready_def remaining_def sameSource_def fun_eq_iff)

text \<open>One level deeper, the depth is one more.\<close>

lemma entered_run:
  "entered p s = (if depth s + 1 > maxDepth
     then Panic (Msg ''imbrication trop profonde'') (tPos (ptok s)) (s\<lparr>depth := depth s + 1\<rparr>)
     else deferred (\<lambda>s. s\<lparr>depth := depth s - 1\<rparr>) p (s\<lparr>depth := depth s + 1\<rparr>))"
  by (simp add: entered_def enterP_def next_do_def thenP_def modify_def look_def fail_def retP_def)

lemma at_entered:
  assumes "\<And>s. at n B p s"
  shows "at (Suc n) B (entered p) s"
  unfolding at_def
proof (intro impI)
  assume s: "ready s \<and> deep (Suc n) s"
  let ?s1 = "s\<lparr>depth := depth s + 1\<rparr>"
  show "case entered p s of Done x s1 \<Rightarrow> after s (B x) s1 | Panic m q s1 \<Rightarrow> sameSource s s1 | Stuck \<Rightarrow> False"
  proof (cases "depth s + 1 > maxDepth")
    case True
    then show ?thesis
      by (simp add: entered_run depth_facts sameSource_def)
  next
    case False
    have run: "entered p s = deferred (\<lambda>s. s\<lparr>depth := depth s - 1\<rparr>) p ?s1"
      using False by (simp add: entered_run)
    have "deep n ?s1" using s False by (auto simp: deep_def)
    then have "case p ?s1 of Done x s1 \<Rightarrow> after ?s1 (B x) s1 | Panic m q s1 \<Rightarrow> sameSource ?s1 s1 | Stuck \<Rightarrow> False"
      using assms [of ?s1] s by (simp add: at_def depth_facts)
    then show ?thesis
      by (cases "p ?s1") (simp_all add: run deferred_def after_def depth_facts)
  qed
qed

section \<open>Combinators\<close>

lemma at_inFunctionBody [thens]: "(\<And>s1. at n B p s1) \<Longrightarrow> at n B (inFunctionBody gen async p) s"
  unfolding inFunctionBody_def by (intro thens)

lemma at_allowingIn [thens]: "(\<And>s1. at n B p s1) \<Longrightarrow> at n B (allowingIn p) s"
  unfolding allowingIn_def by (intro thens)

lemma at_inLoop [thens]: "(\<And>s1. at n B p s1) \<Longrightarrow> at n B (inLoop p) s"
  unfolding inLoop_def iterationBy_def by (intro thens)

lemma at_toPatternP: "at n (\<lambda>_. False) (toPatternP e) s"
  unfolding toPatternP_def by (intro thens) auto

lemmas at_toPatternP_rules [thens] = at_any_then [OF at_toPatternP] at_any_leaf [OF at_toPatternP]

lemma at_annotated: "at n (\<lambda>_. False) (annotated u) s"
  unfolding annotated_def by (intro thens) auto

lemmas at_annotated_rules [thens] = at_any_then [OF at_annotated] at_any_leaf [OF at_annotated]

lemma at_optionalName: "at n (\<lambda>_. False) (optionalName u named) s"
  unfolding optionalName_def by (intro thens) auto

lemmas at_optionalName_rules [thens] = at_any_then [OF at_optionalName] at_any_leaf [OF at_optionalName]

lemma at_memberAsync: "at n (\<lambda>_. False) (memberAsync u test) s"
  unfolding memberAsync_def by (intro thens) auto

lemmas at_memberAsync_rules [thens] = at_any_then [OF at_memberAsync] at_any_leaf [OF at_memberAsync]

lemma at_memberAccessor: "at n (\<lambda>_. False) (memberAccessor u test) s"
  unfolding memberAccessor_def by (intro thens) auto

lemmas at_memberAccessor_rules [thens] = at_any_then [OF at_memberAccessor] at_any_leaf [OF at_memberAccessor]

lemma at_skipClassModifiers: "at n (\<lambda>_. False) (skipClassModifiers u) s"
  unfolding skipClassModifiers_def by (intro thens) (auto simp: modifierWord_def token_defs)

lemmas at_skipClassModifiers_rules [thens] =
  at_any_then [OF at_skipClassModifiers] at_any_leaf [OF at_skipClassModifiers]

text \<open>Reading on after a substitution: the piece starts at the brace.\<close>

lemma continuation_reads:
  assumes "NextTemplateContinuation l0 = (t, l)" "tKind t \<noteq> IllegalT" "inSource l0"
  shows "lsrc l = lsrc l0" "loff l0 < loff l" "inSource l"
proof -
  have b: "peekR l0 = rn CHR ''}''" "templateLoop (Pos l0) False (advance l0) = (t, l)"
    using assms(1,2) by (auto simp: NextTemplateContinuation_def scanTemplate_def mkTok_def split: if_splits)
  have r: "reads (advance l0) l" using scanned_templateLoop [of "Pos l0" "advance l0" False] b(2) by (simp add: scanned_def)
  have "bytesLeft (advance l0) < bytesLeft l0" by (rule left_advance) (simp add: b(1) eofRune_def rn_def)
  then have o: "loff l0 < loff (advance l0)" by (simp add: bytesLeft_def)
  note m = reads_mono [OF reads_one [of l0]] reads_mono [OF r]
  show "lsrc l = lsrc l0" "loff l0 < loff l" "inSource l" using m o assms(3) by (auto simp: inSource_def)
qed

lemma at_templatePiece: "at n (\<lambda>_. True) (templatePiece u) s"
  unfolding at_def
proof (intro impI)
  assume s: "ready s \<and> deep n s"
  let ?l0 = "SeekTo (tPos (ptok s)) (plx s)"
  obtain t l where n: "NextTemplateContinuation ?l0 = (t, l)" by (cases "NextTemplateContinuation ?l0")
  let ?s1 = "s\<lparr>plx := l\<rparr>"
  show "case templatePiece u s of Done x s1 \<Rightarrow> after s True s1 | Panic m q s1 \<Rightarrow> sameSource s s1 | Stuck \<Rightarrow> False"
  proof (cases "tKind (ptok s) = RBraceT")
    case True
    have o: "posOffset (tPos (ptok s)) \<le> length (lsrc (plx s))"
      using s True by (auto simp: ready_def inSource_def)
    then have l0: "inSource ?l0" "lsrc ?l0 = lsrc (plx s)" "loff ?l0 = posOffset (tPos (ptok s))"
      by (simp_all add: SeekTo_def inSource_def)
    show ?thesis
    proof (cases "tKind t = IllegalT")
      case True
      have "lsrc l = lsrc (plx s)"
        using n reads_mono(1) scanned_templateLoop [of "Pos ?l0" "advance ?l0" False] l0(2)
          reads_mono(1) [OF reads_one [of ?l0]]
        by (auto simp: NextTemplateContinuation_def scanTemplate_def scanned_def split: if_splits)
      then show ?thesis
        using True \<open>tKind (ptok s) = RBraceT\<close>
        by (simp add: templatePiece_def look_def n next_do_def thenP_def modify_def failAt_def sameSource_def)
    next
      case False
      note c = continuation_reads [OF n False l0(1)]
      have r1: "ready ?s1" using c l0 True by (simp add: ready_def splitWidth_def)
      have a1: "after s False ?s1" using c l0 r1 True by (simp add: after_def sameSource_def remaining_def)
      have "at n (\<lambda>_. True) (next_do (padvance u) (retP t)) ?s1" using True by (intro thens) auto
      then have "case next_do (padvance u) (retP t) ?s1 of Done x s1 \<Rightarrow> after ?s1 True s1
          | Panic m q s1 \<Rightarrow> sameSource ?s1 s1 | Stuck \<Rightarrow> False"
        using r1 deep_after [OF _ a1] s by (simp add: at_def)
      moreover have "templatePiece u s = next_do (padvance u) (retP t) ?s1"
        using True False by (simp add: templatePiece_def look_def n next_do_def thenP_def modify_def)
      ultimately show ?thesis using a1 by (auto simp: after_def sameSource_def split: pres.splits)
    qed
  qed (simp add: templatePiece_def look_def fail_def sameSource_def)
qed

section \<open>Expressions\<close>

context descent
begin

lemmas below_rules [thens] =
  at_strict_then [OF assign] at_strict_leaf [OF assign] at_strict_then [OF binary] at_strict_leaf [OF binary]
  at_strict_then [OF unary] at_strict_leaf [OF unary] at_strict_then [OF callOrMember] at_strict_leaf [OF callOrMember]
  at_strict_then [OF primary] at_strict_leaf [OF primary] at_strict_then [OF item] at_strict_leaf [OF item]
  at_strict_then [OF statement] at_strict_leaf [OF statement]

lemma at_parseExpression: "at n (\<lambda>_. True) (parseExpression u r) s"
  unfolding parseExpression_def by (intro thens) (auto)

lemmas parseExpression_rules [thens] = at_strict_then [OF at_parseExpression] at_strict_leaf [OF at_parseExpression]

lemma at_parseArguments: "at n (\<lambda>_. True) (parseArguments u r) s"
  unfolding parseArguments_def by (intro thens) (auto)

lemmas parseArguments_rules [thens] = at_strict_then [OF at_parseArguments] at_strict_leaf [OF at_parseArguments]

lemmas templatePiece_rules [thens] = at_strict_then [OF at_templatePiece] at_strict_leaf [OF at_templatePiece]

lemma at_parseTemplate: "tKind (ptok s) \<noteq> EOFT \<Longrightarrow> at n (\<lambda>_. True) (parseTemplate u r) s"
  unfolding parseTemplate_def by (intro thens) auto

lemma parseTemplate_then [thens]:
  "tKind (ptok s) \<noteq> EOFT \<Longrightarrow> (\<And>x s1. at n (\<lambda>_. False) (f x) s1) \<Longrightarrow> at n B (thenP (parseTemplate u r) f) s"
  by (rule at_then [OF at_parseTemplate]) auto

lemma parseTemplate_leaf [thens]: "tKind (ptok s) \<noteq> EOFT \<Longrightarrow> at n B (parseTemplate u r) s"
  by (rule at_weaken [OF at_parseTemplate]) auto

lemma at_arrayElements: "at n (\<lambda>_. False) (arrayElements u r) s"
  unfolding arrayElements_def by (intro thens) (auto)

lemmas arrayElements_rules [thens] = at_any_then [OF at_arrayElements] at_any_leaf [OF at_arrayElements]

lemma at_parseArrayLit: "at n (\<lambda>_. True) (parseArrayLit u r) s"
  unfolding parseArrayLit_def by (intro thens) (auto)

lemmas parseArrayLit_rules [thens] = at_strict_then [OF at_parseArrayLit] at_strict_leaf [OF at_parseArrayLit]

lemma at_parsePropertyKey: "at n (\<lambda>_. True) (parsePropertyKey u r) s"
  unfolding parsePropertyKey_def by (intro thens) (auto)

lemmas parsePropertyKey_rules [thens] = at_strict_then [OF at_parsePropertyKey] at_strict_leaf [OF at_parsePropertyKey]

lemma at_typedDefault:
  assumes "\<And>e s. at n (\<lambda>_. False) (target e) s"
  shows "at n (\<lambda>_. False) (typedDefault u r target e) s"
  unfolding typedDefault_def by (intro thens at_any_then [OF assms]) auto

lemmas typedDefault_rules [thens] = at_any_then [OF at_typedDefault]

lemma at_parseParams: "at n (\<lambda>_. True) (parseParams u r) s"
  unfolding parseParams_def by (intro thens) (auto)

lemmas parseParams_rules [thens] = at_strict_then [OF at_parseParams] at_strict_leaf [OF at_parseParams]

lemma at_parseBlock: "at n (\<lambda>_. True) (parseBlock u r) s"
  unfolding parseBlock_def by (intro thens) (auto)

lemmas parseBlock_rules [thens] = at_strict_then [OF at_parseBlock] at_strict_leaf [OF at_parseBlock]

lemma at_parseMethodTail: "at n (\<lambda>_. True) (parseMethodTail u r start gen async) s"
  unfolding parseMethodTail_def by (intro thens) (auto)

lemmas parseMethodTail_rules [thens] = at_strict_then [OF at_parseMethodTail] at_strict_leaf [OF at_parseMethodTail]

lemma at_objectMemberTail: "at n (\<lambda>_. False) (objectMemberTail u r start gen async key computed) s"
  unfolding objectMemberTail_def by (intro thens) (auto)

lemmas objectMemberTail_rules [thens] = at_any_then [OF at_objectMemberTail] at_any_leaf [OF at_objectMemberTail]

lemma at_parseObjectMember: "at n (\<lambda>_. True) (parseObjectMember u r) s"
  unfolding parseObjectMember_def by (intro thens) (auto)

lemmas parseObjectMember_rules [thens] = at_strict_then [OF at_parseObjectMember] at_strict_leaf [OF at_parseObjectMember]

lemma at_parseObjectLit: "at n (\<lambda>_. True) (parseObjectLit u r) s"
  unfolding parseObjectLit_def by (intro thens) (auto)

lemmas parseObjectLit_rules [thens] = at_strict_then [OF at_parseObjectLit] at_strict_leaf [OF at_parseObjectLit]

lemma at_eachP: "at n (\<lambda>_. False) (eachP toPatternP es) s"
  by (induction es arbitrary: s) (auto intro!: thens intro: at_any_then)

lemmas eachP_rules [thens] = at_any_then [OF at_eachP] at_any_leaf [OF at_eachP]

lemma at_parseArrowBody: "at n (\<lambda>_. False) (parseArrowBody u r params start async) s"
  unfolding parseArrowBody_def by (intro thens) (auto)

lemmas parseArrowBody_rules [thens] = at_any_then [OF at_parseArrowBody] at_any_leaf [OF at_parseArrowBody]

lemma at_parenItems: "at n (\<lambda>_. False) (parenItems u r) s"
  unfolding parenItems_def by (intro thens) (auto)

lemmas parenItems_rules [thens] = at_any_then [OF at_parenItems] at_any_leaf [OF at_parenItems]


lemma at_typedArrow [thens]:
  assumes "\<And>s. at n (\<lambda>_. False) arrow s" "\<And>s. at n (\<lambda>_. False) rest s"
  shows "at n (\<lambda>_. False) (typedArrow u arrow rest) s"
  unfolding typedArrow_def
  by (intro at_look) (auto intro!: at_if at_next_do from_start [OF at_padvance] froms from_bind [OF at_skipTypes(1)]
      from_any [OF assms(1)] assms)

lemma at_parseParenOrArrow: "at n (\<lambda>_. True) (parseParenOrArrow u r) s"
  unfolding parseParenOrArrow_def by (intro thens) auto

lemmas parseParenOrArrow_rules [thens] = at_strict_leaf [OF at_parseParenOrArrow]

lemma at_parseFunctionAt: "at n (\<lambda>_. True) (parseFunctionAt u r start async) s"
  unfolding parseFunctionAt_def by (intro thens) (auto)

lemmas parseFunctionAt_rules [thens] = at_strict_then [OF at_parseFunctionAt] at_strict_leaf [OF at_parseFunctionAt]

lemma at_parseFunctionDecl: "at n (\<lambda>_. True) (parseFunctionDecl u r start async) s"
proof -
  have named: "at n (\<lambda>_. False) (case fn of FunctionExpr _ NilNode _ _ _ _ \<Rightarrow> failAt m start | _ \<Rightarrow> retP fn) s" for fn m s
    by (cases fn) (auto intro: thens split: node.split)
  show ?thesis unfolding parseFunctionDecl_def by (intro thens named)
qed

lemmas parseFunctionDecl_rules [thens] = at_strict_then [OF at_parseFunctionDecl] at_strict_leaf [OF at_parseFunctionDecl]

lemma at_staticPrefix: "at n isl (staticPrefix u r start) s"
  unfolding staticPrefix_def
  by (intro thens from_start [OF at_padvance] froms from_bind [OF at_parseBlock]) (auto simp: token_defs intro: thens)

lemma at_classMemberTail: "at n (\<lambda>_. False) (classMemberTail u r start static gen async key computed) s"
  unfolding classMemberTail_def by (intro thens) (auto)

lemmas classMemberTail_rules [thens] = at_any_then [OF at_classMemberTail] at_any_leaf [OF at_classMemberTail]

lemma at_parseClassMember: "at n (\<lambda>_. True) (parseClassMember u r) s"
  unfolding parseClassMember_def
  by (intro thens at_then [OF at_staticPrefix]) auto

lemmas parseClassMember_rules [thens] = at_strict_then [OF at_parseClassMember] at_strict_leaf [OF at_parseClassMember]

lemma at_parseClassBody: "at n (\<lambda>_. False) (parseClassBody u r) s"
  unfolding parseClassBody_def by (intro thens) (auto)

lemmas parseClassBody_rules [thens] = at_any_then [OF at_parseClassBody] at_any_leaf [OF at_parseClassBody]

lemma at_parseClassExpr: "at n (\<lambda>_. True) (parseClassExpr u r) s"
  unfolding parseClassExpr_def by (intro thens) (auto)

lemmas parseClassExpr_rules [thens] = at_strict_then [OF at_parseClassExpr] at_strict_leaf [OF at_parseClassExpr]

end

end
