(* ===== verification/ParseLevels.thy ===== *)
theory ParseLevels
  imports ParseDescent
begin

text \<open>
  The descent through operators, assignment and statements; the seven functions one level up, the
  induction over the levels, and the totality of \<open>Parse\<close>.
\<close>

section \<open>Primary expressions, members and calls\<close>

context descent
begin

lemma at_sloppyIdent: "tKind (ptok s) = KeywordT \<Longrightarrow> at n B (sloppyIdent u t) s"
  unfolding sloppyIdent_def by (intro thens) auto

lemma at_asyncPrimary: "tKind (ptok s) \<noteq> EOFT \<Longrightarrow> at n (\<lambda>_. True) (asyncPrimary u r t name) s"
  unfolding asyncPrimary_def by (intro thens) auto

lemma at_importPrimary: "tKind (ptok s) \<noteq> EOFT \<Longrightarrow> at n (\<lambda>_. True) (importPrimary u r start) s"
  unfolding importPrimary_def by (intro thens) auto

lemma at_keywordPrimary: "tKind (ptok s) = KeywordT \<Longrightarrow> at n (\<lambda>_. True) (keywordPrimary u r t) s"
  unfolding keywordPrimary_def
  by (intro thens at_asyncPrimary at_importPrimary at_sloppyIdent) auto

lemma at_parsePrimary: "at (Suc n) (\<lambda>_. True) (parsePrimary u r) s"
  unfolding parsePrimary_def
  by (intro at_entered thens at_asyncPrimary at_keywordPrimary) auto

lemma at_propertyNameNode: "at n (\<lambda>_. False) (propertyNameNode u) s"
  unfolding propertyNameNode_def by (intro thens) (auto)

lemmas propertyNameNode_rules [thens] = at_any_then [OF at_propertyNameNode] at_any_leaf [OF at_propertyNameNode]

lemma at_propertyAfter: "at n (\<lambda>_. True) (propertyAfter u msg) s"
  unfolding propertyAfter_def propertyNameNode_def by (intro thens) (auto simp: token_defs)

lemmas propertyAfter_rules [thens] = at_strict_then [OF at_propertyAfter] at_strict_leaf [OF at_propertyAfter]

lemma at_indexExpr: "at n (\<lambda>_. True) (indexExpr u r) s"
  unfolding indexExpr_def by (intro thens) (auto)

lemmas indexExpr_rules [thens] = at_strict_then [OF at_indexExpr] at_strict_leaf [OF at_indexExpr]

lemma at_parseNew: "tKind (ptok s) \<noteq> EOFT \<Longrightarrow> at n (\<lambda>_. True) (parseNew u r) s"
  unfolding parseNew_def by (intro thens) auto

lemma at_typeArguments: "tKind (ptok s) \<noteq> EOFT \<Longrightarrow> at n (\<lambda>b. b) (typeArguments u) s"
  unfolding typeArguments_def
  by (intro at_look at_next_do from_start [OF at_padvance] froms from_bind [OF at_balanced]) (auto intro: at_retP)

lemma at_optionalLink: "at n (\<lambda>_. True) (optionalLink u r allowCall e) s"
  unfolding optionalLink_def by (intro thens) auto

lemmas optionalLink_rules [thens] = at_strict_then [OF at_optionalLink] at_strict_leaf [OF at_optionalLink]

lemma at_memberStep: "at n isl (memberStep u r allowCall eo) s"
  unfolding memberStep_def
  by (intro thens at_bool_then [OF at_typeArguments]) (auto simp: token_defs)

lemma at_parseCallOrMember: "at (Suc n) (\<lambda>_. True) (parseCallOrMember u r allowCall) s"
  unfolding parseCallOrMember_def
  by (intro at_entered thens at_memberStep at_then [OF at_parseNew]) (auto simp: token_defs)

section \<open>Operators and assignment\<close>

lemma at_parsePostfix: "at n (\<lambda>_. True) (parsePostfix u r) s"
  unfolding parsePostfix_def by (intro thens) (auto)

lemmas parsePostfix_rules [thens] = at_strict_then [OF at_parsePostfix] at_strict_leaf [OF at_parsePostfix]

lemma unaryOps_kinds: "map_of unaryOps EOFT = None"
  by (simp add: unaryOps_def)

lemma at_parseUnary: "at (Suc n) (\<lambda>_. True) (parseUnary u r) s"
  unfolding parseUnary_def
  by (intro at_entered thens) auto

lemma at_binStep: "at n isl (binStep u r minPrec left) s"
  unfolding binStep_def
  by (intro thens) auto

lemma at_parseBinary: "at (Suc n) (\<lambda>_. True) (parseBinary u r minPrec) s"
  unfolding parseBinary_def by (intro at_entered thens at_binStep) auto

lemma at_parseConditional: "at n (\<lambda>_. True) (parseConditional u r) s"
  unfolding parseConditional_def by (intro thens) (auto)

lemmas parseConditional_rules [thens] = at_strict_then [OF at_parseConditional] at_strict_leaf [OF at_parseConditional]

lemma at_parseYield: "tKind (ptok s) \<noteq> EOFT \<Longrightarrow> at n (\<lambda>_. True) (parseYield u r) s"
  unfolding parseYield_def by (intro thens) auto

lemma at_identArrow: "at n (\<lambda>e. e \<noteq> NilNode) (identArrow u r start async) s"
  unfolding identArrow_def by (intro thens) auto

lemma at_parenList: "at n (\<lambda>_. False) (next_do (expect u LParenT)
     (thenP
       (repeatP (\<lambda>out. look ptok (\<lambda>t.
          if tKind t = RParenT then retP (Inr out)
          else if tKind t = EllipsisT then
            next_do (padvance u) (readHere u (thenP (rAssign r) (\<lambda>x. retP (Inr (out @ [RestElement (tPos t) x])))))
          else readHere u (thenP (rAssign r) (\<lambda>x. thenP (eat u CommaT) (\<lambda>more.
            retP (if more then Inl (out @ [x]) else Inr (out @ [x]))))))) [])
       (\<lambda>out. next_do (expect u RParenT) (retP out)))) s"
  by (intro thens) auto

lemma at_tryAsyncArrow: "tKind (ptok s) \<noteq> EOFT \<Longrightarrow> at n (\<lambda>e. e \<noteq> NilNode) (tryAsyncArrow u r) s"
proof -
  assume k: "tKind (ptok s) \<noteq> EOFT"
  have arrow: "at n (\<lambda>_. False) (next_do (padvance u) (parseArrowBody u r es start True)) s" for es start s
    by (intro thens) auto
  show ?thesis
    unfolding tryAsyncArrow_def trySpeculativeParenList_def Let_def
    by (rule at_look, simp only: prod.case)
      (intro at_next_do from_start [OF at_padvance] froms from_bind [OF at_identArrow]
        from_attempt [OF at_parenList] from_any [OF arrow]; (intro at_retP)?; use k in simp)
qed

lemma at_assignTarget: "at n (\<lambda>_. False) (assignTarget op left) s"
  unfolding assignTarget_def by (intro thens) (auto)

lemmas assignTarget_rules [thens] = at_any_then [OF at_assignTarget] at_any_leaf [OF at_assignTarget]

lemma at_assignmentTail: "at n (\<lambda>_. False) (assignmentTail u r start left) s"
  unfolding assignmentTail_def by (intro thens) auto

lemmas assignmentTail_rules [thens] = at_any_then [OF at_assignmentTail] at_any_leaf [OF at_assignmentTail]

lemma at_parseAssign: "at (Suc n) (\<lambda>_. True) (parseAssign u r) s"
  unfolding parseAssign_def
  by (intro at_entered thens at_parseYield at_found_then [OF at_identArrow] at_found_then [OF at_tryAsyncArrow])
    (auto simp: token_defs)

section \<open>Statements\<close>

lemma at_parseBindingTarget: "at n (\<lambda>_. True) (parseBindingTarget u r) s"
  unfolding parseBindingTarget_def by (intro thens) (auto simp: token_defs sloppyName_def)

lemmas parseBindingTarget_rules [thens] = at_strict_then [OF at_parseBindingTarget] at_strict_leaf [OF at_parseBindingTarget]

lemma at_initialiser: "at n (\<lambda>_. False) (initialiser u r) s"
  unfolding initialiser_def by (intro thens) (auto)

lemmas initialiser_rules [thens] = at_any_then [OF at_initialiser] at_any_leaf [OF at_initialiser]

lemma at_declarator: "at n (\<lambda>_. True) (declarator u r bang) s"
  unfolding declarator_def by (intro thens) (auto)

lemmas declarator_rules [thens] = at_strict_then [OF at_declarator] at_strict_leaf [OF at_declarator]

lemma at_parseVarDeclList: "at n (\<lambda>_. False) (parseVarDeclList u r kind start) s"
  unfolding parseVarDeclList_def by (intro thens) (auto)

lemmas parseVarDeclList_rules [thens] = at_any_then [OF at_parseVarDeclList] at_any_leaf [OF at_parseVarDeclList]

lemma at_parseVarDecl: "tKind (ptok s) \<noteq> EOFT \<Longrightarrow> at n (\<lambda>_. True) (parseVarDecl u r kind) s"
  unfolding parseVarDecl_def by (intro thens) (auto)

lemma at_parenExpr: "at n (\<lambda>_. True) (parenExpr u r) s"
  unfolding parenExpr_def by (intro thens) (auto)

lemmas parenExpr_rules [thens] = at_strict_then [OF at_parenExpr] at_strict_leaf [OF at_parenExpr]

lemma at_parseIf: "at n (\<lambda>_. True) (parseIf u r) s"
  unfolding parseIf_def by (intro thens) (auto)

lemmas parseIf_rules [thens] = at_strict_then [OF at_parseIf] at_strict_leaf [OF at_parseIf]

lemma at_parseWhile: "at n (\<lambda>_. True) (parseWhile u r) s"
  unfolding parseWhile_def by (intro thens) (auto)

lemmas parseWhile_rules [thens] = at_strict_then [OF at_parseWhile] at_strict_leaf [OF at_parseWhile]

lemma at_parseDoWhile: "at n (\<lambda>_. True) (parseDoWhile u r) s"
  unfolding parseDoWhile_def iterationBy_def by (intro thens) (auto)

lemmas parseDoWhile_rules [thens] = at_strict_then [OF at_parseDoWhile] at_strict_leaf [OF at_parseDoWhile]

lemma at_parseForTail: "at n (\<lambda>_. True) (parseForTail u r start init) s"
  unfolding parseForTail_def by (intro thens) (auto)

lemmas parseForTail_rules [thens] = at_strict_then [OF at_parseForTail] at_strict_leaf [OF at_parseForTail]

lemma at_forInRight: "at n (\<lambda>_. True) (forInRight u r) s"
  unfolding forInRight_def by (intro thens) (auto)

lemmas forInRight_rules [thens] = at_strict_then [OF at_forInRight] at_strict_leaf [OF at_forInRight]

lemma at_checkForDeclEarlyErrors: "at n (\<lambda>_. False) (checkForDeclEarlyErrors target body) s"
  unfolding checkForDeclEarlyErrors_def by (intro thens) auto

lemmas checkForDeclEarlyErrors_rules [thens] = at_any_then [OF at_checkForDeclEarlyErrors] at_any_leaf [OF at_checkForDeclEarlyErrors]

lemma at_forDeclaration: "at n (\<lambda>_. True) (forDeclaration u r start aw awaitUsing usingDecl) s"
  unfolding forDeclaration_def by (intro thens) (auto)

lemmas forDeclaration_rules [thens] = at_strict_then [OF at_forDeclaration] at_strict_leaf [OF at_forDeclaration]

lemma at_forExpression: "at n (\<lambda>_. True) (forExpression u r start aw) s"
  unfolding forExpression_def by (intro thens) (auto)

lemmas forExpression_rules [thens] = at_strict_then [OF at_forExpression] at_strict_leaf [OF at_forExpression]

lemma at_declarationStarts: "at n (\<lambda>_. False) (declarationStarts u) s"
  unfolding declarationStarts_def letStartsDeclaration_def by (intro thens) (auto)

lemmas declarationStarts_rules [thens] = at_any_then [OF at_declarationStarts] at_any_leaf [OF at_declarationStarts]

lemma at_parseForHeader: "at n (\<lambda>_. True) (parseForHeader u r start aw) s"
  unfolding parseForHeader_def by (intro thens)

lemmas parseForHeader_rules [thens] = at_strict_then [OF at_parseForHeader] at_strict_leaf [OF at_parseForHeader]

lemma at_parseFor: "at n (\<lambda>_. True) (parseFor u r) s"
  unfolding parseFor_def by (intro thens) (auto simp: token_defs)

lemmas parseFor_rules [thens] = at_strict_then [OF at_parseFor] at_strict_leaf [OF at_parseFor]

section \<open>Jumps and handlers\<close>

lemma at_parseReturn: "tKind (ptok s) \<noteq> EOFT \<Longrightarrow> at n (\<lambda>_. True) (parseReturn u r) s"
  unfolding parseReturn_def by (intro thens) (auto)

lemma at_parseBreakContinue: "tKind (ptok s) \<noteq> EOFT \<Longrightarrow> at n (\<lambda>_. True) (parseBreakContinue u) s"
  unfolding parseBreakContinue_def by (intro thens) (auto)

lemma at_parseThrow: "at n (\<lambda>_. True) (parseThrow u r) s"
  unfolding parseThrow_def by (intro thens) (auto)

lemmas parseThrow_rules [thens] = at_strict_then [OF at_parseThrow] at_strict_leaf [OF at_parseThrow]

lemma at_parseCatch: "at n (\<lambda>_. False) (parseCatch u r) s"
  unfolding parseCatch_def by (intro thens) (auto)

lemmas parseCatch_rules [thens] = at_any_then [OF at_parseCatch] at_any_leaf [OF at_parseCatch]

lemma at_parseTry: "at n (\<lambda>_. True) (parseTry u r) s"
  unfolding parseTry_def by (intro thens) (auto)

lemmas parseTry_rules [thens] = at_strict_then [OF at_parseTry] at_strict_leaf [OF at_parseTry]

lemma at_caseBody: "at n (\<lambda>_. False) (caseBody u r) s"
  unfolding caseBody_def by (intro thens) (auto)

lemmas caseBody_rules [thens] = at_any_then [OF at_caseBody] at_any_leaf [OF at_caseBody]

lemma at_caseLabel: "at n (\<lambda>_. True) (caseLabel u r cStart seen) s"
  unfolding caseLabel_def by (intro thens) (auto)

lemmas caseLabel_rules [thens] = at_strict_then [OF at_caseLabel] at_strict_leaf [OF at_caseLabel]

lemma at_switchCases: "at n (\<lambda>_. False) (switchCases u r) s"
  unfolding switchCases_def by (intro thens) (auto)

lemmas switchCases_rules [thens] = at_any_then [OF at_switchCases] at_any_leaf [OF at_switchCases]

lemma at_parseSwitch: "at n (\<lambda>_. True) (parseSwitch u r) s"
  unfolding parseSwitch_def by (intro thens) (auto)

lemmas parseSwitch_rules [thens] = at_strict_then [OF at_parseSwitch] at_strict_leaf [OF at_parseSwitch]

lemma at_parseWith: "at n (\<lambda>_. True) (parseWith u r) s"
  unfolding parseWith_def by (intro thens) (auto)

lemmas parseWith_rules [thens] = at_strict_then [OF at_parseWith] at_strict_leaf [OF at_parseWith]

section \<open>Modules\<close>

lemma at_nameHere: "at n (\<lambda>_. False) (nameHere u) s"
  unfolding nameHere_def by (intro thens) (auto)

lemmas nameHere_rules [thens] = at_any_then [OF at_nameHere] at_any_leaf [OF at_nameHere]

lemma at_needName: "at n (\<lambda>_. True) (needName u w msg) s"
  unfolding needName_def by (intro thens) (auto simp: token_defs)

lemmas needName_rules [thens] = at_strict_then [OF at_needName] at_strict_leaf [OF at_needName]

lemma at_moduleSource: "at n (\<lambda>_. True) (moduleSource u) s"
  unfolding moduleSource_def by (intro thens) (auto)

lemmas moduleSource_rules [thens] = at_strict_then [OF at_moduleSource] at_strict_leaf [OF at_moduleSource]

lemma at_specifiers: "at n (\<lambda>_. True) (specifiers u nameOk msg mk acc) s"
  unfolding specifiers_def by (intro thens) auto

lemmas specifiers_rules [thens] = at_strict_then [OF at_specifiers] at_strict_leaf [OF at_specifiers]

lemma at_skipToSemicolon: "at n (\<lambda>_. False) (skipToSemicolon u start) s"
  unfolding skipToSemicolon_def by (intro thens) (auto)

lemmas skipToSemicolon_rules [thens] = at_any_then [OF at_skipToSemicolon] at_any_leaf [OF at_skipToSemicolon]

lemma at_typeImport: "at n (\<lambda>_. False) (typeImport u) s"
  unfolding typeImport_def by (intro thens) (auto simp: token_defs)

lemmas typeImport_rules [thens] = at_any_then [OF at_typeImport] at_any_leaf [OF at_typeImport]

lemma at_importSpecifiers: "at n (\<lambda>_. False) (importSpecifiers u) s"
  unfolding importSpecifiers_def by (intro thens) (auto)

lemmas importSpecifiers_rules [thens] = at_any_then [OF at_importSpecifiers] at_any_leaf [OF at_importSpecifiers]

lemma at_parseImportDecl: "tKind (ptok s) \<noteq> EOFT \<Longrightarrow> at n (\<lambda>_. True) (parseImportDecl u) s"
  unfolding parseImportDecl_def by (intro thens) (auto)

lemma at_interfaceHead: "tKind (ptok s) \<noteq> EOFT \<Longrightarrow> at n (\<lambda>_. True) (interfaceHead u) s"
  unfolding interfaceHead_def by (intro thens) (auto)

lemma at_exportDefault: "at n (\<lambda>_. True) (exportDefault u r start) s"
  unfolding exportDefault_def by (intro thens) (auto)

lemmas exportDefault_rules [thens] = at_strict_then [OF at_exportDefault] at_strict_leaf [OF at_exportDefault]

lemma at_exportStar: "at n (\<lambda>_. True) (exportStar u start) s"
  unfolding exportStar_def by (intro thens) (auto)

lemmas exportStar_rules [thens] = at_strict_then [OF at_exportStar] at_strict_leaf [OF at_exportStar]

lemma at_exportNamed: "at n (\<lambda>_. True) (exportNamed u start) s"
  unfolding exportNamed_def by (intro thens) (auto)

lemmas exportNamed_rules [thens] = at_strict_then [OF at_exportNamed] at_strict_leaf [OF at_exportNamed]

lemma at_exportedType: "tKind (ptok s) \<noteq> EOFT \<Longrightarrow> at n (\<lambda>_. True) (exportedType u start) s"
  unfolding exportedType_def by (intro thens at_then [OF at_interfaceHead]) (auto)

lemma at_parseExportDecl: "tKind (ptok s) \<noteq> EOFT \<Longrightarrow> at n (\<lambda>_. True) (parseExportDecl u r) s"
  unfolding parseExportDecl_def by (intro thens at_weaken [OF at_exportedType]) (auto simp: token_defs)

section \<open>Items\<close>

lemma at_loopBodyCheck: "at n (\<lambda>_. False) (loopBodyCheck u) s"
proof -
  have async: "at n (\<lambda>_. False) (look (\<lambda>s. (isIdentText ''async'' s, snapshot s)) (\<lambda>(b, sv).
        whenP b (next_do (padvance u) (look (\<lambda>s. isKeyword ''function'' s \<and> \<not> afterNewline s) (\<lambda>bad.
          if bad then fail badDeclaration else rewind sv))))) s" for s
    by (intro at_look) (auto simp: whenP_def intro!: at_retP at_next_do from_start [OF at_padvance] froms)
  show ?thesis
    unfolding loopBodyCheck_def letStartsDeclaration_def
    by (intro at_next_do at_look_then at_if_then at_assoc at_fail_then at_ret_then at_peekNext_then async)
qed

lemmas loopBodyCheck_rules [thens] = at_any_then [OF at_loopBodyCheck] at_any_leaf [OF at_loopBodyCheck]

lemma at_expressionStatement: "at n (\<lambda>_. True) (expressionStatement u r start) s"
  unfolding expressionStatement_def by (intro thens) (auto)

lemmas expressionStatement_rules [thens] = at_strict_then [OF at_expressionStatement] at_strict_leaf [OF at_expressionStatement]

lemma at_labelOrExpression: "at n (\<lambda>_. True) (labelOrExpression u r start) s"
  unfolding labelOrExpression_def by (intro thens) (auto)

lemmas labelOrExpression_rules [thens] = at_strict_then [OF at_labelOrExpression] at_strict_leaf [OF at_labelOrExpression]

lemma at_parseStatement: "at (Suc n) (\<lambda>_. True) (parseStatement u r) s"
  unfolding parseStatement_def
  by (intro at_entered thens at_parseVarDecl at_parseReturn at_parseBreakContinue) (auto simp: token_defs)

lemma at_typeDeclaration: "at n (\<lambda>d. d \<noteq> NilNode) (typeDeclaration u) s"
  unfolding typeDeclaration_def
  by (intro thens at_then [OF at_interfaceHead]) (auto simp: token_defs)

lemma at_itemTail: "at n (\<lambda>_. True) (itemTail u r) s"
  unfolding itemTail_def by (intro thens at_found_then [OF at_typeDeclaration]) auto

lemmas itemTail_rules [thens] = at_strict_then [OF at_itemTail] at_strict_leaf [OF at_itemTail]

lemma at_parseStatementListItem: "at (Suc n) (\<lambda>_. True) (parseStatementListItem u r) s"
  unfolding parseStatementListItem_def letStartsDeclaration_def importIsDeclaration_def
  by (intro at_entered thens at_parseVarDecl at_parseImportDecl at_parseExportDecl) (auto simp: token_defs)

end

section \<open>The levels\<close>

lemma at_no_depth: "at 0 B p s"
  by (auto simp: at_def deep_def)

lemma knot_descent: "descent (knot u n) n"
proof (induction n)
  case 0
  show ?case by unfold_locales (rule at_no_depth)+
next
  case (Suc n)
  show ?case
    by unfold_locales
      (simp_all add: Let_def descent.at_parseAssign [OF Suc] descent.at_parseBinary [OF Suc]
        descent.at_parseUnary [OF Suc] descent.at_parseCallOrMember [OF Suc] descent.at_parsePrimary [OF Suc]
        descent.at_parseStatementListItem [OF Suc] descent.at_parseStatement [OF Suc])
qed

interpretation levels: descent u "knot u n" n for u n
  by (rule knot_descent)

text \<open>The first token is read from the start of the source, where no token is current.\<close>

lemma start_reads: "ready (readToken u False (startState src opt))" "maxDepth < int n \<Longrightarrow> deep n (readToken u False (startState src opt))"
  using readToken_ready(1) [of "startState src opt" u False] inSource_New
  by (simp_all add: startState_def deep_def maxDepth_def readToken_fields)

lemma parseProgram_run:
  assumes n: "maxDepth < int n"
  shows "parseProgram u (knot u n) b (startState src opt) \<noteq> Stuck"
proof (cases rule: padvance_cases [of u "startState src opt"])
  case (bad m q)
  then show ?thesis by (simp add: parseProgram_def next_do_def thenP_def)
next
  case read
  let ?s1 = "readToken u False (startState src opt)"
  let ?loop = "repeatP (\<lambda>body. look (is_kind EOFT) (\<lambda>eof.
        if eof then retP (Inr (Program \<lparr>posOffset = 0, posLine = 1, posCol = 1\<rparr> body b))
        else thenP (rItem (knot u n)) (\<lambda>st. retP (Inl (body @ [st]))))) []"
  have "at n (\<lambda>_. False) ?loop ?s1"
    by (intro at_repeatP at_look at_if at_retP at_strict_then [OF levels.item]) simp_all
  then have "?loop ?s1 \<noteq> Stuck"
    using start_reads(1) [of u src opt] start_reads(2) [OF n, of u src opt] by (auto simp: at_def)
  then show ?thesis using read by (simp add: parseProgram_def next_do_def thenP_def)
qed

text \<open>
  C38. \<open>Parse\<close> is total.  On every source, under every Unicode table and with either option, the
  recursive descent comes to an end with a tree or with a syntax error: no loop of it goes round
  more often than the source has bytes, and the depth the code counts bounds its calls.
\<close>

theorem Parse_total: "Parse u src opt \<noteq> None"
  using parseProgram_run [of "nat maxDepth + 2" u "optModule opt" src opt] maxDepth_def by (auto simp: Parse_def split: pres.splits)

end
