(* ===== verification/ParsePrec.thy ===== *)
theory ParsePrec
  imports ParseLevels
begin

text \<open>
  Precedence: the trees of binary operators that the climbing builds are the ones the table asks for.
\<close>

section \<open>What a parser can return\<close>

text \<open>\<open>returns P p\<close>: every value that \<open>p\<close> returns satisfies \<open>P\<close>.\<close>

definition returns :: "('a \<Rightarrow> bool) \<Rightarrow> 'a parser \<Rightarrow> bool" where
  "returns P p \<longleftrightarrow> (\<forall>s. case p s of Done x s1 \<Rightarrow> P x | Panic m q s1 \<Rightarrow> True | Stuck \<Rightarrow> True)"

named_theorems returning \<open>rules by the form of a parser\<close>

lemma returns_retP [returning]: "P x \<Longrightarrow> returns P (retP x)"
  by (simp add: returns_def retP_def)

lemma returns_fail [returning]: "returns P (fail m)" "returns P (failAt m q)"
  by (simp_all add: returns_def fail_def failAt_def)

lemma returns_weaken: "returns A p \<Longrightarrow> (\<And>x. A x \<Longrightarrow> B x) \<Longrightarrow> returns B p"
  by (fastforce simp: returns_def split: pres.splits)

lemma returns_result: "returns P p \<Longrightarrow> p s = Done x s1 \<Longrightarrow> P x"
  by (auto simp: returns_def dest: spec [of _ s])

lemma returns_bind: "returns A p \<Longrightarrow> (\<And>x. A x \<Longrightarrow> returns P (f x)) \<Longrightarrow> returns P (thenP p f)"
  by (fastforce simp: returns_def thenP_def split: pres.splits)

lemma returns_any: "returns (\<lambda>_. True) p"
  by (simp add: returns_def split: pres.splits)

lemma returns_then [returning]: "(\<And>x. returns P (f x)) \<Longrightarrow> returns P (thenP p f)"
  by (rule returns_bind [OF returns_any])

lemma returns_next [returning]: "returns P q \<Longrightarrow> returns P (next_do p q)"
  by (simp add: next_do_def returns_then)

lemma returns_look [returning]: "(\<And>a. returns P (g a)) \<Longrightarrow> returns P (look f g)"
  by (simp add: returns_def look_def)

lemma returns_deferred [returning]: "returns P p \<Longrightarrow> returns P (deferred g p)"
  by (auto simp: returns_def deferred_def split: pres.splits)

lemma returns_if [returning]: "(b \<Longrightarrow> returns P p) \<Longrightarrow> (\<not> b \<Longrightarrow> returns P q) \<Longrightarrow> returns P (if b then p else q)"
  by simp

lemma returns_let [returning]: "returns P (f a) \<Longrightarrow> returns P (Let a f)"
  by simp

lemma returns_pair [returning]: "(\<And>x y. returns P (f x y)) \<Longrightarrow> returns P (case z of (x, y) \<Rightarrow> f x y)"
  by (cases z) simp

lemma returns_option [returning]: "returns P p \<Longrightarrow> (\<And>y. returns P (f y)) \<Longrightarrow> returns P (case x of None \<Rightarrow> p | Some y \<Rightarrow> f y)"
  by (cases x) simp_all

lemma returns_blocks [returning]:
  "returns P p \<Longrightarrow> returns P (entered p)" "returns P p \<Longrightarrow> returns P (readHere u p)"
  "returns P p \<Longrightarrow> returns P (allowingIn p)" "returns P p \<Longrightarrow> returns P (inFunctionBody gen async p)"
  by (simp_all add: entered_def readHere_def allowingIn_def inFunctionBody_def returning)

text \<open>Loops, with an invariant of the loop state and the parser state.\<close>

lemma loopP_keeps:
  assumes body: "\<And>a s. J a s \<Longrightarrow> (case body a s of Done (Inl b) s1 \<Rightarrow> J b s1 | Done (Inr c) s1 \<Rightarrow> Q c s1
      | Panic m q s1 \<Rightarrow> True | Stuck \<Rightarrow> True)"
  shows "J a s \<Longrightarrow> case loopP k body a s of Done c s1 \<Rightarrow> Q c s1 | Panic m q s1 \<Rightarrow> True | Stuck \<Rightarrow> True"
proof (induction k arbitrary: a s)
  case (Suc k)
  then show ?case using body [OF Suc.prems] by (fastforce split: pres.splits sum.splits)
qed simp

lemma returns_repeatP:
  assumes "\<And>a. I a \<Longrightarrow> returns (\<lambda>x. case x of Inl b \<Rightarrow> I b | Inr c \<Rightarrow> P c) (body a)" "I a"
  shows "returns P (repeatP body a)"
  unfolding returns_def repeatP_def
  using loopP_keeps [where J = "\<lambda>a _. I a" and body = body and Q = "\<lambda>c _. P c"] assms
  by (fastforce simp: returns_def split: pres.splits sum.splits)

section \<open>Operands\<close>

definition operand :: "node \<Rightarrow> bool" where
  "operand e = (case e of BinaryExpr _ _ _ _ \<Rightarrow> False | LogicalExpr _ _ _ _ \<Rightarrow> False | _ \<Rightarrow> True)"

text \<open>The nodes that primaries, members and unary expressions are made of.\<close>

lemma operand_simps [simp]:
  "operand (mark e)" "operand NilNode" "operand (Ident p x)" "operand (PrivateName p x)" "operand (NumberLit p x)"
  "operand (BigIntLit p x)" "operand (StringLit p x)" "operand (BoolLit p b)" "operand (NullLit p)"
  "operand (RegExpLit p x)" "operand (TemplateLit p xs es)" "operand (TaggedTemplate p e e1)" "operand (ThisExpr p)"
  "operand (SuperExpr p)" "operand (MetaProperty p x y)" "operand (ArrayLit p es b)" "operand (ObjectLit p es b)"
  "operand (FunctionExpr p e es e1 b c)" "operand (ArrowFunction p es e b)" "operand (ClassExpr p e e1 es)"
  "operand (UnaryExpr p x e)" "operand (UpdateExpr p x b e)" "operand (CallExpr p e es b)" "operand (NewExpr p e es)"
  "operand (MemberExpr p e e1 b c)" "operand (ChainExpr p e)" "operand (AwaitExpr p e)"
  by (simp_all add: mark_def operand_def)

lemma returns_template: "returns operand (parseTemplate u r)"
  unfolding parseTemplate_def
  by (intro returning returns_repeatP [where I = "\<lambda>_. True"]) simp_all

lemma returns_literals:
  "returns operand (parseArrayLit u r)" "returns operand (parseObjectLit u r)"
  unfolding parseArrayLit_def parseObjectLit_def by (intro returning; simp)+

lemma returns_arrowBody: "returns operand (parseArrowBody u r params start async)"
  unfolding parseArrowBody_def by (intro returning; simp)

lemma returns_parenOrArrow: "returns operand (parseParenOrArrow u r)"
  unfolding parseParenOrArrow_def typedArrow_def by (intro returning returns_arrowBody; simp)

lemma returns_functions:
  "returns operand (parseFunctionAt u r start async)" "returns operand (parseClassExpr u r)"
  unfolding parseFunctionAt_def parseClassExpr_def by (intro returning; simp)+

lemma returns_words:
  "returns operand (asyncPrimary u r t name)" "returns operand (importPrimary u r start)" "returns operand (sloppyIdent u t)"
  unfolding asyncPrimary_def importPrimary_def sloppyIdent_def by (intro returning returns_functions; simp)+

lemma returns_primary: "returns operand (parsePrimary u r)"
  unfolding parsePrimary_def keywordPrimary_def
  by (intro returning returns_template returns_literals returns_parenOrArrow returns_functions returns_words; simp)

lemma returns_member:
  assumes "returns operand (rPrimary r)"
  shows "returns operand (parseCallOrMember u r allowCall)"
proof -
  have new: "returns operand (parseNew u r)"
    unfolding parseNew_def by (intro returning; simp)
  have link: "returns operand (optionalLink u r allowCall e)" for e
    unfolding optionalLink_def by (intro returning; simp)
  have step: "returns (\<lambda>x. case x of Inl b \<Rightarrow> operand (fst b) | Inr c \<Rightarrow> operand c) (memberStep u r allowCall (e, seen))"
    if "operand e" for e seen
    unfolding memberStep_def prod.case
    by (rule returns_bind [OF link] returning | (simp add: that; fail))+
  have loop: "returns operand (repeatP (memberStep u r allowCall) (e, False))" if "operand e" for e
    by (rule returns_repeatP [where I = "\<lambda>b. operand (fst b)"]) (auto simp: that intro: step)
  have first: "returns operand (if b then parseNew u r else rPrimary r)" for b
    using new assms by simp
  show ?thesis
    unfolding parseCallOrMember_def by (intro returns_blocks(1) returns_look returns_bind [OF first] loop)
qed

lemma returns_unary:
  assumes "returns operand (rCallOrMember r True)"
  shows "returns operand (parseUnary u r)"
proof -
  have "returns operand (parsePostfix u r)"
    unfolding parsePostfix_def by (intro returns_bind [OF assms] returning; simp)
  then show ?thesis unfolding parseUnary_def by (intro returning; simp)
qed

section \<open>The operators of the language\<close>

text \<open>
  The binary operators of ECMAScript from the loosest to the tightest, level by level as in its
  grammar.  The table of the parser is checked against this one (\<open>currentOp_is\<close>).
\<close>

definition precedences :: "string list list" where
  "precedences = [[''??''], [''||''], [''&&''], [''|''], [''^''], [''&''],
     [''=='', ''!='', ''==='', ''!==''], [''<'', ''>'', ''<='', ''>='', ''instanceof'', ''in''],
     [''<<'', ''>>'', ''>>>''], [''+'', ''-''], [''*'', ''/'', ''%''], [''**'']]"

definition precOf :: "gostring \<Rightarrow> nat" where
  "precOf op = (case find (\<lambda>i. op \<in> ascii ` set (precedences ! i)) [0..<12] of Some i \<Rightarrow> Suc i | None \<Rightarrow> 0)"

definition isLogic :: "gostring \<Rightarrow> bool" where
  "isLogic op \<longleftrightarrow> op \<in> ascii ` {''??'', ''||'', ''&&''}"

text \<open>\<open>**\<close> binds to the right and admits no operator unparenthesised on its left; the others bind to the left.\<close>

definition rightPrec :: "gostring \<Rightarrow> nat" where
  "rightPrec op = (if op = ascii ''**'' then precOf op else precOf op + 1)"

definition leftPrec :: "gostring \<Rightarrow> nat" where
  "leftPrec op = (if op = ascii ''**'' then precOf op + 1 else precOf op)"

definition operatorOf :: "node \<Rightarrow> gostring option" where
  "operatorOf e = (case e of BinaryExpr _ op _ _ \<Rightarrow> Some op | LogicalExpr _ op _ _ \<Rightarrow> Some op | _ \<Rightarrow> None)"

text \<open>\<open>??\<close> next to \<open>&&\<close> or \<open>||\<close> without parentheses, and unary operators before \<open>**\<close>, are errors.\<close>

definition mixed :: "gostring \<Rightarrow> node \<Rightarrow> bool" where
  "mixed op e \<longleftrightarrow> (case operatorOf e of
     None \<Rightarrow> False
   | Some op1 \<Rightarrow> isLogic op \<and> isLogic op1 \<and> (op = ascii ''??'') \<noteq> (op1 = ascii ''??''))"

definition beginsUnary :: "node \<Rightarrow> bool" where
  "beginsUnary e \<longleftrightarrow> (case e of UnaryExpr _ _ _ \<Rightarrow> True | AwaitExpr _ _ \<Rightarrow> True | _ \<Rightarrow> False)"

definition joins :: "nat \<Rightarrow> gostring \<Rightarrow> node \<Rightarrow> node \<Rightarrow> bool" where
  "joins m op l r \<longleftrightarrow> 0 < precOf op \<and> m \<le> precOf op \<and> \<not> mixed op l \<and> \<not> mixed op r
     \<and> \<not> (op = ascii ''**'' \<and> beginsUnary l)"

text \<open>
  \<open>climbs m e\<close>: every operator of the unparenthesised operator tree at the root of \<open>e\<close> binds at
  least as tightly as \<open>m\<close>, its operands as tightly as it asks for on their side, and operators
  that may not meet without parentheses do not.  \<open>spread e\<close> is that tree in the order of the text:
  operands and operators in turn.
\<close>

function climbs :: "nat \<Rightarrow> node \<Rightarrow> bool" where
  "climbs m e =
     (case e of
        BinaryExpr _ op l r \<Rightarrow> \<not> isLogic op \<and> joins m op l r \<and> climbs (leftPrec op) l \<and> climbs (rightPrec op) r
      | LogicalExpr _ op l r \<Rightarrow> isLogic op \<and> joins m op l r \<and> climbs (leftPrec op) l \<and> climbs (rightPrec op) r
      | _ \<Rightarrow> True)"
  by pat_completeness auto
termination
  by (relation "measure (\<lambda>(m, e). size e)") auto

declare climbs.simps [simp del]

function spread :: "node \<Rightarrow> (gostring + node) list" where
  "spread e =
     (case e of
        BinaryExpr _ op l r \<Rightarrow> spread l @ Inl op # spread r
      | LogicalExpr _ op l r \<Rightarrow> spread l @ Inl op # spread r
      | _ \<Rightarrow> [Inr e])"
  by pat_completeness auto
termination
  by (relation "measure size") auto

declare spread.simps [simp del]

lemma climbs_operand: "operand e \<Longrightarrow> climbs m e"
  by (subst climbs.simps) (simp add: operand_def split: node.splits)

lemma spread_operand: "operand e \<Longrightarrow> spread e = [Inr e]"
  by (subst spread.simps) (simp add: operand_def split: node.splits)

lemma operand_operator: "operand e \<Longrightarrow> operatorOf e = None"
  by (simp add: operand_def operatorOf_def split: node.splits)

lemma climbs_at: "climbs m e \<Longrightarrow> (\<And>op. operatorOf e = Some op \<Longrightarrow> k \<le> precOf op) \<Longrightarrow> climbs k e"
  by (subst climbs.simps, subst (asm) climbs.simps) (simp add: operatorOf_def joins_def split: node.splits)

lemma of_char_byte: "(of_char c :: byte) = of_char d \<longleftrightarrow> c = d"
proof
  assume "(of_char c :: byte) = of_char d"
  then have "(word_of_nat (of_char c) :: byte) = word_of_nat (of_char d)" by (simp only: of_nat_of_char)
  then have "(of_char c :: nat) mod 256 = of_char d mod 256" by (simp add: word_of_nat_eq_iff take_bit_eq_mod del: of_char_mod_256)
  then show "c = d" by simp
qed simp

lemma ascii_eq: "ascii s = ascii t \<longleftrightarrow> s = t"
  by (simp add: ascii_def inj_map_eq_map inj_def of_char_byte)

lemma ascii_in: "ascii s \<in> ascii ` S \<longleftrightarrow> s \<in> S"
  by (auto simp: ascii_eq)

lemma mixesNullish_mixed: "climbs m e \<Longrightarrow> mixesNullish op e = mixed op e"
  by (subst (asm) climbs.simps)
    (auto simp: mixesNullish_def mixed_def operatorOf_def isLogic_def ascii_eq split: node.splits)

lemma unaryLeft_begins: "unaryLeft e = beginsUnary e"
  by (simp add: unaryLeft_def beginsUnary_def)

text \<open>The operator that a state is at, by the texts of the punctuators of the scanner and the two keywords.\<close>

definition punctText :: "tkind \<Rightarrow> gostring" where
  "punctText k = (case find (\<lambda>p. snd p = k) puncts of Some p \<Rightarrow> fst p | None \<Rightarrow> [])"

definition operatorAt :: "pst \<Rightarrow> gostring option" where
  "operatorAt s =
     (let t = ptok s;
          op = (if tKind t \<noteq> KeywordT then punctText (tKind t)
                else if tValue t \<in> ascii ` {''instanceof'', ''in''} then tValue t else [])
      in if precOf op = 0 \<or> (op = ascii ''in'' \<and> noIn s) then None else Some op)"

definition theOp :: "gostring \<Rightarrow> binOp" where
  "theOp op = \<lparr>opText = op, opPrec = precOf op, opLogic = isLogic op\<rparr>"

text \<open>The parser's table is that of the language.\<close>

lemma precOf_ascii: "precOf (ascii t) = (case find (\<lambda>i. t \<in> set (precedences ! i)) [0..<12] of Some i \<Rightarrow> Suc i | None \<Rightarrow> 0)"
  by (simp only: precOf_def ascii_in)

lemma isLogic_ascii: "isLogic (ascii t) \<longleftrightarrow> t \<in> {''??'', ''||'', ''&&''}"
  by (simp only: isLogic_def ascii_in)

lemma precOf_texts:
  "list_all (\<lambda>b. theOp (opText b) = b \<and> 0 < opPrec b \<and> opText b \<noteq> ascii ''in'') (map snd binOps)"
  "theOp (ascii ''instanceof'') = mkOp ''instanceof'' 8 False" "theOp (ascii ''in'') = mkOp ''in'' 8 False"
  "ascii ''instanceof'' \<noteq> ascii ''in''"
  by (simp_all add: binOps_def theOp_def mkOp_def precOf_ascii precedences_def isLogic_ascii ascii_eq upt_rec)

lemma precOf_Nil: "precOf [] = 0"
  using precOf_ascii [of "[]"] by (simp add: ascii_def precedences_def upt_rec)

lemma punctText_other: "map_of binOps k = None \<Longrightarrow> precOf (punctText k) = 0"
proof -
  have "list_all (\<lambda>p. map_of binOps (snd p) = None \<longrightarrow> precOf (fst p) = 0) puncts"
    by (simp add: binOps_def puncts_def precOf_ascii precedences_def upt_rec)
  moreover assume "map_of binOps k = None"
  moreover have "find (\<lambda>p. snd p = k) puncts = Some p \<Longrightarrow> p \<in> set puncts \<and> snd p = k" for p
    by (auto simp only: find_Some_iff nth_mem)
  ultimately show ?thesis
    by (cases "find (\<lambda>p. snd p = k) puncts") (auto simp: punctText_def list_all_iff precOf_Nil)
qed

lemma punctText_op: "map_of binOps k = Some b \<Longrightarrow> punctText k = opText b"
proof -
  have "list_all (\<lambda>p. punctText (fst p) = opText (snd p)) binOps"
    by (simp add: binOps_def punctText_def puncts_def mkOp_def)
  then show "map_of binOps k = Some b \<Longrightarrow> punctText k = opText b"
    by (auto simp: list_all_iff dest!: map_of_SomeD)
qed

lemma theOp_prec: "theOp op = b \<Longrightarrow> precOf op = opPrec b"
  by (auto simp: theOp_def)

lemma binOps_theOp: "map_of binOps k = Some b \<Longrightarrow> b = theOp (punctText k) \<and> 0 < precOf (punctText k) \<and> punctText k \<noteq> ascii ''in''"
  using precOf_texts(1) by (fastforce simp: list_all_iff punctText_op dest: map_of_SomeD theOp_prec)

lemma currentOp_is: "currentOp s = map_option theOp (operatorAt s)"
proof -
  have keyword: "map_of binOps KeywordT = None" by (simp add: binOps_def)
  note precs = precOf_texts(2,3) [THEN theOp_prec]
  consider (word) "tKind (ptok s) = KeywordT" | (op) b where "tKind (ptok s) \<noteq> KeywordT" "map_of binOps (tKind (ptok s)) = Some b"
    | (none) "tKind (ptok s) \<noteq> KeywordT" "map_of binOps (tKind (ptok s)) = None" by fastforce
  then show ?thesis
  proof cases
    case word
    then show ?thesis
      using precOf_texts precOf_Nil precs by (auto simp: currentOp_def operatorAt_def isKeyword_def keyword Let_def mkOp_def)
  next
    case op
    then show ?thesis
      using binOps_theOp [OF op(2)] by (auto simp: currentOp_def operatorAt_def isKeyword_def Let_def)
  next
    case none
    then show ?thesis
      using punctText_other [OF none(2)] by (simp add: currentOp_def operatorAt_def isKeyword_def Let_def)
  qed
qed

lemma currentOp_op: "currentOp s = Some b \<Longrightarrow> operatorAt s = Some (opText b) \<and> opPrec b = precOf (opText b) \<and> opLogic b = isLogic (opText b) \<and> 0 < precOf (opText b)"
  by (auto simp: currentOp_is operatorAt_def theOp_def Let_def split: if_splits)

lemma precOf_power: "precOf (ascii ''**'') = 12"
  by (simp add: precOf_ascii precedences_def upt_rec)

lemma precOf_bound: "precOf op \<le> 12" "precOf op = 12 \<Longrightarrow> op = ascii ''**''"
proof -
  have "precOf op \<le> 12 \<and> (precOf op = 12 \<longrightarrow> op = ascii ''**'')"
  proof (cases "find (\<lambda>i. op \<in> ascii ` set (precedences ! i)) [0..<12]")
    case (Some i)
    then have "i < 12" "op \<in> ascii ` set (precedences ! i)" by (auto simp: find_Some_iff)
    then show ?thesis using Some by (auto simp: precOf_def precedences_def)
  qed (simp add: precOf_def)
  then show "precOf op \<le> 12" "precOf op = 12 \<Longrightarrow> op = ascii ''**''" by auto
qed

lemma rightPrec_le: "rightPrec op \<le> 12" "rightPrec op \<le> precOf op + 1"
proof -
  have "op \<noteq> ascii ''**'' \<Longrightarrow> precOf op < 12" using precOf_bound [of op] by (cases "precOf op = 12") simp_all
  then show "rightPrec op \<le> 12" "rightPrec op \<le> precOf op + 1"
    by (cases "op = ascii ''**''"; simp add: rightPrec_def precOf_power)+
qed

section \<open>Operators and operands in the order of the text\<close>

text \<open>
  \<open>readChain u s xs s1\<close>: from \<open>s\<close> to \<open>s1\<close> the operands and operators \<open>xs\<close> are read in turn, with no
  regard to precedence.  An operand is what \<open>parseUnary\<close> reads at some level of nesting; the depth
  of the states is left out by \<open>surface\<close>.
\<close>

definition surface :: "pst \<Rightarrow> pst" where
  "surface s = s\<lparr>depth := 0\<rparr>"

definition operandRead :: "utab \<Rightarrow> pst \<Rightarrow> node \<Rightarrow> pst \<Rightarrow> bool" where
  "operandRead u s e s1 \<longleftrightarrow> (\<exists>n s2. surface s2 = s \<and> (\<exists>s3. parseUnary u (knot u n) s2 = Done e s3 \<and> surface s3 = s1))"

definition operatorRead :: "utab \<Rightarrow> pst \<Rightarrow> gostring \<Rightarrow> pst \<Rightarrow> bool" where
  "operatorRead u s op s1 \<longleftrightarrow> operatorAt s = Some op \<and> next_do (padvance u) (regexpHere u) s = Done () s1"

inductive readChain :: "utab \<Rightarrow> pst \<Rightarrow> (gostring + node) list \<Rightarrow> pst \<Rightarrow> bool" for u where
  last: "operandRead u s e s1 \<Longrightarrow> readChain u s [Inr e] s1"
| more: "operandRead u s e s1 \<Longrightarrow> operatorRead u s1 op s2 \<Longrightarrow> readChain u s2 xs s3 \<Longrightarrow> readChain u s (Inr e # Inl op # xs) s3"

lemma readChain_join: "readChain u s xs s1 \<Longrightarrow> operatorRead u s1 op s2 \<Longrightarrow> readChain u s2 ys s3 \<Longrightarrow> readChain u s (xs @ Inl op # ys) s3"
  by (induction rule: readChain.induct) (auto intro: readChain.intros)

lemma surface_at: "operatorAt (surface s) = operatorAt s"
  by (simp add: operatorAt_def surface_def)

lemma readToken_surface: "readToken u b (surface s) = surface (readToken u b s)"
  by (simp add: readToken_def surface_def split: prod.splits)

lemma operatorRead_surface:
  assumes "operatorAt s = Some op" "padvance u s = Done () s1" "regexpHere u s1 = Done () s2"
  shows "operatorRead u (surface s) op (surface s2)"
proof -
  have fields: "ptok (surface s) = ptok s" "plx (surface s) = plx s" for s by (simp_all add: surface_def)
  have "padvance u (surface s) = Done () (surface s1)"
    using assms(2) by (auto simp: padvance_def failIllegal_def next_do_def thenP_def modify_def look_def fail_def retP_def
        readToken_surface fields split: if_splits)
  moreover have "regexpHere u (surface s1) = Done () (surface s2)"
    using assms(3) by (auto simp: regexpHere_def failIllegal_def next_do_def thenP_def modify_def look_def fail_def retP_def
        readToken_def surface_def split: if_splits prod.splits)
  ultimately show ?thesis using assms(1) by (simp add: operatorRead_def surface_at next_do_def thenP_def)
qed

section \<open>Precedence climbing\<close>

text \<open>\<open>stopsBefore k s\<close>: the operator at the current token, if any, binds less tightly than \<open>k\<close>.\<close>

definition stopsBefore :: "nat \<Rightarrow> pst \<Rightarrow> bool" where
  "stopsBefore k s \<longleftrightarrow> (case operatorAt s of None \<Rightarrow> True | Some op \<Rightarrow> precOf op < k)"

text \<open>
  \<open>climbed u m s e s1\<close>: read from \<open>s\<close> to \<open>s1\<close>, \<open>e\<close> holds the operands and operators that stand there,
  grouped by precedence, and goes on as far as \<open>m\<close> allows.
\<close>

definition climbed :: "utab \<Rightarrow> nat \<Rightarrow> pst \<Rightarrow> node \<Rightarrow> pst \<Rightarrow> bool" where
  "climbed u m s e s1 \<longleftrightarrow> climbs m e \<and> readChain u (surface s) (spread e) (surface s1) \<and> stopsBefore m s1"

text \<open>The contract of the operator parser one level deeper, and of the operands.\<close>

locale operators =
  fixes u :: utab and r :: pfuns
  assumes operands: "returns operand (rUnary r)"
    and reading: "rUnary r s = Done e s1 \<Longrightarrow> operandRead u (surface s) e (surface s1)"
    and climbing: "rBinary r k s = Done e s1 \<Longrightarrow> climbed u k s e s1"

text \<open>The invariant of the loop: the operator of the left operand has taken what it could.\<close>

definition leftDone :: "utab \<Rightarrow> nat \<Rightarrow> pst \<Rightarrow> node \<Rightarrow> pst \<Rightarrow> bool" where
  "leftDone u m s0 e s \<longleftrightarrow> climbs m e \<and> readChain u (surface s0) (spread e) (surface s)
     \<and> (case operatorOf e of None \<Rightarrow> True | Some op \<Rightarrow> stopsBefore (rightPrec op) s)"

lemma leftDone_climbs:
  assumes "leftDone u m s0 e s" "operatorAt s = Some op1"
  shows "climbs (leftPrec op1) e"
proof (rule climbs_at)
  show "climbs m e" using assms(1) by (simp add: leftDone_def)
  fix op assume "operatorOf e = Some op"
  then have "precOf op1 < rightPrec op" using assms by (simp add: leftDone_def stopsBefore_def)
  then show "leftPrec op1 \<le> precOf op"
    using rightPrec_le [of op] by (cases "op1 = ascii ''**''") (simp_all add: leftPrec_def precOf_power)
qed

context operators
begin

lemma binStep_keeps:
  assumes "leftDone u m s0 e s"
  shows "case binStep u r m e s of Done (Inl e1) s1 \<Rightarrow> leftDone u m s0 e1 s1 | Done (Inr e1) s1 \<Rightarrow> climbed u m s0 e1 s1
    | Panic msg q s1 \<Rightarrow> True | Stuck \<Rightarrow> True"
proof (cases "currentOp s")
  case None
  then show ?thesis using assms by (simp add: binStep_def look_def retP_def climbed_def stopsBefore_def leftDone_def currentOp_is)
next
  case (Some b)
  let ?op = "opText b"
  note p = currentOp_op [OF Some]
  note left = leftDone_climbs [OF assms conjunct1 [OF p]]
  note here = assms [unfolded leftDone_def]
  let ?right = "rBinary r (if ?op = ascii ''**'' then opPrec b else opPrec b + 1)"
  let ?tree = "\<lambda>right. (if opLogic b then LogicalExpr else BinaryExpr) (nodePos e) ?op e right"
  consider (low) "opPrec b < m" | (bad) msg q where "binStep u r m e s = Panic msg q s"
    | (op) "m \<le> opPrec b" "\<not> mixesNullish ?op e" "\<not> (?op = ascii ''**'' \<and> unaryLeft e)"
      "binStep u r m e s = next_do (padvance u) (readHere u (thenP ?right (\<lambda>right.
                if mixesNullish ?op right then failAt mixMsg (nodePos right) else retP (Inl (?tree right))))) s"
  proof (cases "opPrec b < m \<or> mixesNullish ?op e \<or> (?op = ascii ''**'' \<and> unaryLeft e)")
    case True
    then consider "opPrec b < m" | "\<not> opPrec b < m" "mixesNullish ?op e"
      | "\<not> opPrec b < m" "\<not> mixesNullish ?op e" "?op = ascii ''**'' \<and> unaryLeft e" by blast
    then show thesis
    proof cases
      case 2
      then show thesis by (intro bad [of mixMsg]) (simp add: binStep_def look_def fail_def Some)
    next
      case 3
      then show thesis by (intro bad [of _ "nodePos e"]) (simp add: binStep_def look_def failAt_def Some)
    qed (rule low)
  next
    case False
    then have n: "\<not> opPrec b < m" "\<not> mixesNullish ?op e" "\<not> (?op = ascii ''**'' \<and> unaryLeft e)" by auto
    show thesis
      using n by (intro op) (auto simp only: binStep_def look_def Some option.case if_not_P [OF n(1)] if_not_P [OF n(2)] if_not_P [OF n(3)] if_False not_less)
  qed
  then show ?thesis
  proof cases
    case low
    then show ?thesis using here p Some by (simp add: binStep_def look_def retP_def climbed_def stopsBefore_def)
  next
    case op
    have goes: "leftDone u m s0 (?tree right) s3"
      if "padvance u s = Done () s1" "regexpHere u s1 = Done () s2" "?right s2 = Done right s3" "\<not> mixesNullish ?op right" for right s1 s2 s3
    proof -
      have r: "climbed u (rightPrec ?op) s2 right s3"
        using climbing [OF that(3)] p by (auto simp: rightPrec_def split: if_splits)
      then have c: "climbs (rightPrec ?op) right" by (simp add: climbed_def)
      have "climbs m (?tree right)"
        using c left op(1-3) that(4) p here unfolding unaryLeft_begins
        by (subst climbs.simps) (auto simp: joins_def mixesNullish_mixed)
      moreover have "readChain u (surface s0) (spread (?tree right)) (surface s3)"
        using readChain_join [OF _ operatorRead_surface [OF conjunct1 [OF p] that(1,2)]] here r
        by (subst spread.simps) (auto simp: climbed_def)
      ultimately show ?thesis
        using r by (simp add: leftDone_def climbed_def operatorOf_def)
    qed
    show ?thesis
      unfolding op(4)
      using goes
      by (auto simp: next_do_def readHere_def thenP_def retP_def failAt_def split: pres.splits)
  qed simp
qed

lemma parseBinary_climbs:
  assumes "parseBinary u r m s = Done e s1"
  shows "climbed u m s e s1"
proof -
  let ?s = "s\<lparr>depth := depth s + 1\<rparr>" and ?p = "thenP (rUnary r) (repeatP (binStep u r m))"
  have depths: "surface ?s = surface s" "stopsBefore m (s2\<lparr>depth := d\<rparr>) = stopsBefore m s2" "surface (s2\<lparr>depth := d\<rparr>) = surface s2" for s2 d
    by (simp_all add: surface_def stopsBefore_def operatorAt_def)
  obtain s2 where p: "?p ?s = Done e s2" "s1 = s2\<lparr>depth := depth s2 - 1\<rparr>"
    using assms by (cases "?p ?s") (auto simp: parseBinary_def entered_run deferred_def split: if_splits)
  obtain e0 sa where e0: "rUnary r ?s = Done e0 sa" "repeatP (binStep u r m) e0 sa = Done e s2"
    using p(1) by (auto simp: thenP_def split: pres.splits)
  have o: "operand e0" by (rule returns_result [OF operands e0(1)])
  have "leftDone u m s e0 sa"
    using readChain.last [OF reading [OF e0(1)]] o by (simp add: leftDone_def depths climbs_operand operand_operator spread_operand)
  then have "climbed u m s e s2"
    using loopP_keeps [where J = "leftDone u m s" and body = "binStep u r m" and Q = "climbed u m s"
        and a = e0 and s = sa and k = "length (lsrc (plx sa)) + 3", OF binStep_keeps] e0(2)
    by (simp add: repeatP_def)
  then show ?thesis by (simp add: p(2) climbed_def depths)
qed

end

text \<open>Every level keeps the contract.\<close>

lemma knot_operands:
  "returns operand (rUnary (knot u n))" "returns operand (rCallOrMember (knot u n) b)" "returns operand (rPrimary (knot u n))"
proof (induction n arbitrary: b)
  case (Suc n)
  { case 1 show ?case by (simp add: Let_def returns_unary Suc)
  next case 2 show ?case by (simp add: Let_def returns_member Suc)
  next case 3 show ?case by (simp add: Let_def returns_primary) }
qed (simp_all add: stuckFuns_def returns_def)

lemma knot_reading: "rUnary (knot u n) s = Done e s1 \<Longrightarrow> operandRead u (surface s) e (surface s1)"
  by (cases n) (auto simp: stuckFuns_def operandRead_def Let_def)

lemma knot_operators: "operators u (knot u n)"
proof (induction n)
  case 0
  show ?case by unfold_locales (simp_all add: stuckFuns_def returns_def)
next
  case (Suc n)
  show ?case
    by unfold_locales (rule knot_operands, erule knot_reading, simp add: Let_def operators.parseBinary_climbs [OF Suc])
qed

interpretation climb: operators u "knot u n" for u n
  by (rule knot_operators)

text \<open>
  C39. The operator parser.  From any state where a token was read and at any depth, \<open>parseBinary\<close>
  with least precedence \<open>m\<close> ends with a tree or a syntax error.  The operators and operands of the
  tree are those that stand in the text, in their order.  They are grouped by the levels of the
  language: no operator binds less tightly than \<open>m\<close>, all but \<open>**\<close> group to the left and \<open>**\<close> to the
  right, \<open>??\<close> meets neither \<open>&&\<close> nor \<open>||\<close> without parentheses and \<open>**\<close> has no unary operator on its
  left.  The operator that follows, if any, binds less tightly than \<open>m\<close>.
\<close>

theorem parseBinary_precedence:
  assumes "ready s" "deep (Suc n) s"
  shows "case parseBinary u (knot u n) m s of
    Done e s1 \<Rightarrow> climbs m e \<and> readChain u (surface s) (spread e) (surface s1) \<and> stopsBefore m s1
  | Panic msg q s1 \<Rightarrow> True
  | Stuck \<Rightarrow> False"
  using assms levels.at_parseBinary [where n = n and u = u and minPrec = m and s = s] climb.parseBinary_climbs [where n = n and u = u]
  by (auto simp: at_def climbed_def split: pres.splits)

theorem parseBinary_precedence_witness:
  "case parseBinary asciiTab (knot asciiTab 801) 0
     (readToken asciiTab False (startState (ascii ''a-b-c'') \<lparr>optModule = False, optStrict = False, optTypeScript = False\<rparr>)) of
    Done e s1 \<Rightarrow> climbs 0 e \<and> readChain asciiTab
      (surface (readToken asciiTab False (startState (ascii ''a-b-c'') \<lparr>optModule = False, optStrict = False, optTypeScript = False\<rparr>)))
      (spread e) (surface s1) \<and> stopsBefore 0 s1
  | Panic msg q s1 \<Rightarrow> True
  | Stuck \<Rightarrow> False"
  by (rule parseBinary_precedence) (simp_all add: start_reads maxDepth_def)

end
