(* ===== verification/Spec2Isabelle.thy ===== *)
theory Spec2Isabelle
  imports PromiseProps BytecodeProps LexProps JsreSpec ParsePatterns
begin

text \<open>
  Verification library for js55, an ECMAScript engine in Go (\<open>pkg/js55\<close>).

  The program.  A source is read by the scanner (\<open>lexer\<close>) and the parser (\<open>parser\<close>, \<open>ast\<close>),
  compiled to bytecode (\<open>engine/compile.go\<close>, \<open>chunk.go\<close>, \<open>opcode.go\<close>) and interpreted
  (\<open>engine/vm.go\<close>, \<open>frame_env.go\<close>) over a heap of objects (\<open>engine/heap.go\<close>, \<open>root_realm.go\<close>)
  whose references are NaN-boxed values with generation-counted handles (\<open>engine/value.go\<close>).
  Strings are a package of their own (\<open>str\<close>) with an intern table that the heap uses for property
  keys.  Builtins are Go functions over the heap; modelled of them are promises
  (\<open>builtins_promise.go\<close>) and the regular expression matcher (\<open>jsre.go\<close>).  An isolate wraps a heap
  and an interpreter with a memory quota.

  Theories.  \<open>Prelude\<close> has the generic lemmas, the hint collections and Go's 64-bit integers;
  \<open>GoText\<close> the text routines of Go's standard library.  Then, by component:

  \<^item> NaN-boxed values: \<open>NanValue\<close> (\<open>value.go\<close>).  Values are 64-bit words, handles pack an index
    and a generation; floats are their bits.  Every number is a number and nothing else.
  \<^item> Strings: \<open>StrClass\<close> (the byte kernels of \<open>c2strclass_gen.go\<close>), \<open>StrRope\<close> (storage forms,
    ropes, flattening in an explicit store, since flattening mutates shared cells), \<open>StrOps\<close>
    (every operation of \<open>str.go\<close>, against the list of code units \<open>units\<close>), \<open>InternTable\<close>
    (\<open>intern.go\<close>: open addressing, growth, billing, as a finite map from contents to pointers; the
    probe is a locale, interpreted for both kinds of text).
  \<^item> Heap: \<open>HeapModel\<close> (objects, slots, generations, handles, roots, quota notifications),
    \<open>HeapGC\<close> (marking, weak maps, sweeping, allocation), \<open>HeapMark\<close>, \<open>HeapCollect\<close> and
    \<open>HeapSafety\<close> (reachability as an inductive relation; a collection keeps what is reachable and
    frees the rest; handles never come back to life over whole runs of heap operations).
  \<^item> Objects: \<open>ObjShape\<close> (shapes, constructors, copy-on-write of the shared realm), \<open>ObjProps\<close>
    (properties, attributes, deletion, elements, arguments, the prototype walk), \<open>ObjMap\<close> and
    \<open>ObjGet\<close> (an object stands for a finite map from keys, arrays, arguments objects and the global
    object included; writing, reading and deleting are update, lookup and removal, with what
    non-writable, non-configurable, frozen and deleted do; every operation keeps objects well-formed).
  \<^item> Promises: \<open>Promises\<close> (\<open>builtins_promise.go\<close> and the microtask loop of \<open>vm.go\<close>) and
    \<open>PromiseProps\<close> (a promise settles once, unless the constructor is called on it, which
    \<open>constructor_resets\<close> shows to start it anew; jobs run in the order of a queue when no callback
    touches the queue otherwise than by appending and no job fails).
  \<^item> Bytecode: \<open>Bytecode\<close> (opcodes, emission, patching, constants, decoding, the check of reusable
    frames) and \<open>BytecodeProps\<close> (emission and decoding are inverse, a patch changes one operand,
    constants are shared by content, the bodies that are accepted).
  \<^item> Scanner: \<open>Lexer\<close> (\<open>lexer.go\<close>, \<open>token.go\<close>) and \<open>LexProps\<close> (progress, termination, positions,
    longest punctuator).
  \<^item> Parser: \<open>Ast\<close> (the tree of \<open>ast.go\<close> in one datatype; an expression in parentheses is marked
    where the code keeps a map of pointers), \<open>AstOps\<close> (\<open>pattern.go\<close> and names), \<open>ParseBase\<close> (state,
    tokens, syntax errors as panics, type erasure), \<open>ParseExpr\<close> and \<open>ParseOps\<close> (\<open>primary.go\<close>,
    \<open>parser.go\<close>), \<open>ParseStmt\<close> (\<open>stmt.go\<close>, the knot of the descent, \<open>Parse\<close>, \<open>preparser.go\<close>).
    \<open>ParseRuns\<close>, \<open>ParseTypes\<close>, \<open>ParseDescent\<close> and \<open>ParseLevels\<close> show that the parser is total, \<open>ParsePrec\<close>
    that operators are grouped as the language asks and in the order of the text, \<open>ParsePatterns\<close>
    what the cover grammar and the pre-parser accept.
  \<^item> Regular expressions: \<open>JsreSyntax\<close>, \<open>JsreParse\<close> and \<open>JsreMatch\<close> (the classes, the pattern parser
    and the backtracking matcher of \<open>jsre.go\<close>), \<open>JsreRuns\<close> and \<open>JsreSpec\<close> (the matcher against the
    pattern read as a relation on positions; gas; captures).

  Conventions.  A Go panic or refused allocation is \<open>None\<close> or \<open>Inl\<close>; Go integers that can wrap are
  words or wrapped explicitly.  Parameters stand for what is not in the repository or not modelled:
  the Unicode tables \<open>utab\<close>, the RE2 engine, the quota callback \<open>tracker\<close>, the billing callback of
  the intern table, the length of texts for billing, and the functions that jobs and callbacks run.

  Bounds.  Recursion that is not structural has a measure: the bytes left for the scanner and the
  searches, the slots for probing, the ropes above a cell for flattening, the cells of the store
  for chains of shapes.  Compiling a pattern has fuel, six calls per byte, and is proved never to
  run out.  The parser counts its nesting up to 800 and panics beyond; its model has two levels
  more than that, and three rounds more than there are bytes for a loop, and neither is ever used
  up.  The prototype walk has the bound of the code, the number of slots plus that of the realm.
  The matcher has the code's own gas; running microtasks need not end and is a
  \<open>partial_function\<close>, so its properties are equalities that hold when it does not.

  Not modelled.  The compiler, the dispatch of the interpreter and the builtins, which rest on float
  arithmetic and formatting and call back into each other; generators; the isolate's contexts and
  goroutines; the generated numeric kernels; host I/O, commands and the conformance harness.
  \<open>PROJECT.json\<close> lists every part with the reason.  Of objects, pointers to shapes, chunks and
  strings are numbers; the Go capacity of slices is not modelled.
\<close>

end
